(* ===== verification/Pool_Prelude.thy ===== *)
theory Pool_Prelude
  imports Main "HOL-Library.Word" "HOL-Library.Monad_Syntax"
begin

unbundle bit_operations_syntax

text \<open>
  Shared vocabulary of the development: the machine types of the target (64-bit
  \<^verbatim>\<open>size_t\<close>, \<^verbatim>\<open>uint64_t\<close> and pointers), the memory of intrusive
  \<^verbatim>\<open>FreeBlock\<close> cells with its accessors, linked segments in that memory with
  their frame lemmas, the weak compare-and-exchange primitive, and the word arithmetic
  the components share.

  A value of type \<open>'a option\<close> returned by an operation reads: \<open>Some\<close> for a
  normal return, \<open>None\<close> for a call that does not return normally (it dereferences a
  pointer at which no object lives, divides by zero, or never comes back).
\<close>

section \<open>Machine types\<close>

type_synonym u64 = "64 word"
type_synonym addr = "64 word"
type_synonym tid = nat

text \<open>
  The heap maps the address of every live \<^verbatim>\<open>FreeBlock\<close> object to the content of
  its \<^verbatim>\<open>next\<close> field; an address outside its domain holds no such object.
\<close>

type_synonym heap = "addr \<rightharpoonup> addr"

abbreviation nullptr :: addr where
  "nullptr \<equiv> 0"

abbreviation SIZE_MAX :: u64 where
  "SIZE_MAX \<equiv> - 1"

named_theorems state_defs \<open>the functions that update the state of a transition system\<close>

section \<open>Option bind\<close>

lemma bind_eq_Some [simp]:
  "(Option.bind m f = Some y) = (\<exists>x. m = Some x \<and> f x = Some y)"
  by (cases m) auto

section \<open>Words\<close>

lemma unat_lt_2p64: "unat (x :: u64) < 2 ^ 64"
  using unsigned_less [of x] by simp

lemma unat_of_nat_64: "n < 2 ^ 64 \<Longrightarrow> unat (of_nat n :: u64) = n"
  by (simp add: unat_of_nat take_bit_nat_eq_self)

lemma of_nat_unat_64: "of_nat (unat x) = (x :: u64)"
  by (rule word_unat_eq_iff [THEN iffD2]) (simp add: unat_of_nat_64 unat_lt_2p64 [simplified])

lemma unat_plus_64: "unat x + unat y < 2 ^ 64 \<Longrightarrow> unat (x + y :: u64) = unat x + unat y"
  by (simp add: unat_word_ariths)

lemma unat_times_64: "unat x * unat y < 2 ^ 64 \<Longrightarrow> unat (x * y :: u64) = unat x * unat y"
  by (simp add: unat_word_ariths)

lemma unat_plus1_64: "x < y \<Longrightarrow> unat (x + 1 :: u64) = unat x + 1"
  using unat_lt_2p64 [of y] by (simp add: word_less_nat_alt unat_plus_64)

lemma unat_minus_64: "y \<le> x \<Longrightarrow> unat (x - y :: u64) = unat x - unat y"
  by (simp add: unat_sub)

lemma unat_inc_less: "x < y \<Longrightarrow> unat y - unat (x + 1 :: u64) < unat y - unat x"
  by (simp add: unat_plus1_64 word_less_nat_alt)

section \<open>Weak compare-and-exchange\<close>

text \<open>
  \<^verbatim>\<open>compare_exchange_weak\<close>: compares the object with the expected value and stores
  the desired one when they are equal. The weak form may fail although they are equal;
  \<open>spurious\<close> says whether this attempt does. The result is the returned flag, the new
  content of the expected argument and the new content of the object.
\<close>

definition cas_weak :: "bool \<Rightarrow> 'a \<Rightarrow> 'a \<Rightarrow> 'a \<Rightarrow> bool \<times> 'a \<times> 'a" where
  "cas_weak spurious obj expected desired =
     (if \<not> spurious \<and> obj = expected then (True, expected, desired) else (False, obj, obj))"

section \<open>Memory of free blocks\<close>

definition get_next :: "heap \<Rightarrow> addr \<Rightarrow> addr option" where
  "get_next h p = (if p = nullptr then None else h p)"

definition set_next :: "heap \<Rightarrow> addr \<Rightarrow> addr \<Rightarrow> heap option" where
  "set_next h p v =
     (if p = nullptr then None else case h p of None \<Rightarrow> None | Some _ \<Rightarrow> Some (h(p \<mapsto> v)))"

lemma get_next_Some [simp]: "(get_next h p = Some v) = (p \<noteq> 0 \<and> h p = Some v)"
  by (simp add: get_next_def)

lemma set_next_Some [simp]:
  "(set_next h p v = Some h') = (p \<noteq> 0 \<and> p \<in> dom h \<and> h' = h(p \<mapsto> v))"
  by (auto simp: set_next_def split: option.splits)

subsection \<open>Linked segments\<close>

text \<open>\<open>seg h p xs q\<close>: following \<^verbatim>\<open>next\<close> from \<open>p\<close> visits exactly \<open>xs\<close> and arrives at \<open>q\<close>.\<close>

primrec seg :: "heap \<Rightarrow> addr \<Rightarrow> addr list \<Rightarrow> addr \<Rightarrow> bool" where
  "seg h p [] q = (p = q)"
| "seg h p (x # xs) q =
     (p = x \<and> x \<noteq> nullptr \<and> (case h x of None \<Rightarrow> False | Some n \<Rightarrow> seg h n xs q))"

abbreviation chain :: "heap \<Rightarrow> addr \<Rightarrow> addr list \<Rightarrow> bool" where
  "chain h p xs \<equiv> seg h p xs nullptr"

lemma seg_append: "seg h p (xs @ ys) q = (\<exists>r. seg h p xs r \<and> seg h r ys q)"
  by (induction xs arbitrary: p) (auto split: option.splits)

lemma seg_frame: "(\<And>x. x \<in> set xs \<Longrightarrow> h' x = h x) \<Longrightarrow> seg h' p xs q = seg h p xs q"
  by (induction xs arbitrary: p) (auto split: option.splits)

lemma seg_upd [simp]: "a \<notin> set xs \<Longrightarrow> seg (h(a := v)) p xs q = seg h p xs q"
  by (rule seg_frame) auto

lemma seg_nonnull: "seg h p xs q \<Longrightarrow> nullptr \<notin> set xs"
  by (induction xs arbitrary: p) (auto split: option.splits)

lemma seg_dom: "seg h p xs q \<Longrightarrow> set xs \<subseteq> dom h"
  by (induction xs arbitrary: p) (auto split: option.splits)

lemma chain_null [simp]: "chain h nullptr xs = (xs = [])"
  by (cases xs) auto

lemma chain_nonnull:
  "p \<noteq> nullptr \<Longrightarrow> chain h p xs = (\<exists>n ys. xs = p # ys \<and> h p = Some n \<and> chain h n ys)"
  by (cases xs) (auto split: option.splits)

lemma chain_unique: "chain h p xs \<Longrightarrow> chain h p ys \<Longrightarrow> xs = ys"
proof (induction xs arbitrary: p ys)
  case (Cons x xs)
  then show ?case by (cases ys) (auto split: option.splits)
qed auto

lemma chain_tail_notin: "chain h p (x # xs) \<Longrightarrow> x \<notin> set xs"
proof
  assume c: "chain h p (x # xs)" and "x \<in> set xs"
  then obtain as bs where xs: "xs = as @ x # bs" by (auto simp: in_set_conv_decomp)
  have "chain h x (x # as @ x # bs)" "chain h x (x # bs)"
    using c unfolding xs by (auto simp: seg_append split: option.splits)
  from chain_unique [OF this] have "length (x # as @ x # bs) = length (x # bs)" by simp
  then show False by simp
qed

lemma chain_distinct: "chain h p xs \<Longrightarrow> distinct xs"
proof (induction xs arbitrary: p)
  case (Cons x xs)
  from chain_tail_notin [OF Cons.prems] Cons show ?case by (auto split: option.splits)
qed simp

lemma chain_head: "chain h p xs \<Longrightarrow> xs \<noteq> [] \<Longrightarrow> p = hd xs"
  by (cases xs) auto

lemma seg_snoc_upd:
  "seg h p (xs @ [t]) q \<Longrightarrow> distinct (xs @ [t]) \<Longrightarrow> seg (h(t \<mapsto> r)) p (xs @ [t]) r"
  by (auto simp: seg_append split: option.splits)

lemma seg_last: "seg h p (xs @ [t]) q \<Longrightarrow> h t = Some q \<and> t \<noteq> nullptr"
  by (auto simp: seg_append split: option.splits)

text \<open>There are fewer than \<open>2 ^ 64\<close> distinct non-null addresses.\<close>

lemma distinct_nonnull_length:
  assumes "distinct (xs :: addr list)" "nullptr \<notin> set xs"
  shows "length xs < 2 ^ 64"
proof -
  have "card (set xs) < card (UNIV :: addr set)" using assms(2) by (intro psubset_card_mono) auto
  then show ?thesis using distinct_card [OF assms(1)] by (simp add: card_word)
qed

section \<open>The C library heap\<close>

text \<open>
  \<^verbatim>\<open>std::aligned_alloc\<close> is the environment's choice: its result is a parameter (null for a
  failed request). \<open>libc\<close> records the outstanding allocations with their sizes in bytes.
\<close>

type_synonym libc = "addr \<rightharpoonup> u64"

datatype cpp_error = Bad_alloc

definition libc_alloc :: "addr \<Rightarrow> u64 \<Rightarrow> libc \<Rightarrow> libc" where
  "libc_alloc r n live = (if r = nullptr then live else live(r \<mapsto> n))"

definition libc_free :: "addr \<Rightarrow> libc \<Rightarrow> libc" where
  "libc_free r live = live(r := None)"

section \<open>Arrays of equally sized blocks\<close>

text \<open>\<open>base + i * sz\<close> for \<open>i < n\<close>, all inside the address space.\<close>

definition block_at :: "addr \<Rightarrow> u64 \<Rightarrow> nat \<Rightarrow> addr" where
  "block_at base sz i = base + of_nat i * sz"

definition array_fits :: "addr \<Rightarrow> u64 \<Rightarrow> nat \<Rightarrow> bool" where
  "array_fits base sz n = (0 < unat base \<and> 0 < unat sz \<and> unat base + n * unat sz < 2 ^ 64)"

lemma array_fits_count: "array_fits base sz n \<Longrightarrow> n < 2 ^ 64"
  unfolding array_fits_def
  by (metis One_nat_def Suc_leI add_lessD1 add.commute le_less_trans mult.right_neutral mult_le_mono2)

lemma unat_block_at:
  assumes "array_fits base sz n" "i < n"
  shows "unat (block_at base sz i) = unat base + i * unat sz"
proof -
  have i: "unat (of_nat i :: u64) = i" using array_fits_count [OF assms(1)] assms(2) by (simp add: unat_of_nat_64)
  have "i * unat sz \<le> n * unat sz" using assms(2) by simp
  then have b: "unat base + i * unat sz < 2 ^ 64" using assms(1) unfolding array_fits_def by linarith
  then have "unat (of_nat i * sz) = i * unat sz" using unat_times_64 [of "of_nat i" sz] i by simp
  with b show ?thesis unfolding block_at_def using unat_plus_64 [of base "of_nat i * sz"] by simp
qed

lemma block_at_inj:
  assumes "array_fits base sz n" "i < n" "j < n"
  shows "block_at base sz i = block_at base sz j \<longleftrightarrow> i = j"
proof
  assume "block_at base sz i = block_at base sz j"
  then have "i * unat sz = j * unat sz"
    using unat_block_at [OF assms(1,2)] unat_block_at [OF assms(1,3)] by auto
  then show "i = j" using assms(1) by (simp add: array_fits_def)
qed simp

lemma block_at_nonnull: "array_fits base sz n \<Longrightarrow> i < n \<Longrightarrow> block_at base sz i \<noteq> nullptr"
  using unat_block_at [of base sz n i] by (auto simp: array_fits_def)

text \<open>Distinct blocks do not overlap.\<close>

lemma block_at_apart:
  assumes "array_fits base sz n" "i < j" "j < n"
  shows "unat (block_at base sz i) + unat sz \<le> unat (block_at base sz j)"
proof -
  have "Suc i * unat sz \<le> j * unat sz" using assms(2) by (intro mult_le_mono1) simp
  then show ?thesis
    using unat_block_at [OF assms(1), of i] unat_block_at [OF assms(1,3)] assms(2,3) by simp
qed

lemma block_index:
  assumes "array_fits base sz n" "i < n"
  shows "unat ((block_at base sz i - base) div sz) = i"
proof -
  have "block_at base sz i - base = of_nat i * sz" by (simp add: block_at_def)
  moreover have "unat (of_nat i * sz :: u64) = i * unat sz"
  proof -
    have "i * unat sz \<le> n * unat sz" using assms(2) by simp
    then have "i * unat sz < 2 ^ 64" using assms(1) unfolding array_fits_def by linarith
    moreover have "unat (of_nat i :: u64) = i"
      using array_fits_count [OF assms(1)] assms(2) by (simp add: unat_of_nat_64)
    ultimately show ?thesis using unat_times_64 [of "of_nat i" sz] by simp
  qed
  ultimately show ?thesis using assms(1) by (simp add: unat_div array_fits_def)
qed

text \<open>Rounding up to a multiple of 64.\<close>

lemma round_up_64:
  assumes "unat x + 63 < 2 ^ 64"
  shows "unat (((x + 63) div 64) * 64 :: u64) = ((unat x + 63) div 64) * 64"
proof -
  have "unat (x + 63) = unat x + 63" using unat_plus_64 [of x 63] assms by simp
  then have d: "unat ((x + 63) div 64 :: u64) = (unat x + 63) div 64" by (simp add: unat_div)
  have "((unat x + 63) div 64) * 64 \<le> unat x + 63" by simp
  then show ?thesis using unat_times_64 [of "(x + 63) div 64" 64] d assms by simp
qed

lemma unat_words_for:
  assumes "unat x + 63 < 2 ^ 64"
  shows "unat ((x + 64 - 1) div 64 :: u64) = (unat x + 63) div 64"
proof -
  have "unat (x + 63) = unat x + 63" using unat_plus_64 [of x 63] assms by simp
  moreover have "x + 64 - 1 = x + 63" by simp
  ultimately show ?thesis by (simp only: unat_div unat_numeral) simp
qed

end
