(* ===== verification/Pool_Interface.thy ===== *)
theory Pool_Interface
  imports Pool_Prelude
begin

text \<open>
  The contracts between components. \<open>block_pool\<close> is what every allocator of the library
  promises its clients: an allocation hands out a block that was free, or null and nothing
  changes, and a block in use can be given back. \<open>complete_pool\<close> adds that null is
  returned only when nothing is free. \<open>interleaving\<close> is the contract of the concurrent
  models: an invariant of the initial state that every atomic step keeps.
\<close>

section \<open>Pools of fixed-size blocks\<close>

locale block_pool =
  fixes alloc :: "'s \<Rightarrow> (addr \<times> 's) option"
    and dealloc :: "'s \<Rightarrow> addr \<Rightarrow> 's option"
    and invar :: "'s \<Rightarrow> bool"
    and blocks :: "'s \<Rightarrow> addr set"
    and free :: "'s \<Rightarrow> addr set"
  assumes free_blocks: "invar s \<Longrightarrow> free s \<subseteq> blocks s"
    and null_no_block: "invar s \<Longrightarrow> nullptr \<notin> blocks s"
    and alloc_returns: "invar s \<Longrightarrow> \<exists>p s'. alloc s = Some (p, s')"
    and alloc_invar: "invar s \<Longrightarrow> alloc s = Some (p, s') \<Longrightarrow> invar s'"
    and alloc_blocks: "invar s \<Longrightarrow> alloc s = Some (p, s') \<Longrightarrow> blocks s' = blocks s"
    and alloc_null: "invar s \<Longrightarrow> alloc s = Some (nullptr, s') \<Longrightarrow> free s' = free s"
    and alloc_some: "invar s \<Longrightarrow> alloc s = Some (p, s') \<Longrightarrow> p \<noteq> nullptr \<Longrightarrow>
           p \<in> free s \<and> free s' = free s - {p}"
    and dealloc_used: "invar s \<Longrightarrow> p \<in> blocks s - free s \<Longrightarrow>
           \<exists>s'. dealloc s p = Some s' \<and> invar s' \<and> blocks s' = blocks s \<and> free s' = insert p (free s)"
begin

text \<open>The blocks a client holds are in use: they belong to the pool and are not free.\<close>

definition in_use :: "'s \<Rightarrow> addr set" where
  "in_use s = blocks s - free s"

lemma alloc_in_use:
  assumes "invar s" "alloc s = Some (p, s')"
  shows "in_use s' = in_use s \<union> ({p} - {nullptr})" and "p \<notin> in_use s"
proof -
  note facts = free_blocks [OF assms(1)] null_no_block [OF assms(1)] alloc_blocks [OF assms]
  have cases: "p = nullptr \<and> free s' = free s \<or> p \<noteq> nullptr \<and> p \<in> free s \<and> free s' = free s - {p}"
    using alloc_some [OF assms] alloc_null [OF assms(1), of s'] assms(2) by blast
  show "in_use s' = in_use s \<union> ({p} - {nullptr})"
    using cases facts unfolding in_use_def by blast
  show "p \<notin> in_use s"
    using cases facts unfolding in_use_def by blast
qed

lemma dealloc_in_use:
  assumes "invar s" "p \<in> in_use s"
  obtains s' where "dealloc s p = Some s'" "invar s'" "blocks s' = blocks s" "in_use s' = in_use s - {p}"
  using dealloc_used [OF assms(1), of p] assms(2) by (auto simp: in_use_def)

text \<open>A property both operations keep can be added to the invariant.\<close>

lemma strengthen:
  assumes a: "\<And>s p s'. invar s \<Longrightarrow> Q s \<Longrightarrow> alloc s = Some (p, s') \<Longrightarrow> Q s'"
    and d: "\<And>s p s'. invar s \<Longrightarrow> Q s \<Longrightarrow> dealloc s p = Some s' \<Longrightarrow> Q s'"
  shows "block_pool alloc dealloc (\<lambda>s. invar s \<and> Q s) blocks free"
proof
  fix s assume s: "invar s \<and> Q s"
  show "free s \<subseteq> blocks s" "nullptr \<notin> blocks s" "\<exists>p s'. alloc s = Some (p, s')"
    using s free_blocks null_no_block alloc_returns by simp_all
  show "\<exists>s'. dealloc s p = Some s' \<and> (invar s' \<and> Q s') \<and> blocks s' = blocks s \<and> free s' = insert p (free s)"
    if "p \<in> blocks s - free s" for p using dealloc_used [OF conjunct1 [OF s] that] d s by auto
  fix p s' assume al: "alloc s = Some (p, s')"
  show "invar s' \<and> Q s'" using s alloc_invar [OF _ al] a [OF _ _ al] by simp
  show "blocks s' = blocks s" using s alloc_blocks [OF _ al] by simp
  show "p \<in> free s \<and> free s' = free s - {p}" if "p \<noteq> nullptr"
    using s alloc_some [OF _ al that] by simp
next
  fix s s' assume "invar s \<and> Q s" "alloc s = Some (nullptr, s')"
  then show "free s' = free s" using alloc_null by simp
qed

end

text \<open>A pool that refuses only when it is exhausted.\<close>

locale complete_pool = block_pool +
  assumes alloc_complete: "invar s \<Longrightarrow> free s \<noteq> {} \<Longrightarrow> \<exists>p s'. alloc s = Some (p, s') \<and> p \<noteq> nullptr"
begin

lemma null_iff_exhausted:
  assumes "invar s" "alloc s = Some (p, s')"
  shows "p = nullptr \<longleftrightarrow> free s = {}"
proof
  assume "p = nullptr"
  then show "free s = {}" using alloc_complete [OF assms(1)] assms(2) by auto
next
  assume "free s = {}"
  then show "p = nullptr" using alloc_some [OF assms] by auto
qed

end

section \<open>Interleaved executions\<close>

text \<open>
  The concurrent models are transition systems whose steps are the atomic actions of one
  thread. Their safety properties are invariants of the reachable states.
\<close>

inductive reach :: "('s \<Rightarrow> bool) \<Rightarrow> ('s \<Rightarrow> 's \<Rightarrow> bool) \<Rightarrow> 's \<Rightarrow> bool"
  for init :: "'s \<Rightarrow> bool" and step :: "'s \<Rightarrow> 's \<Rightarrow> bool" where
  reach_init: "init s \<Longrightarrow> reach init step s"
| reach_step: "reach init step s \<Longrightarrow> step s t \<Longrightarrow> reach init step t"

locale interleaving =
  fixes init :: "'s \<Rightarrow> bool"
    and step :: "'s \<Rightarrow> 's \<Rightarrow> bool"
    and invariant :: "'s \<Rightarrow> bool"
  assumes init_invariant: "init s \<Longrightarrow> invariant s"
    and step_invariant: "step s t \<Longrightarrow> invariant s \<Longrightarrow> invariant t"
begin

lemma reach_invariant: "reach init step s \<Longrightarrow> invariant s"
  by (induction rule: reach.induct) (auto intro: init_invariant step_invariant)

lemma reach_steps: "step\<^sup>*\<^sup>* s t \<Longrightarrow> reach init step s \<Longrightarrow> reach init step t"
  by (induction rule: rtranclp_induct) (auto intro: reach.reach_step)

end

end
