(* ===== verification/Freelist.thy ===== *)
theory Freelist
  imports Pool_Interface
begin

text \<open>
  \<^verbatim>\<open>FreelistAllocator\<close> (include/freelist\_allocator.hpp, src/freelist\_allocator.cpp):
  a stack of free blocks threaded through the blocks themselves, with a tagged head
  pointer. This theory is the model of calls that run without interference; the
  interleaved executions of several threads are the subject of \<open>Freelist_Conc\<close>.
\<close>

section \<open>Data\<close>

record TaggedPtr =
  ptr :: addr
  tag :: u64

record FreelistAllocator =
  head :: TaggedPtr
  bulk_lock :: bool

definition TaggedPtr_eq :: "TaggedPtr \<Rightarrow> TaggedPtr \<Rightarrow> bool" where
  "TaggedPtr_eq a b = (ptr a = ptr b \<and> tag a = tag b)"

definition FreelistAllocator_new :: FreelistAllocator where
  "FreelistAllocator_new = \<lparr>head = \<lparr>ptr = nullptr, tag = 0\<rparr>, bulk_lock = False\<rparr>"

section \<open>Operations\<close>

text \<open>
  The two retry loops. Each element of the first argument is one attempt of
  \<^verbatim>\<open>compare_exchange_weak\<close> and says whether it fails spuriously; a list that runs
  out stands for a loop that has not returned yet.
\<close>

fun push_loop :: "bool list \<Rightarrow> FreelistAllocator \<Rightarrow> heap \<Rightarrow> addr \<Rightarrow> (FreelistAllocator \<times> heap) option" where
  "push_loop [] a h node = None"
| "push_loop (sp # sps) a h node =
     (let old_head = head a in
      do { h' \<leftarrow> set_next h node (ptr old_head);
           let (ok, _, new_head) = cas_weak sp (head a) old_head \<lparr>ptr = node, tag = tag old_head + 1\<rparr>;
           if ok then Some (a\<lparr>head := new_head\<rparr>, h') else push_loop sps a h' node })"

definition push :: "FreelistAllocator \<Rightarrow> heap \<Rightarrow> addr \<Rightarrow> (FreelistAllocator \<times> heap) option" where
  "push a h p = push_loop [False] a h p"

fun pop_loop :: "bool list \<Rightarrow> FreelistAllocator \<Rightarrow> heap \<Rightarrow> (addr \<times> FreelistAllocator) option" where
  "pop_loop [] a h = None"
| "pop_loop (sp # sps) a h =
     (let old_head = head a in
      if ptr old_head = nullptr then Some (nullptr, a)
      else do { nxt \<leftarrow> get_next h (ptr old_head);
           let (ok, _, new_head) = cas_weak sp (head a) old_head \<lparr>ptr = nxt, tag = tag old_head + 1\<rparr>;
           if ok then Some (ptr old_head, a\<lparr>head := new_head\<rparr>) else pop_loop sps a h })"

definition pop :: "FreelistAllocator \<Rightarrow> heap \<Rightarrow> (addr \<times> FreelistAllocator) option" where
  "pop a h = pop_loop [False] a h"

text \<open>
  The loop of \<^verbatim>\<open>push_bulk\<close> walks a chain of unknown length and need not end on a
  cyclic one, so it is a partial function.
\<close>

partial_function (option) push_bulk_loop ::
  "FreelistAllocator \<Rightarrow> heap \<Rightarrow> addr \<Rightarrow> (FreelistAllocator \<times> heap) option" where
  "push_bulk_loop a h node =
     (if node = nullptr then Some (a, h)
      else do { nxt \<leftarrow> get_next h node;
                (a', h') \<leftarrow> push a h node;
                push_bulk_loop a' h' nxt })"

definition push_bulk ::
  "FreelistAllocator \<Rightarrow> heap \<Rightarrow> addr \<Rightarrow> addr \<Rightarrow> (FreelistAllocator \<times> heap) option" where
  "push_bulk a h batch_head batch_tail =
     (if bulk_lock a then None
      else do { h' \<leftarrow> set_next h batch_tail nullptr;
                (a', h'') \<leftarrow> push_bulk_loop (a\<lparr>bulk_lock := True\<rparr>) h' batch_head;
                Some (a'\<lparr>bulk_lock := False\<rparr>, h'') })"

function pop_bulk_loop ::
  "FreelistAllocator \<Rightarrow> heap \<Rightarrow> addr \<Rightarrow> u64 \<Rightarrow> u64 \<Rightarrow> (FreelistAllocator \<times> heap \<times> addr) option" where
  "pop_bulk_loop a h tail count n =
     (if count < n
      then do { (nxt, a') \<leftarrow> pop a h;
                if nxt = nullptr then Some (a', h, tail)
                else do { h' \<leftarrow> set_next h tail nxt;
                          pop_bulk_loop a' h' nxt (count + 1) n } }
      else Some (a, h, tail))"
  by pat_completeness auto
termination
  by (relation "measure (\<lambda>(a, h, tail, count, n). unat n - unat count)")
    (auto intro: unat_inc_less)

declare pop_bulk_loop.simps [simp del]

definition pop_bulk :: "FreelistAllocator \<Rightarrow> heap \<Rightarrow> u64 \<Rightarrow> (addr \<times> FreelistAllocator \<times> heap) option" where
  "pop_bulk a h n =
     (if bulk_lock a then None
      else do { (start, a1) \<leftarrow> pop (a\<lparr>bulk_lock := True\<rparr>) h;
                if start = nullptr then Some (nullptr, a1\<lparr>bulk_lock := False\<rparr>, h)
                else do { (a2, h2, tail) \<leftarrow> pop_bulk_loop a1 h start 1 n;
                          h3 \<leftarrow> set_next h2 tail nullptr;
                          Some (start, a2\<lparr>bulk_lock := False\<rparr>, h3) } })"


section \<open>Weak compare-and-exchange: spurious failures do not change the outcome\<close>

lemma TaggedPtr_eq_iff: "TaggedPtr_eq a b = (a = b)"
  by (cases a; cases b) (auto simp: TaggedPtr_eq_def)

lemma push_unfold:
  "push a h p =
     do { h' \<leftarrow> set_next h p (ptr (head a));
          Some (a\<lparr>head := \<lparr>ptr = p, tag = tag (head a) + 1\<rparr>\<rparr>, h') }"
  by (simp add: push_def cas_weak_def Let_def)

lemma pop_unfold:
  "pop a h =
     (if ptr (head a) = nullptr then Some (nullptr, a)
      else do { nxt \<leftarrow> get_next h (ptr (head a));
                Some (ptr (head a), a\<lparr>head := \<lparr>ptr = nxt, tag = tag (head a) + 1\<rparr>\<rparr>) })"
  by (simp add: pop_def cas_weak_def Let_def)

lemma set_next_twice: "set_next h p v = Some h' \<Longrightarrow> set_next h' p v = Some h'"
  by (auto simp: dom_def)

lemma push_loop_spurious: "push_loop (replicate k True @ False # sps) a h p = push a h p"
proof (induction k arbitrary: h)
  case 0
  show ?case by (simp add: push_unfold cas_weak_def Let_def)
next
  case (Suc k)
  show ?case
  proof (cases "set_next h p (ptr (head a))")
    case None
    then show ?thesis by (simp add: push_unfold)
  next
    case (Some h')
    with Suc.IH [of h'] show ?thesis
      by (simp add: push_unfold cas_weak_def set_next_twice Let_def del: set_next_Some)
  qed
qed

lemma pop_loop_spurious: "pop_loop (replicate k True @ False # sps) a h = pop a h"
  by (induction k; cases "h (ptr (head a))") (auto simp: pop_unfold cas_weak_def get_next_def Let_def)

section \<open>The abstract stack\<close>

text \<open>
  The content of the freelist is the list of blocks on the chain from \<^verbatim>\<open>head.ptr\<close>.
  \<open>fl_holds a h xs\<close>: the allocator holds exactly \<open>xs\<close>, top first.
\<close>

definition fl_holds :: "FreelistAllocator \<Rightarrow> heap \<Rightarrow> addr list \<Rightarrow> bool" where
  "fl_holds a h xs = chain h (ptr (head a)) xs"

definition fl_free :: "FreelistAllocator \<times> heap \<Rightarrow> addr set" where
  "fl_free s = {x. \<exists>xs. fl_holds (fst s) (snd s) xs \<and> x \<in> set xs}"

definition fl_invar :: "FreelistAllocator \<times> heap \<Rightarrow> bool" where
  "fl_invar s = (nullptr \<notin> dom (snd s) \<and> \<not> bulk_lock (fst s) \<and> (\<exists>xs. fl_holds (fst s) (snd s) xs))"

lemma fl_holds_unique: "fl_holds a h xs \<Longrightarrow> fl_holds a h ys \<Longrightarrow> xs = ys"
  unfolding fl_holds_def by (rule chain_unique)

lemma fl_holds_free: "fl_holds a h xs \<Longrightarrow> fl_free (a, h) = set xs"
  by (auto simp: fl_free_def dest: fl_holds_unique)

lemma fl_holds_distinct: "fl_holds a h xs \<Longrightarrow> distinct xs"
  unfolding fl_holds_def by (rule chain_distinct)

lemma fl_holds_dom: "fl_holds a h xs \<Longrightarrow> set xs \<subseteq> dom h - {nullptr}"
  unfolding fl_holds_def using seg_dom seg_nonnull by blast

lemma fl_holds_frame: "fl_holds a h xs \<Longrightarrow> (\<And>x. x \<in> set xs \<Longrightarrow> h' x = h x) \<Longrightarrow> fl_holds a h' xs"
  unfolding fl_holds_def using seg_frame by blast

lemma fl_holds_lock [simp]: "fl_holds (a\<lparr>bulk_lock := b\<rparr>) h xs = fl_holds a h xs"
  by (simp add: fl_holds_def)

lemma fl_new_holds: "fl_holds FreelistAllocator_new h []"
  by (simp add: fl_holds_def FreelistAllocator_new_def)

lemma push_holds:
  assumes "fl_holds a h xs" "p \<in> dom h" "p \<noteq> nullptr" "p \<notin> set xs"
  obtains a' where "push a h p = Some (a', h(p \<mapsto> ptr (head a)))"
    and "fl_holds a' (h(p \<mapsto> ptr (head a))) (p # xs)" and "bulk_lock a' = bulk_lock a"
    and "tag (head a') = tag (head a) + 1"
proof
  let ?a' = "a\<lparr>head := \<lparr>ptr = p, tag = tag (head a) + 1\<rparr>\<rparr>"
  show "push a h p = Some (?a', h(p \<mapsto> ptr (head a)))"
    using assms by (simp add: push_unfold)
  show "fl_holds ?a' (h(p \<mapsto> ptr (head a))) (p # xs)"
    using assms by (simp add: fl_holds_def)
qed simp_all

lemma pop_holds_Nil: "fl_holds a h [] \<Longrightarrow> pop a h = Some (nullptr, a)"
  by (simp add: fl_holds_def pop_unfold)

lemma pop_holds_Cons:
  assumes "fl_holds a h (x # xs)"
  obtains a' where "pop a h = Some (x, a')" and "fl_holds a' h xs" and "bulk_lock a' = bulk_lock a"
    and "tag (head a') = tag (head a) + 1"
  using assms by (auto simp: fl_holds_def pop_unfold split: option.splits)

subsection \<open>Bulk transfers\<close>

lemma push_bulk_loop_holds:
  assumes "chain h node ys" "fl_holds a h xs" "set xs \<inter> set ys = {}"
  shows "\<exists>a' h'. push_bulk_loop a h node = Some (a', h') \<and> fl_holds a' h' (rev ys @ xs)
           \<and> bulk_lock a' = bulk_lock a \<and> dom h' = dom h \<and> (\<forall>x. x \<notin> set ys \<longrightarrow> h' x = h x)"
  using assms
proof (induction ys arbitrary: a h node xs)
  case Nil
  then show ?case by (simp add: push_bulk_loop.simps)
next
  case (Cons y ys)
  from Cons.prems(1) obtain n where y: "node = y" "y \<noteq> nullptr" "h y = Some n" "chain h n ys"
    by (auto split: option.splits)
  have ny: "y \<notin> set ys" by (rule chain_tail_notin [OF Cons.prems(1)])
  let ?h1 = "h(y \<mapsto> ptr (head a))"
  obtain a1 where p: "push a h y = Some (a1, ?h1)" and a1: "fl_holds a1 ?h1 (y # xs)" "bulk_lock a1 = bulk_lock a"
    using push_holds [OF Cons.prems(2), of y] y Cons.prems(3) by auto
  have "chain ?h1 n ys" "set (y # xs) \<inter> set ys = {}" using y ny Cons.prems(3) by auto
  from Cons.IH [OF this(1) a1(1) this(2)] obtain a' h' where
    r: "push_bulk_loop a1 ?h1 n = Some (a', h')" "fl_holds a' h' (rev ys @ y # xs)"
       "bulk_lock a' = bulk_lock a1" "dom h' = dom ?h1" "\<forall>x. x \<notin> set ys \<longrightarrow> h' x = ?h1 x"
    by blast
  have "push_bulk_loop a h node = Some (a', h')"
    using y p r(1) by (subst push_bulk_loop.simps) simp
  with r a1(2) y(3) show ?case by auto
qed

lemma push_bulk_holds:
  assumes "seg h bh (ys @ [bt]) q" "distinct (ys @ [bt])" "fl_holds a h xs" "set xs \<inter> set (ys @ [bt]) = {}"
    and "\<not> bulk_lock a"
  shows "\<exists>a' h'. push_bulk a h bh bt = Some (a', h') \<and> fl_holds a' h' (bt # rev ys @ xs)
           \<and> \<not> bulk_lock a' \<and> dom h' = dom h \<and> (\<forall>x. x \<notin> set (ys @ [bt]) \<longrightarrow> h' x = h x)"
proof -
  let ?h1 = "h(bt \<mapsto> nullptr)"
  have t: "bt \<noteq> nullptr" "h bt = Some q" using seg_last [OF assms(1)] by auto
  have c: "chain ?h1 bh (ys @ [bt])" by (rule seg_snoc_upd [OF assms(1,2)])
  have f: "fl_holds (a\<lparr>bulk_lock := True\<rparr>) ?h1 xs"
    using assms(3,4) by (auto simp: fl_holds_def)
  from push_bulk_loop_holds [OF c f assms(4)] obtain a' h' where
    r: "push_bulk_loop (a\<lparr>bulk_lock := True\<rparr>) ?h1 bh = Some (a', h')" "fl_holds a' h' (bt # rev ys @ xs)"
       "dom h' = dom ?h1" "\<forall>x. x \<notin> set (ys @ [bt]) \<longrightarrow> h' x = ?h1 x" by auto
  have "push_bulk a h bh bt = Some (a'\<lparr>bulk_lock := False\<rparr>, h')"
    using t assms(5) r(1) by (simp add: push_bulk_def dom_def)
  with r t show ?thesis by auto
qed

lemma pop_bulk_loop_stop:
  assumes "fl_holds a h xs" "\<not> (count < n \<and> xs \<noteq> [])"
  shows "pop_bulk_loop a h tail count n = Some (a, h, tail)" "take (unat n - unat count) xs = []"
    "drop (unat n - unat count) xs = xs"
proof -
  have "xs = [] \<or> unat n - unat count = 0" using assms(2) by (auto simp: word_less_nat_alt)
  then show "take (unat n - unat count) xs = []" "drop (unat n - unat count) xs = xs" by auto
  show "pop_bulk_loop a h tail count n = Some (a, h, tail)"
    using assms by (subst pop_bulk_loop.simps) (auto simp: pop_holds_Nil)
qed

lemma seg_link:
  assumes "seg h p (ys @ [t]) q" "distinct (ys @ [t])" "x \<in> dom h" "x \<noteq> nullptr" "x \<notin> set (ys @ [t])"
  shows "seg (h(t \<mapsto> x)) p ((ys @ [t]) @ [x]) (the (h x))"
  using seg_snoc_upd [OF assms(1,2), of x] assms(3-5) unfolding seg_append [of _ _ "ys @ [t]"] by auto

lemma pop_bulk_loop_holds:
  assumes "fl_holds a h xs" "seg h p (ys @ [tail]) q" "distinct (ys @ [tail])" "set (ys @ [tail]) \<inter> set xs = {}"
  shows "\<exists>a' h' tail' zs r. pop_bulk_loop a h tail count n = Some (a', h', tail')
     \<and> fl_holds a' h' (drop (unat n - unat count) xs)
     \<and> ys @ tail # take (unat n - unat count) xs = zs @ [tail'] \<and> seg h' p (zs @ [tail']) r
     \<and> bulk_lock a' = bulk_lock a \<and> dom h' = dom h \<and> (\<forall>x. x \<notin> set (zs @ [tail']) \<longrightarrow> h' x = h x)"
  using assms
proof (induction a h tail count n arbitrary: xs ys q rule: pop_bulk_loop.induct)
  case (1 a h tail count n)
  show ?case
  proof (cases "count < n \<and> xs \<noteq> []")
    case False
    with "1.prems"(1,2) show ?thesis by (auto simp: pop_bulk_loop_stop)
  next
    case True
    then obtain x xs' where xs: "xs = x # xs'" by (cases xs) auto
    obtain a1 where a1: "pop a h = Some (x, a1)" "fl_holds a1 h xs'" "bulk_lock a1 = bulk_lock a"
      using pop_holds_Cons "1.prems"(1) xs by blast
    let ?h1 = "h(tail \<mapsto> x)" and ?k = "unat n - unat (count + 1)"
    have x: "x \<noteq> nullptr" "x \<in> dom h" "x \<notin> set xs'" "x \<notin> set (ys @ [tail])"
      using fl_holds_dom [OF "1.prems"(1)] fl_holds_distinct [OF "1.prems"(1)] "1.prems"(4) xs by auto
    have h1: "set_next h tail x = Some ?h1" using seg_last [OF "1.prems"(2)] by auto
    have k: "unat n - unat count = Suc ?k"
      using True unat_plus1_64 [of count n] by (auto simp: word_less_nat_alt)
    have "fl_holds a1 ?h1 xs'" using a1(2) "1.prems"(4) xs by (simp add: fl_holds_def)
    moreover have "distinct ((ys @ [tail]) @ [x])" "set ((ys @ [tail]) @ [x]) \<inter> set xs' = {}"
      using "1.prems"(3,4) x xs by auto
    ultimately obtain a' h' tail' zs r where
      r: "pop_bulk_loop a1 ?h1 x (count + 1) n = Some (a', h', tail')" "fl_holds a' h' (drop ?k xs')"
        "(ys @ [tail]) @ x # take ?k xs' = zs @ [tail']" "seg h' p (zs @ [tail']) r"
        "bulk_lock a' = bulk_lock a1" "dom h' = dom ?h1" "\<forall>y. y \<notin> set (zs @ [tail']) \<longrightarrow> h' y = ?h1 y"
      using "1.IH" [OF conjunct1 [OF True] a1(1) refl x(1) h1] seg_link [OF "1.prems"(2,3) x(2,1,4)] by blast
    have "pop_bulk_loop a h tail count n = Some (a', h', tail')"
      using True a1(1) x(1) h1 r(1) by (subst pop_bulk_loop.simps) simp
    moreover have "tail \<in> set (zs @ [tail'])" using r(3) by (metis in_set_conv_decomp append_Cons append_assoc)
    moreover have "tail \<in> dom h" using seg_last [OF "1.prems"(2)] by auto
    ultimately show ?thesis
      using r a1(3) unfolding xs k by (intro exI [of _ a'] exI [of _ h'] exI [of _ tail'] exI [of _ zs] exI [of _ r]) auto
  qed
qed

lemma take_max1: "1 \<le> length (x # xs) \<Longrightarrow> take (max 1 m) (x # xs) = x # take (m - 1) xs"
  by (cases m) (auto simp: max_def)

lemma drop_max1: "drop (max 1 m) (x # xs) = drop (m - 1) xs"
  by (cases m) (auto simp: max_def)

lemma pop_bulk_holds:
  assumes "fl_holds a h xs" "\<not> bulk_lock a"
  shows "\<exists>start a' h'. pop_bulk a h n = Some (start, a', h') \<and> \<not> bulk_lock a'
     \<and> chain h' start (take (max 1 (unat n)) xs) \<and> fl_holds a' h' (drop (max 1 (unat n)) xs)
     \<and> dom h' = dom h \<and> (\<forall>x. x \<notin> set (take (max 1 (unat n)) xs) \<longrightarrow> h' x = h x)"
proof (cases xs)
  case Nil
  with assms have "pop_bulk a h n = Some (nullptr, a, h)"
    by (simp add: pop_bulk_def pop_holds_Nil [where a = "a\<lparr>bulk_lock := True\<rparr>"])
  with Nil assms show ?thesis by auto
next
  case (Cons x xs')
  let ?m = "take (unat n - unat (1::u64)) xs'"
  from assms(1) Cons have "fl_holds (a\<lparr>bulk_lock := True\<rparr>) h (x # xs')" by simp
  then obtain a1 where a1: "pop (a\<lparr>bulk_lock := True\<rparr>) h = Some (x, a1)" "fl_holds a1 h xs'"
    by (rule pop_holds_Cons)
  have x: "x \<noteq> nullptr" "x \<in> dom h" "x \<notin> set xs'"
    using fl_holds_dom [OF assms(1)] fl_holds_distinct [OF assms(1)] Cons by auto
  then have "seg h x ([] @ [x]) (the (h x))" by auto
  from pop_bulk_loop_holds [OF a1(2) this, of 1 n] x obtain a2 h2 t zs r where
    r: "pop_bulk_loop a1 h x 1 n = Some (a2, h2, t)" "fl_holds a2 h2 (drop (unat n - unat (1::u64)) xs')"
      "x # ?m = zs @ [t]" "seg h2 x (zs @ [t]) r" "dom h2 = dom h" "\<forall>y. y \<notin> set (zs @ [t]) \<longrightarrow> h2 y = h y"
    by auto
  let ?h3 = "h2(t \<mapsto> nullptr)"
  have d: "distinct (zs @ [t])" "set (zs @ [t]) \<inter> set (drop (unat n - unat (1::u64)) xs') = {}"
    using fl_holds_distinct [OF a1(2)] x(3) r(3) [symmetric]
    by (auto simp: set_take_disj_set_drop_if_distinct dest: in_set_takeD in_set_dropD)
  have "set_next h2 t nullptr = Some ?h3" using seg_last [OF r(4)] by auto
  then have "pop_bulk a h n = Some (x, a2\<lparr>bulk_lock := False\<rparr>, ?h3)"
    using assms(2) a1(1) x(1) r(1) by (simp add: pop_bulk_def)
  moreover have "chain ?h3 x (zs @ [t])" by (rule seg_snoc_upd [OF r(4) d(1)])
  moreover have "fl_holds (a2\<lparr>bulk_lock := False\<rparr>) ?h3 (drop (unat n - unat (1::u64)) xs')"
    using r(2) d(2) by (simp add: fl_holds_def)
  moreover have "dom ?h3 = dom h" using seg_last [OF r(4)] r(5) by auto
  moreover have "take (max 1 (unat n)) xs = zs @ [t]" "drop (max 1 (unat n)) xs = drop (unat n - unat (1::u64)) xs'"
    using r(3) Cons take_max1 [of x xs' "unat n"] drop_max1 [of "unat n" x xs'] by auto
  ultimately show ?thesis using r(6) by simp
qed

section \<open>The freelist is a complete pool of blocks\<close>

definition fl_alloc :: "FreelistAllocator \<times> heap \<Rightarrow> (addr \<times> FreelistAllocator \<times> heap) option" where
  "fl_alloc s = do { (p, a) \<leftarrow> pop (fst s) (snd s); Some (p, a, snd s) }"

definition fl_dealloc :: "FreelistAllocator \<times> heap \<Rightarrow> addr \<Rightarrow> (FreelistAllocator \<times> heap) option" where
  "fl_dealloc s p = push (fst s) (snd s) p"

definition fl_blocks :: "FreelistAllocator \<times> heap \<Rightarrow> addr set" where
  "fl_blocks s = dom (snd s)"

lemma fl_invar_holds:
  assumes "fl_invar s"
  obtains a h xs where "s = (a, h)" "fl_holds a h xs" "fl_free s = set xs" "\<not> bulk_lock a" "nullptr \<notin> dom h"
  using assms by (cases s) (auto simp: fl_invar_def fl_holds_free)

lemma fl_invarI: "fl_holds a h xs \<Longrightarrow> \<not> bulk_lock a \<Longrightarrow> nullptr \<notin> dom h \<Longrightarrow> fl_invar (a, h) \<and> fl_free (a, h) = set xs"
  by (auto simp: fl_invar_def fl_holds_free)

lemma fl_alloc_cases:
  assumes "fl_invar s"
  shows "(fl_free s = {} \<and> fl_alloc s = Some (nullptr, s))
    \<or> (\<exists>p s'. fl_alloc s = Some (p, s') \<and> p \<noteq> nullptr \<and> p \<in> fl_free s \<and> fl_invar s'
          \<and> snd s' = snd s \<and> fl_free s' = fl_free s - {p})"
  using assms
proof (rule fl_invar_holds)
  fix a h xs
  assume s: "s = (a, h)" "fl_holds a h xs" "fl_free s = set xs" "\<not> bulk_lock a" "nullptr \<notin> dom h"
  show ?thesis
  proof (cases xs)
    case Nil
    with s show ?thesis by (simp add: fl_alloc_def pop_holds_Nil)
  next
    case (Cons x ys)
    with s(2) obtain a' where a': "pop a h = Some (x, a')" "fl_holds a' h ys" "bulk_lock a' = bulk_lock a"
      using pop_holds_Cons by blast
    have "x \<noteq> nullptr" "x \<notin> set ys"
      using fl_holds_dom [OF s(2)] fl_holds_distinct [OF s(2)] Cons by auto
    with a' s Cons show ?thesis
      using fl_invarI [OF a'(2)] by (auto simp: fl_alloc_def)
  qed
qed

lemma fl_dealloc_used:
  assumes "fl_invar s" "p \<in> fl_blocks s - fl_free s"
  shows "\<exists>s'. fl_dealloc s p = Some s' \<and> fl_invar s' \<and> fl_blocks s' = fl_blocks s \<and> fl_free s' = insert p (fl_free s)"
  using assms(1)
proof (rule fl_invar_holds)
  fix a h xs
  assume s: "s = (a, h)" "fl_holds a h xs" "fl_free s = set xs" "\<not> bulk_lock a" "nullptr \<notin> dom h"
  with assms(2) have p: "p \<in> dom h" "p \<noteq> nullptr" "p \<notin> set xs" by (auto simp: fl_blocks_def)
  let ?h = "h(p \<mapsto> ptr (head a))"
  obtain a' where "push a h p = Some (a', ?h)" "fl_holds a' ?h (p # xs)" "bulk_lock a' = bulk_lock a"
    using push_holds [OF s(2) p] by blast
  moreover have "nullptr \<notin> dom ?h" using s(5) p by simp
  ultimately have "fl_dealloc s p = Some (a', ?h)" "fl_invar (a', ?h)" "fl_free (a', ?h) = insert p (set xs)"
    using s fl_invarI [of a' ?h "p # xs"] by (simp_all add: fl_dealloc_def)
  moreover have "dom ?h = dom h" using p by auto
  ultimately show ?thesis unfolding s(3) using s(1) by (auto simp: fl_blocks_def)
qed

interpretation fl: complete_pool fl_alloc fl_dealloc fl_invar fl_blocks fl_free
proof unfold_locales
  fix s assume "fl_invar s"
  then show "fl_free s \<subseteq> fl_blocks s" "nullptr \<notin> fl_blocks s"
    by (auto elim!: fl_invar_holds simp: fl_blocks_def dest!: subsetD [OF fl_holds_dom])
  show "\<exists>p s'. fl_alloc s = Some (p, s')" using fl_alloc_cases [OF \<open>fl_invar s\<close>] by auto
next
  fix s p s' assume "fl_invar s" "fl_alloc s = Some (p, s')"
  then show "fl_invar s'" "fl_blocks s' = fl_blocks s"
    "p \<noteq> nullptr \<Longrightarrow> p \<in> fl_free s \<and> fl_free s' = fl_free s - {p}"
    using fl_alloc_cases [of s] by (auto simp: fl_blocks_def)
next
  fix s s' assume "fl_invar s" "fl_alloc s = Some (nullptr, s')"
  then show "fl_free s' = fl_free s" using fl_alloc_cases [of s] by auto
next
  fix s p assume "fl_invar s" "p \<in> fl_blocks s - fl_free s"
  then show "\<exists>s'. fl_dealloc s p = Some s' \<and> fl_invar s' \<and> fl_blocks s' = fl_blocks s \<and> fl_free s' = insert p (fl_free s)"
    by (rule fl_dealloc_used)
next
  fix s assume "fl_invar s" "fl_free s \<noteq> {}"
  then show "\<exists>p s'. fl_alloc s = Some (p, s') \<and> p \<noteq> nullptr" using fl_alloc_cases [of s] by auto
qed

section \<open>Properties\<close>

text \<open>C18. The retry loops of \<^verbatim>\<open>push\<close> and \<^verbatim>\<open>pop\<close> without interference: however many
  times \<^verbatim>\<open>compare_exchange_weak\<close> fails spuriously before it succeeds, the loop returns,
  with the outcome of a single successful pass: the block (for push) linked in front of the old
  top, or the old top (for pop) unlinked, and the tag advanced by one.\<close>

theorem freelist_loops_return:
  "push_loop (replicate k True @ False # sps) a h p =
     (if p = nullptr \<or> p \<notin> dom h then None
      else Some (a\<lparr>head := \<lparr>ptr = p, tag = tag (head a) + 1\<rparr>\<rparr>, h(p \<mapsto> ptr (head a))))
   \<and> pop_loop (replicate k True @ False # sps) a h =
     (if ptr (head a) = nullptr then Some (nullptr, a)
      else map_option (\<lambda>n. (ptr (head a), a\<lparr>head := \<lparr>ptr = n, tag = tag (head a) + 1\<rparr>\<rparr>)) (h (ptr (head a))))"
  unfolding push_loop_spurious pop_loop_spurious push_unfold pop_unfold
  by (auto simp: set_next_def get_next_def map_option_case split: option.splits)

text \<open>The freelist is a stack: on an allocator that holds the blocks \<open>xs\<close>, pushing a
  block that is not on it and popping returns that block and leaves an allocator that again
  holds exactly \<open>xs\<close>, with the tag advanced twice.\<close>

theorem push_pop_roundtrip:
  assumes "fl_holds a h xs" "p \<in> dom h" "p \<noteq> nullptr" "p \<notin> set xs"
  shows "\<exists>a1 h1 a2. push a h p = Some (a1, h1) \<and> fl_holds a1 h1 (p # xs) \<and> pop a1 h1 = Some (p, a2)
           \<and> fl_holds a2 h1 xs \<and> tag (head a2) = tag (head a) + 2"
proof -
  obtain a1 where a1: "push a h p = Some (a1, h(p \<mapsto> ptr (head a)))"
    "fl_holds a1 (h(p \<mapsto> ptr (head a))) (p # xs)" "tag (head a1) = tag (head a) + 1"
    using push_holds [OF assms] by blast
  then obtain a2 where "pop a1 (h(p \<mapsto> ptr (head a))) = Some (p, a2)"
    "fl_holds a2 (h(p \<mapsto> ptr (head a))) xs" "tag (head a2) = tag (head a1) + 1"
    using pop_holds_Cons by blast
  with a1 show ?thesis by (auto simp: add.assoc)
qed

definition demo_heap :: heap where
  "demo_heap = [64 \<mapsto> 128, 128 \<mapsto> 192, 192 \<mapsto> 0, 256 \<mapsto> 7]"

definition demo_fl :: FreelistAllocator where
  "demo_fl = \<lparr>head = \<lparr>ptr = 64, tag = 3\<rparr>, bulk_lock = False\<rparr>"

lemma demo_holds: "fl_holds demo_fl demo_heap [64, 128, 192]"
  by (simp add: fl_holds_def demo_fl_def demo_heap_def)

theorem freelist_loops_return_witness:
  "push_loop [True, True, False] demo_fl demo_heap 256 =
     Some (demo_fl\<lparr>head := \<lparr>ptr = 256, tag = 4\<rparr>\<rparr>, demo_heap(256 \<mapsto> 64))
   \<and> pop_loop [True, True, False] demo_fl demo_heap = Some (64, demo_fl\<lparr>head := \<lparr>ptr = 128, tag = 4\<rparr>\<rparr>)"
  using freelist_loops_return [of "Suc (Suc 0)" "[]" demo_fl demo_heap 256]
  by (simp add: demo_fl_def demo_heap_def)

theorem push_pop_roundtrip_witness:
  "\<exists>a1 h1 a2. push demo_fl demo_heap 256 = Some (a1, h1) \<and> fl_holds a1 h1 [256, 64, 128, 192]
     \<and> pop a1 h1 = Some (256, a2) \<and> fl_holds a2 h1 [64, 128, 192] \<and> tag (head a2) = tag (head demo_fl) + 2"
  by (rule push_pop_roundtrip [OF demo_holds]) (simp_all add: demo_heap_def)

text \<open>C17. The freelist as an allocator: from a well-formed freelist \<^verbatim>\<open>pop\<close> always returns,
  gives null exactly when no block is free, and otherwise a block that was free and is not any
  more; \<^verbatim>\<open>push\<close> of a block in use makes it free again. No other block changes its state.\<close>

theorem freelist_complete_pool:
  assumes "fl_invar s"
  shows "(\<exists>p s'. fl_alloc s = Some (p, s') \<and> fl_invar s' \<and> (p = nullptr \<longleftrightarrow> fl_free s = {})
            \<and> fl_free s' = fl_free s - {p} \<and> (p \<noteq> nullptr \<longrightarrow> p \<in> fl_free s))
       \<and> (\<forall>p \<in> fl_blocks s - fl_free s.
            \<exists>s'. fl_dealloc s p = Some s' \<and> fl_invar s' \<and> fl_free s' = insert p (fl_free s))"
proof -
  obtain p s' where p: "fl_alloc s = Some (p, s')" using fl.alloc_returns [OF assms] by blast
  have "fl_free s' = fl_free s - {p}"
    using fl.null_iff_exhausted [OF assms p] fl.alloc_some [OF assms p] fl.alloc_null [OF assms, of s'] p
    by (cases "p = nullptr") auto
  moreover have "p \<noteq> nullptr \<longrightarrow> p \<in> fl_free s" using fl.alloc_some [OF assms p] by blast
  ultimately have "\<exists>p s'. fl_alloc s = Some (p, s') \<and> fl_invar s' \<and> (p = nullptr \<longleftrightarrow> fl_free s = {})
            \<and> fl_free s' = fl_free s - {p} \<and> (p \<noteq> nullptr \<longrightarrow> p \<in> fl_free s)"
    using p fl.alloc_invar [OF assms p] fl.null_iff_exhausted [OF assms p] by auto
  moreover have "\<forall>p \<in> fl_blocks s - fl_free s.
            \<exists>s'. fl_dealloc s p = Some s' \<and> fl_invar s' \<and> fl_free s' = insert p (fl_free s)"
    using fl.dealloc_used [OF assms] by blast
  ultimately show ?thesis ..
qed

lemma demo_invar: "fl_invar (demo_fl, demo_heap)" "fl_free (demo_fl, demo_heap) = {64, 128, 192}"
  using fl_invarI [OF demo_holds] by (auto simp: demo_fl_def demo_heap_def)

theorem freelist_complete_pool_witness:
  "(\<exists>p s'. fl_alloc (demo_fl, demo_heap) = Some (p, s') \<and> p \<in> {64, 128, 192} \<and> fl_free s' = {64, 128, 192} - {p})
   \<and> (\<exists>s'. fl_dealloc (demo_fl, demo_heap) 256 = Some s' \<and> fl_free s' = {256, 64, 128, 192})"
proof -
  note pool = freelist_complete_pool [OF demo_invar(1), unfolded demo_invar(2)]
  have "256 \<in> fl_blocks (demo_fl, demo_heap) - {64, 128, 192}"
    by (simp add: fl_blocks_def demo_heap_def)
  then have "\<exists>s'. fl_dealloc (demo_fl, demo_heap) 256 = Some s' \<and> fl_free s' = {256, 64, 128, 192}"
    using pool by blast
  with pool show ?thesis by auto
qed

end
