(* ===== verification/Freelist_Bytes.thy ===== *)
theory Freelist_Bytes
  imports Freelist
begin

text \<open>
  The freelist on a memory of bytes. \<open>Freelist\<close> gives every block a cell of its own for
  \<^verbatim>\<open>FreeBlock::next\<close>; the code stores eight bytes at the block's address
  (include/freelist\_allocator.hpp, \<^verbatim>\<open>FreeBlock\<close>), and nothing in
  \<^verbatim>\<open>FreelistAllocator\<close> knows how far blocks are apart. This theory restates \<^verbatim>\<open>push\<close>,
  \<^verbatim>\<open>pop\<close>, \<^verbatim>\<open>push_bulk\<close> and \<^verbatim>\<open>pop_bulk\<close> over bytes, proves that they simulate the cell
  model when the blocks are at least eight bytes apart, and shows what happens when they are not: the
  README (Notes) says that the bulk transfer needs correctness work for tiny allocation sizes.
  A read or write of the null pointer faults (\<open>None\<close>); every other address is mapped.
\<close>

section \<open>Byte memory\<close>

type_synonym bytes = "addr \<Rightarrow> 8 word"

text \<open>A 64-bit little-endian load and store.\<close>

definition load64 :: "bytes \<Rightarrow> addr \<Rightarrow> u64" where
  "load64 m p = horner_sum of_bool 2 (map (\<lambda>n. bit (m (p + of_nat (n div 8))) (n mod 8)) [0..<64])"

definition store64 :: "bytes \<Rightarrow> addr \<Rightarrow> u64 \<Rightarrow> bytes" where
  "store64 m p v = (\<lambda>q. if unat (q - p) < 8 then ucast (drop_bit (8 * unat (q - p)) v) else m q)"

definition read_next :: "bytes \<Rightarrow> addr \<Rightarrow> addr option" where
  "read_next m p = (if p = nullptr then None else Some (load64 m p))"

definition write_next :: "bytes \<Rightarrow> addr \<Rightarrow> addr \<Rightarrow> bytes option" where
  "write_next m p v = (if p = nullptr then None else Some (store64 m p v))"

section \<open>Operations\<close>

fun push_loop_b :: "bool list \<Rightarrow> FreelistAllocator \<Rightarrow> bytes \<Rightarrow> addr \<Rightarrow> (FreelistAllocator \<times> bytes) option" where
  "push_loop_b [] a m node = None"
| "push_loop_b (sp # sps) a m node =
     (let old_head = head a in
      do { m' \<leftarrow> write_next m node (ptr old_head);
           let (ok, _, new_head) = cas_weak sp (head a) old_head \<lparr>ptr = node, tag = tag old_head + 1\<rparr>;
           if ok then Some (a\<lparr>head := new_head\<rparr>, m') else push_loop_b sps a m' node })"

fun pop_loop_b :: "bool list \<Rightarrow> FreelistAllocator \<Rightarrow> bytes \<Rightarrow> (addr \<times> FreelistAllocator) option" where
  "pop_loop_b [] a m = None"
| "pop_loop_b (sp # sps) a m =
     (let old_head = head a in
      if ptr old_head = nullptr then Some (nullptr, a)
      else do { nxt \<leftarrow> read_next m (ptr old_head);
           let (ok, _, new_head) = cas_weak sp (head a) old_head \<lparr>ptr = nxt, tag = tag old_head + 1\<rparr>;
           if ok then Some (ptr old_head, a\<lparr>head := new_head\<rparr>) else pop_loop_b sps a m })"

partial_function (option) push_bulk_loop_b ::
  "FreelistAllocator \<Rightarrow> bytes \<Rightarrow> addr \<Rightarrow> (FreelistAllocator \<times> bytes) option" where
  "push_bulk_loop_b a m node =
     (if node = nullptr then Some (a, m)
      else do { nxt \<leftarrow> read_next m node;
                (a', m') \<leftarrow> push_loop_b [False] a m node;
                push_bulk_loop_b a' m' nxt })"

definition push_bulk_b ::
  "FreelistAllocator \<Rightarrow> bytes \<Rightarrow> addr \<Rightarrow> addr \<Rightarrow> (FreelistAllocator \<times> bytes) option" where
  "push_bulk_b a m batch_head batch_tail =
     (if bulk_lock a then None
      else do { m' \<leftarrow> write_next m batch_tail nullptr;
                (a', m'') \<leftarrow> push_bulk_loop_b (a\<lparr>bulk_lock := True\<rparr>) m' batch_head;
                Some (a'\<lparr>bulk_lock := False\<rparr>, m'') })"

function pop_bulk_loop_b ::
  "FreelistAllocator \<Rightarrow> bytes \<Rightarrow> addr \<Rightarrow> u64 \<Rightarrow> u64 \<Rightarrow> (FreelistAllocator \<times> bytes \<times> addr) option" where
  "pop_bulk_loop_b a m tail count n =
     (if count < n
      then do { (nxt, a') \<leftarrow> pop_loop_b [False] a m;
                if nxt = nullptr then Some (a', m, tail)
                else do { m' \<leftarrow> write_next m tail nxt;
                          pop_bulk_loop_b a' m' nxt (count + 1) n } }
      else Some (a, m, tail))"
  by pat_completeness auto
termination
  by (relation "measure (\<lambda>(a, m, tail, count, n). unat n - unat count)")
    (auto intro: unat_inc_less)

declare pop_bulk_loop_b.simps [simp del]

definition pop_bulk_b :: "FreelistAllocator \<Rightarrow> bytes \<Rightarrow> u64 \<Rightarrow> (addr \<times> FreelistAllocator \<times> bytes) option" where
  "pop_bulk_b a m n =
     (if bulk_lock a then None
      else do { (start, a1) \<leftarrow> pop_loop_b [False] (a\<lparr>bulk_lock := True\<rparr>) m;
                if start = nullptr then Some (nullptr, a1\<lparr>bulk_lock := False\<rparr>, m)
                else do { (a2, m2, tail) \<leftarrow> pop_bulk_loop_b a1 m start 1 n;
                          m3 \<leftarrow> write_next m2 tail nullptr;
                          Some (start, a2\<lparr>bulk_lock := False\<rparr>, m3) } })"

section \<open>Loads and stores\<close>

lemma bit_load64: "bit (load64 m p) n = (n < 64 \<and> bit (m (p + of_nat (n div 8))) (n mod 8))"
  by (auto simp: load64_def bit_horner_sum_bit_word_iff simp del: upt_rec_numeral)

lemma unat_small: "i < 8 \<Longrightarrow> unat (of_nat i :: u64) = i"
  by (simp add: unat_of_nat_64)

lemma store64_byte: "i < 8 \<Longrightarrow> store64 m p v (p + of_nat i) = ucast (drop_bit (8 * i) v)"
  by (simp add: store64_def unat_small)

lemma load_store_same [simp]: "load64 (store64 m p v) p = v"
proof (rule bit_word_eqI)
  fix n assume "n < LENGTH(64)"
  then have "n div 8 < 8" "8 * (n div 8) + n mod 8 = n" by auto
  with \<open>n < LENGTH(64)\<close> show "bit (load64 (store64 m p v) p) n = bit v n"
    by (simp add: bit_load64 store64_byte bit_simps)
qed

text \<open>Two eight-byte ranges do not overlap when each begins at least eight bytes after the other
  (addresses are taken modulo \<open>2 ^ 64\<close>).\<close>

lemma apart_bytes:
  fixes p q :: addr
  assumes "8 \<le> unat (q - p)" "8 \<le> unat (p - q)" "i < 8"
  shows "8 \<le> unat (q + of_nat i - p)"
proof -
  have "(unat (q - p) + unat (p - q)) mod 2 ^ 64 = unat ((q - p) + (p - q))" using unat_word_ariths(1) [of "q - p" "p - q"] by simp
  then have "2 ^ 64 dvd unat (q - p) + unat (p - q)" by (simp add: mod_eq_0_iff_dvd)
  then obtain k where k: "unat (q - p) + unat (p - q) = 2 ^ 64 * k" by (auto elim: dvdE)
  moreover have "unat (q - p) < 2 ^ 64" "unat (p - q) < 2 ^ 64" by (rule unat_lt_2p64)+
  ultimately have "k < 2" by simp
  then have "unat (q - p) + i < 2 ^ 64" using k assms by (cases "k = 0"; cases "k = 1") auto
  then have "unat (q - p + of_nat i) = unat (q - p) + i" using assms(3) by (simp add: unat_plus_64 unat_small)
  with assms(1) show ?thesis by (simp add: algebra_simps)
qed

lemma load_store_apart:
  assumes "8 \<le> unat (q - p)" "8 \<le> unat (p - q)"
  shows "load64 (store64 m p v) q = load64 m q"
proof -
  have "store64 m p v (q + of_nat i) = m (q + of_nat i)" if "i < 8" for i
    using apart_bytes [OF assms that] by (simp add: store64_def)
  then show ?thesis by (intro bit_word_eqI) (simp add: bit_load64)
qed

text \<open>Equal loads have equal bytes.\<close>

lemma load64_bytes:
  assumes "load64 m' x = load64 m x" "unat (q - x) < 8"
  shows "m' q = m q"
proof (rule bit_word_eqI)
  fix k assume k: "k < LENGTH(8)"
  let ?i = "unat (q - x)"
  have "x + of_nat ?i = q" by simp
  moreover have "bit (load64 m' x) (8 * ?i + k) = bit (load64 m x) (8 * ?i + k)" using assms(1) by simp
  ultimately show "bit (m' q) k = bit (m q) k" using assms(2) k by (simp add: bit_load64)
qed

section \<open>The cells of a set of blocks\<close>

definition cells_of :: "addr set \<Rightarrow> bytes \<Rightarrow> heap" where
  "cells_of D m = (\<lambda>p. if p \<in> D then Some (load64 m p) else None)"

definition spaced :: "addr set \<Rightarrow> bool" where
  "spaced D = (\<forall>p \<in> D. \<forall>q \<in> D. p \<noteq> q \<longrightarrow> 8 \<le> unat (q - p))"

text \<open>\<open>m'\<close> differs from \<open>m\<close> only in the first eight bytes of the given blocks.\<close>

definition writes_only :: "addr set \<Rightarrow> bytes \<Rightarrow> bytes \<Rightarrow> bool" where
  "writes_only B m m' = (\<forall>q. (\<forall>x \<in> B. 8 \<le> unat (q - x)) \<longrightarrow> m' q = m q)"

lemma writes_only_refl [simp]: "writes_only B m m"
  by (simp add: writes_only_def)

lemma writes_only_trans: "writes_only B m m1 \<Longrightarrow> writes_only B m1 m2 \<Longrightarrow> writes_only B m m2"
  by (simp add: writes_only_def)

lemma writes_only_store: "p \<in> B \<Longrightarrow> writes_only B m (store64 m p v)"
  by (auto simp: writes_only_def store64_def dest!: bspec)

lemma dom_cells_of [simp]: "dom (cells_of D m) = D"
  by (auto simp: cells_of_def split: if_splits)

lemma cells_of_store:
  assumes "spaced D" "p \<in> D"
  shows "cells_of D (store64 m p v) = (cells_of D m)(p \<mapsto> v)"
proof
  fix q
  show "cells_of D (store64 m p v) q = ((cells_of D m)(p \<mapsto> v)) q"
    using assms load_store_apart [of q p m v] by (cases "q = p") (auto simp: cells_of_def spaced_def)
qed

text \<open>The blocks of a pool are spaced when the block size is at least that of a pointer.\<close>

lemma spaced_pool:
  assumes "array_fits base sz n" "8 \<le> unat sz"
  shows "spaced (block_at base sz ` {..<n})"
  unfolding spaced_def
proof (intro ballI impI)
  fix p q assume "p \<in> block_at base sz ` {..<n}" "q \<in> block_at base sz ` {..<n}" "p \<noteq> q"
  then obtain i j where ij: "p = block_at base sz i" "i < n" "q = block_at base sz j" "j < n" "i \<noteq> j" by auto
  have u: "unat p = unat base + i * unat sz" "unat q = unat base + j * unat sz"
    using ij unat_block_at [OF assms(1)] by simp_all
  show "8 \<le> unat (q - p)"
  proof (cases "i < j")
    case True
    then have "Suc i * unat sz \<le> j * unat sz" by (intro mult_le_mono1) simp
    then have "unat p + 8 \<le> unat q" using u assms(2) unfolding mult_Suc by linarith
    then show ?thesis by (simp add: unat_sub word_le_nat_alt)
  next
    case False
    then have "Suc j * unat sz \<le> i * unat sz" using ij(5) by (intro mult_le_mono1) simp
    then have "unat q + unat sz \<le> unat p" using u unfolding mult_Suc by linarith
    moreover have "Suc i * unat sz \<le> n * unat sz" using ij(2) by (intro mult_le_mono1) simp
    then have "unat p + unat sz < 2 ^ 64" using u(1) assms(1) unfolding array_fits_def mult_Suc by linarith
    ultimately show ?thesis using assms(2) unat_sub_if_size [of q p] by (simp add: word_size)
  qed
qed

section \<open>Simulation of the cell model\<close>

text \<open>A byte-level result \<open>m'\<close> that goes with the cells \<open>h'\<close>.\<close>

definition agrees :: "addr set \<Rightarrow> bytes \<Rightarrow> heap \<Rightarrow> bytes \<Rightarrow> bool" where
  "agrees D m h' m' = (h' = cells_of D m' \<and> writes_only D m m')"

lemma agrees_refl [simp]: "agrees D m (cells_of D m) m"
  by (simp add: agrees_def)

lemma agrees_trans: "agrees D m h1 m1 \<Longrightarrow> agrees D m1 h2 m2 \<Longrightarrow> agrees D m h2 m2"
  using writes_only_trans by (auto simp: agrees_def)

lemma read_next_cells: "get_next (cells_of D m) p = Some v \<Longrightarrow> read_next m p = Some v"
  by (auto simp: read_next_def cells_of_def split: if_splits)

lemma write_next_cells:
  assumes "spaced D" "set_next (cells_of D m) p v = Some h'"
  obtains m' where "write_next m p v = Some m'" "agrees D m h' m'"
proof (rule that)
  have p: "p \<noteq> nullptr" "p \<in> D" "h' = (cells_of D m)(p \<mapsto> v)"
    using assms(2) by (auto simp: cells_of_def split: if_splits)
  then show "write_next m p v = Some (store64 m p v)" by (simp add: write_next_def)
  show "agrees D m h' (store64 m p v)"
    using p assms(1) by (simp add: agrees_def cells_of_store writes_only_store)
qed

lemma push_loop_cells:
  assumes "spaced D" "push_loop sps a (cells_of D m) p = Some (a', h')"
  shows "\<exists>m'. push_loop_b sps a m p = Some (a', m') \<and> agrees D m h' m'"
  using assms(2)
proof (induction sps arbitrary: m)
  case (Cons sp sps)
  obtain h1 where h1: "set_next (cells_of D m) p (ptr (head a)) = Some h1"
    using Cons.prems by (auto simp: Let_def simp del: set_next_Some)
  obtain m1 where m1: "write_next m p (ptr (head a)) = Some m1" "agrees D m h1 m1"
    by (rule write_next_cells [OF assms(1) h1])
  then have "h1 = cells_of D m1" by (simp add: agrees_def)
  with Cons.prems h1 m1 Cons.IH [of m1] show ?case
    by (cases sp) (auto simp: Let_def cas_weak_def intro: agrees_trans simp del: set_next_Some)
qed simp

lemma pop_loop_cells:
  "pop_loop sps a (cells_of D m) = Some r \<Longrightarrow> pop_loop_b sps a m = Some r"
  by (induction sps)
    (auto simp: Let_def cas_weak_def read_next_cells simp del: get_next_Some split: if_splits)

lemma push_bulk_loop_cells:
  assumes "spaced D" "push_bulk_loop a h node = Some r"
  shows "\<forall>m. h = cells_of D m \<longrightarrow> (\<exists>m'. push_bulk_loop_b a m node = Some (fst r, m') \<and> agrees D m (snd r) m')"
proof (rule push_bulk_loop.raw_induct [OF _ assms(2)], intro allI impI)
  fix loop a h node r m
  assume IH: "\<And>a h node r. loop a h node = Some r \<Longrightarrow> \<forall>m. h = cells_of D m \<longrightarrow>
      (\<exists>m'. push_bulk_loop_b a m node = Some (fst r, m') \<and> agrees D m (snd r) m')"
    and body: "(if node = nullptr then Some (a, h)
      else do { nxt \<leftarrow> get_next h node; (a', h') \<leftarrow> push a h node; loop a' h' nxt }) = Some r"
    and h: "h = cells_of D m"
  show "\<exists>m'. push_bulk_loop_b a m node = Some (fst r, m') \<and> agrees D m (snd r) m'"
  proof (cases "node = nullptr")
    case True
    with body h show ?thesis by (auto simp: push_bulk_loop_b.simps)
  next
    case False
    with body obtain nxt a1 h1 where s: "get_next h node = Some nxt" "push a h node = Some (a1, h1)" "loop a1 h1 nxt = Some r"
      by (auto simp: Option.bind_eq_Some_conv simp del: get_next_Some)
    obtain m1 where m1: "push_loop_b [False] a m node = Some (a1, m1)" "agrees D m h1 m1"
      using push_loop_cells [OF assms(1)] s(2) h unfolding push_def by blast
    then obtain m' where m': "push_bulk_loop_b a1 m1 nxt = Some (fst r, m')" "agrees D m1 (snd r) m'"
      using IH [OF s(3)] by (auto simp: agrees_def)
    have "push_bulk_loop_b a m node = Some (fst r, m')"
      using False read_next_cells s(1) h m1(1) m'(1) by (subst push_bulk_loop_b.simps) (simp del: push_loop_b.simps)
    with agrees_trans [OF m1(2) m'(2)] show ?thesis by blast
  qed
qed

lemma push_bulk_cells:
  assumes "spaced D" "push_bulk a (cells_of D m) bh bt = Some (a', h')"
  shows "\<exists>m'. push_bulk_b a m bh bt = Some (a', m') \<and> agrees D m h' m'"
proof -
  obtain h1 a1 where s: "\<not> bulk_lock a" "set_next (cells_of D m) bt nullptr = Some h1"
      "push_bulk_loop (a\<lparr>bulk_lock := True\<rparr>) h1 bh = Some (a1, h')" "a' = a1\<lparr>bulk_lock := False\<rparr>"
    using assms(2) by (auto simp: push_bulk_def Option.bind_eq_Some_conv simp del: set_next_Some split: if_splits)
  obtain m1 where m1: "write_next m bt nullptr = Some m1" "agrees D m h1 m1"
    by (rule write_next_cells [OF assms(1) s(2)])
  then obtain m' where "push_bulk_loop_b (a\<lparr>bulk_lock := True\<rparr>) m1 bh = Some (a1, m')" "agrees D m1 h' m'"
    using push_bulk_loop_cells [OF assms(1) s(3)] by (auto simp: agrees_def)
  with s(1,4) m1 show ?thesis by (auto simp: push_bulk_b_def intro: agrees_trans)
qed

lemma pop_bulk_loop_cells:
  assumes "spaced D" "pop_bulk_loop a (cells_of D m) tail count n = Some (a', h', tail')"
  shows "\<exists>m'. pop_bulk_loop_b a m tail count n = Some (a', m', tail') \<and> agrees D m h' m'"
  using assms(2)
proof (induction a m tail count n rule: pop_bulk_loop_b.induct)
  case (1 a m tail count n)
  show ?case
  proof (cases "count < n")
    case False
    with 1(2) have "a' = a" "h' = cells_of D m" "tail' = tail" by (simp_all add: pop_bulk_loop.simps [of a])
    with False show ?thesis by (simp add: pop_bulk_loop_b.simps [of a])
  next
    case True
    with 1(2) obtain nxt a1 where p: "pop a (cells_of D m) = Some (nxt, a1)"
      by (subst (asm) pop_bulk_loop.simps) (auto simp: Option.bind_eq_Some_conv)
    then have pb: "pop_loop_b [False] a m = Some (nxt, a1)" unfolding pop_def by (rule pop_loop_cells)
    show ?thesis
    proof (cases "nxt = nullptr")
      case null: True
      with 1(2) True p have "a' = a1" "h' = cells_of D m" "tail' = tail" by (simp_all add: pop_bulk_loop.simps [of a])
      with True pb null show ?thesis by (simp add: pop_bulk_loop_b.simps [of a] del: pop_loop_b.simps)
    next
      case nn: False
      with 1(2) True p obtain h1 where h1: "set_next (cells_of D m) tail nxt = Some h1"
          "pop_bulk_loop a1 h1 nxt (count + 1) n = Some (a', h', tail')"
        by (subst (asm) pop_bulk_loop.simps) (auto simp: Option.bind_eq_Some_conv simp del: set_next_Some)
      obtain m1 where m1: "write_next m tail nxt = Some m1" "agrees D m h1 m1"
        by (rule write_next_cells [OF assms(1) h1(1)])
      have "pop_bulk_loop a1 (cells_of D m1) nxt (count + 1) n = Some (a', h', tail')"
        using h1(2) m1(2) by (simp add: agrees_def)
      from 1(1) [OF True pb refl nn m1(1) this] obtain m' where
        "pop_bulk_loop_b a1 m1 nxt (count + 1) n = Some (a', m', tail')" "agrees D m1 h' m'" by blast
      with True pb nn m1 show ?thesis
        by (subst pop_bulk_loop_b.simps) (auto intro: agrees_trans simp del: pop_loop_b.simps)
    qed
  qed
qed

lemma pop_bulk_cells:
  assumes "spaced D" "pop_bulk a (cells_of D m) n = Some (start, a', h')"
  shows "\<exists>m'. pop_bulk_b a m n = Some (start, a', m') \<and> agrees D m h' m'"
proof -
  have l: "\<not> bulk_lock a" using assms(2) by (auto simp: pop_bulk_def split: if_splits)
  then obtain s1 a1 where p: "pop (a\<lparr>bulk_lock := True\<rparr>) (cells_of D m) = Some (s1, a1)"
    using assms(2) by (auto simp: pop_bulk_def Option.bind_eq_Some_conv)
  then have pb: "pop_loop_b [False] (a\<lparr>bulk_lock := True\<rparr>) m = Some (s1, a1)" unfolding pop_def by (rule pop_loop_cells)
  show ?thesis
  proof (cases "s1 = nullptr")
    case True
    with assms(2) l p have "start = nullptr" "a' = a1\<lparr>bulk_lock := False\<rparr>" "h' = cells_of D m"
      by (simp_all add: pop_bulk_def)
    with l pb True show ?thesis by (simp add: pop_bulk_b_def del: pop_loop_b.simps)
  next
    case False
    with assms(2) l p obtain a2 h2 tail where s: "pop_bulk_loop a1 (cells_of D m) s1 1 n = Some (a2, h2, tail)"
        "set_next h2 tail nullptr = Some h'" "start = s1" "a' = a2\<lparr>bulk_lock := False\<rparr>"
      by (auto simp: pop_bulk_def Option.bind_eq_Some_conv simp del: set_next_Some)
    obtain m2 where m2: "pop_bulk_loop_b a1 m s1 1 n = Some (a2, m2, tail)" "agrees D m h2 m2"
      using pop_bulk_loop_cells [OF assms(1) s(1)] by blast
    then have "set_next (cells_of D m2) tail nullptr = Some h'" using s(2) by (simp add: agrees_def)
    then obtain m3 where m3: "write_next m2 tail nullptr = Some m3" "agrees D m2 h' m3"
      by (rule write_next_cells [OF assms(1)])
    with l pb False m2 s(3,4) show ?thesis
      by (auto simp: pop_bulk_b_def intro: agrees_trans simp del: pop_loop_b.simps)
  qed
qed

lemma writes_only_batch:
  assumes "agrees D m h' m'" "\<And>x. x \<notin> B \<Longrightarrow> h' x = cells_of D m x"
  shows "writes_only B m m'"
  unfolding writes_only_def
proof (intro allI impI)
  fix q assume q: "\<forall>x \<in> B. 8 \<le> unat (q - x)"
  show "m' q = m q"
  proof (cases "\<forall>x \<in> D. 8 \<le> unat (q - x)")
    case True
    with assms(1) show ?thesis by (simp add: agrees_def writes_only_def)
  next
    case False
    then obtain x where x: "x \<in> D" "unat (q - x) < 8" by auto
    with q have "h' x = cells_of D m x" by (intro assms(2)) auto
    with assms(1) x(1) have "load64 m' x = load64 m x" by (simp add: agrees_def cells_of_def)
    then show ?thesis using x(2) by (rule load64_bytes)
  qed
qed

section \<open>Blocks of four bytes\<close>

lemma byte_apart:
  assumes "i < 4"
  shows "\<not> unat (of_nat i - 4 :: u64) < 8"
proof -
  have "i = 0 \<or> i = 1 \<or> i = 2 \<or> i = 3" using assms by linarith
  then show ?thesis by (elim disjE) (simp_all add: unsigned_minus_1_eq_mask mask_eq_exp_minus_1)
qed

lemma load_store_after: "load64 (store64 m (p + 4) v) p = take_bit 32 (load64 m p) OR push_bit 32 v"
proof (rule bit_word_eqI)
  fix n assume n: "n < LENGTH(64)"
  have lo: "store64 m (p + 4) v (p + of_nat i) = m (p + of_nat i)" if "i < 4" for i
    using byte_apart [OF that] by (simp add: store64_def)
  have hi: "store64 m (p + 4) v (p + of_nat i) = ucast (drop_bit (8 * (i - 4)) v)" if "4 \<le> i" "i < 8" for i
    using store64_byte [of "i - 4" m "p + 4" v] that by (simp add: add.assoc)
  show "bit (load64 (store64 m (p + 4) v) p) n = bit (take_bit 32 (load64 m p) OR push_bit 32 v) n"
  proof (cases "n < 32")
    case True
    then show ?thesis using lo [of "n div 8"] by (simp add: bit_load64 bit_simps)
  next
    case False
    then have "4 \<le> n div 8" "n div 8 < 8" "8 * (n div 8 - 4) + n mod 8 = n - 32" using n by auto presburger
    with False n show ?thesis using hi [of "n div 8"] by (simp add: bit_load64 bit_simps)
  qed
qed

lemma load_store_before:
  "load64 (store64 m p v) (p + 4) = drop_bit 32 v OR (load64 m (p + 4) AND NOT (mask 32))"
proof (rule bit_word_eqI)
  fix n assume n: "n < LENGTH(64)"
  have lo: "store64 m p v (p + 4 + of_nat i) = ucast (drop_bit (8 * (i + 4)) v)" if "i < 4" for i
    using store64_byte [of "i + 4" m p v] that by (simp add: ac_simps)
  have hi: "store64 m p v (p + 4 + of_nat i) = m (p + 4 + of_nat i)" if "4 \<le> i" "i < 8" for i
  proof -
    have "unat (4 + of_nat i :: u64) = 4 + i" using unat_plus_64 [of 4 "of_nat i"] that by (simp add: unat_small)
    then show ?thesis using that by (simp add: store64_def)
  qed
  show "bit (load64 (store64 m p v) (p + 4)) n = bit (drop_bit 32 v OR (load64 m (p + 4) AND NOT (mask 32))) n"
  proof (cases "n < 32")
    case True
    then have "n div 8 < 4" "32 + (8 * (n div 8) + n mod 8) = n + 32" by auto
    with True show ?thesis using lo [of "n div 8"] by (auto simp: bit_load64 bit_simps ac_simps)
  next
    case False
    then have "4 \<le> n div 8" "n div 8 < 8" using n by auto
    moreover have "\<not> bit v (32 + n)" using False by (auto dest: bit_imp_le_length)
    ultimately show ?thesis using hi [of "n div 8"] n False by (auto simp: bit_load64 bit_simps)
  qed
qed

section \<open>Properties\<close>

text \<open>C14. \<^verbatim>\<open>pop_bulk(n)\<close> over bytes: for a pool of blocks of at least eight bytes, on a freelist
  holding the blocks \<open>xs\<close> it returns and hands over a null-terminated chain of exactly the first
  \<open>max(1, n)\<close> blocks (fewer when the list is shorter, the null pointer when it is empty) in stack order;
  the freelist keeps the rest, the lock is released, and no byte outside the first eight bytes of the
  blocks of the batch is written.\<close>

theorem pop_bulk_functional:
  assumes "array_fits base sz k" "8 \<le> unat sz" "D = block_at base sz ` {..<k}"
    and "fl_holds a (cells_of D m) xs" "\<not> bulk_lock a"
  shows "\<exists>start a' m'. pop_bulk_b a m n = Some (start, a', m') \<and> \<not> bulk_lock a'
     \<and> chain (cells_of D m') start (take (max 1 (unat n)) xs) \<and> fl_holds a' (cells_of D m') (drop (max 1 (unat n)) xs)
     \<and> writes_only (set (take (max 1 (unat n)) xs)) m m'"
proof -
  have D: "spaced D" using spaced_pool [OF assms(1,2)] assms(3) by simp
  obtain start a' h' where r: "pop_bulk a (cells_of D m) n = Some (start, a', h')" "\<not> bulk_lock a'"
      "chain h' start (take (max 1 (unat n)) xs)" "fl_holds a' h' (drop (max 1 (unat n)) xs)"
      "\<And>x. x \<notin> set (take (max 1 (unat n)) xs) \<Longrightarrow> h' x = cells_of D m x"
    using pop_bulk_holds [OF assms(4,5), of n] by blast
  obtain m' where m': "pop_bulk_b a m n = Some (start, a', m')" "agrees D m h' m'"
    using pop_bulk_cells [OF D r(1)] by blast
  have "h' = cells_of D m'" using m'(2) by (simp add: agrees_def)
  with m' r(2-4) writes_only_batch [OF m'(2) r(5)] show ?thesis by blast
qed

text \<open>C15. \<^verbatim>\<open>push_bulk(head, tail)\<close> over bytes: for a pool of blocks of at least eight bytes, a batch whose
  chain runs from \<open>head\<close> to \<open>tail\<close> (whatever \<^verbatim>\<open>tail->next\<close> holds), pushed onto a freelist of other
  blocks: the call returns and the whole batch is on top in reverse order, so the batch tail becomes the
  new top; the lock is released and no byte outside the first eight bytes of the blocks of the batch is
  written.\<close>

theorem push_bulk_functional:
  assumes "array_fits base sz k" "8 \<le> unat sz" "D = block_at base sz ` {..<k}"
    and "seg (cells_of D m) bh (ys @ [bt]) q" "distinct (ys @ [bt])" "fl_holds a (cells_of D m) xs"
    and "set xs \<inter> set (ys @ [bt]) = {}" "\<not> bulk_lock a"
  shows "\<exists>a' m'. push_bulk_b a m bh bt = Some (a', m') \<and> fl_holds a' (cells_of D m') (rev (ys @ [bt]) @ xs)
     \<and> \<not> bulk_lock a' \<and> writes_only (set (ys @ [bt])) m m'"
proof -
  have D: "spaced D" using spaced_pool [OF assms(1,2)] assms(3) by simp
  obtain a' h' where r: "push_bulk a (cells_of D m) bh bt = Some (a', h')" "fl_holds a' h' (bt # rev ys @ xs)"
      "\<not> bulk_lock a'" "\<And>x. x \<notin> set (ys @ [bt]) \<Longrightarrow> h' x = cells_of D m x"
    using push_bulk_holds [OF assms(4-8)] by blast
  obtain m' where m': "push_bulk_b a m bh bt = Some (a', m')" "agrees D m h' m'"
    using push_bulk_cells [OF D r(1)] by blast
  have "h' = cells_of D m'" using m'(2) by (simp add: agrees_def)
  with m' r(2,3) writes_only_batch [OF m'(2) r(4)] show ?thesis by auto
qed

text \<open>A pool of four blocks of eight bytes, three of them linked; a freelist and a batch in it.\<close>

definition demo_bytes :: bytes where
  "demo_bytes = store64 (store64 (store64 (\<lambda>_. 0) 64 72) 72 80) 80 0"

definition demo_blocks :: "addr set" where
  "demo_blocks = block_at 64 8 ` {..<4}"

lemma demo_loads: "load64 demo_bytes 64 = 72" "load64 demo_bytes 72 = 80" "load64 demo_bytes 80 = 0"
  by (simp_all add: demo_bytes_def load_store_apart)

lemma demo_cells: "cells_of demo_blocks demo_bytes 64 = Some 72" "cells_of demo_blocks demo_bytes 72 = Some 80"
  "cells_of demo_blocks demo_bytes 80 = Some 0"
  by (simp_all add: cells_of_def demo_blocks_def demo_loads lessThan_Suc numeral_eq_Suc block_at_def)

theorem pop_bulk_functional_witness:
  "\<exists>start a' m'. pop_bulk_b \<lparr>head = \<lparr>ptr = 64, tag = 3\<rparr>, bulk_lock = False\<rparr> demo_bytes 2 = Some (start, a', m')
     \<and> chain (cells_of demo_blocks m') start [64, 72] \<and> fl_holds a' (cells_of demo_blocks m') [80]"
proof -
  have "array_fits 64 8 4" by (simp add: array_fits_def)
  moreover have "fl_holds \<lparr>head = \<lparr>ptr = 64, tag = 3\<rparr>, bulk_lock = False\<rparr> (cells_of demo_blocks demo_bytes) [64, 72, 80]"
    by (simp add: fl_holds_def demo_cells)
  ultimately show ?thesis
    using pop_bulk_functional [OF _ _ demo_blocks_def, of "\<lparr>head = \<lparr>ptr = 64, tag = 3\<rparr>, bulk_lock = False\<rparr>" demo_bytes "[64, 72, 80]" 2]
    by (simp add: max_def) blast
qed

theorem push_bulk_functional_witness:
  "\<exists>a' m'. push_bulk_b \<lparr>head = \<lparr>ptr = 80, tag = 0\<rparr>, bulk_lock = False\<rparr> demo_bytes 64 72 = Some (a', m')
     \<and> fl_holds a' (cells_of demo_blocks m') [72, 64, 80]"
proof -
  have "array_fits 64 8 4" by (simp add: array_fits_def)
  moreover have "fl_holds \<lparr>head = \<lparr>ptr = 80, tag = 0\<rparr>, bulk_lock = False\<rparr> (cells_of demo_blocks demo_bytes) [80]"
    "seg (cells_of demo_blocks demo_bytes) 64 ([64] @ [72]) 80"
    by (simp_all add: fl_holds_def demo_cells)
  ultimately show ?thesis
    using push_bulk_functional [OF _ _ demo_blocks_def, of demo_bytes 64 "[64]" 72 80
        "\<lparr>head = \<lparr>ptr = 80, tag = 0\<rparr>, bulk_lock = False\<rparr>" "[80]"] by simp blast
qed

text \<open>C16. With blocks of four bytes, smaller than the pointer stored in them, the bulk transfer corrupts the
  freelist, as the README warns: take the blocks 4096 and 4100, linked 4096, 4100, and a new freelist, whatever
  else memory holds. \<^verbatim>\<open>push_bulk\<close> of the two returns, but the link of the second block
  overwrites half of the first one's, whose next pointer becomes \<open>2 ^ 44\<close> instead of null. A \<^verbatim>\<open>pop_bulk(2)\<close>
  then returns a chain that ends after its first block (4096 is lost) and leaves \<open>2 ^ 44\<close>, no
  block at all, as the head of the freelist.\<close>

theorem tiny_blocks_corrupt:
  "\<exists>a1 m1 a2 m2. push_bulk_b FreelistAllocator_new (store64 m 4096 4100) 4096 4100 = Some (a1, m1)
     \<and> ptr (head a1) = 4100 \<and> load64 m1 4100 = 4096 \<and> load64 m1 4096 = 2 ^ 44
     \<and> pop_bulk_b a1 m1 2 = Some (4100, a2, m2)
     \<and> load64 m2 4100 = nullptr \<and> ptr (head a2) = 2 ^ 44"
proof -
  have after: "load64 (store64 m 4100 v) 4096 = take_bit 32 (load64 m 4096) OR push_bit 32 v" for m v
    using load_store_after [of m 4096 v] by simp
  have before: "load64 (store64 m 4096 v) 4100 = drop_bit 32 v OR (load64 m 4100 AND NOT (mask 32))" for m v
    using load_store_before [of m 4096 v] by simp
  have high: "4096 AND NOT (mask 32) = (0 :: u64)" by (simp add: mask_eq_exp_minus_1)
  note run = after before high read_next_def write_next_def cas_weak_def Let_def
  let ?m1 = "store64 (store64 (store64 (store64 m 4096 4100) 4100 0) 4096 0) 4100 4096"
  let ?a1 = "\<lparr>head = \<lparr>ptr = 4100, tag = 2\<rparr>, bulk_lock = False\<rparr>"
  have "push_bulk_b FreelistAllocator_new (store64 m 4096 4100) 4096 4100 = Some (?a1, ?m1)"
    by (simp add: push_bulk_b_def push_bulk_loop_b.simps FreelistAllocator_new_def run)
  moreover have "load64 ?m1 4096 = 2 ^ 44" "load64 ?m1 4100 = 4096" by (simp_all add: run)
  moreover have "\<exists>a2 m2. pop_bulk_b ?a1 ?m1 2 = Some (4100, a2, m2) \<and> load64 m2 4100 = nullptr \<and> ptr (head a2) = 2 ^ 44"
    by (simp add: pop_bulk_b_def pop_bulk_loop_b.simps run)
  ultimately show ?thesis by fastforce
qed

end
