(* ===== verification/Freelist_Conc.thy ===== *)
theory Freelist_Conc
  imports Freelist
begin

text \<open>
  Interleaved executions of \<^verbatim>\<open>FreelistAllocator::push\<close> and \<^verbatim>\<open>pop\<close> by any number
  of threads, at the grain of single atomic accesses: the load of \<^verbatim>\<open>head\<close>, the plain
  write or read of \<^verbatim>\<open>node->next\<close>, and the compare-and-exchange, which may also fail
  spuriously. Between calls a thread may overwrite the blocks it owns with arbitrary data (client
  data, or the links \<^verbatim>\<open>pop_bulk\<close>, \<^verbatim>\<open>refill\<close> and \<^verbatim>\<open>flush\<close> write into blocks
  they hold) and hand them to other threads, so the bulk operations, which are sequences of
  \<^verbatim>\<open>push\<close> and \<^verbatim>\<open>pop\<close> calls, are among these executions. Memory accesses are
  sequentially consistent.

  The ghost field \<open>cas_count\<close> counts successful exchanges; the 64-bit tag is this number modulo
  \<open>2 ^ 64\<close>, and the safety theorems hold as long as it has not wrapped around.
\<close>

section \<open>The transition system\<close>

datatype pc =
    Idle
  | Push_load addr
  | Push_link addr TaggedPtr
  | Push_cas addr TaggedPtr
  | Pop_load
  | Pop_next TaggedPtr
  | Pop_cas TaggedPtr addr

record fl_state =
  shead :: TaggedPtr
  cells :: heap
  pcs :: "tid \<Rightarrow> pc"
  owned :: "tid \<Rightarrow> addr set"
  cas_count :: nat

datatype fl_event = Tau | EPush tid addr | EPop tid addr

definition goto :: "tid \<Rightarrow> pc \<Rightarrow> fl_state \<Rightarrow> fl_state" where
  [state_defs]: "goto t l s = s\<lparr>pcs := (pcs s)(t := l)\<rparr>"

definition own :: "tid \<Rightarrow> addr set \<Rightarrow> fl_state \<Rightarrow> fl_state" where
  [state_defs]: "own t B s = s\<lparr>owned := (owned s)(t := B)\<rparr>"

definition swing :: "TaggedPtr \<Rightarrow> addr \<Rightarrow> fl_state \<Rightarrow> fl_state" where
  [state_defs]: "swing old p s = s\<lparr>shead := \<lparr>ptr = p, tag = tag old + 1\<rparr>, cas_count := Suc (cas_count s)\<rparr>"

inductive fl_step :: "tid \<Rightarrow> fl_state \<Rightarrow> fl_event \<Rightarrow> fl_state \<Rightarrow> bool" where
  call_push: "pcs s t = Idle \<Longrightarrow> p \<in> owned s t \<Longrightarrow>
     fl_step t s Tau (goto t (Push_load p) (own t (owned s t - {p}) s))"
| push_load: "pcs s t = Push_load p \<Longrightarrow> fl_step t s Tau (goto t (Push_link p (shead s)) s)"
| push_link: "pcs s t = Push_link p old \<Longrightarrow> p \<in> dom (cells s) \<Longrightarrow>
     fl_step t s Tau (goto t (Push_cas p old) (s\<lparr>cells := (cells s)(p \<mapsto> ptr old)\<rparr>))"
| push_cas: "pcs s t = Push_cas p old \<Longrightarrow> shead s = old \<Longrightarrow>
     fl_step t s (EPush t p) (goto t Idle (swing old p s))"
| push_cas_fail: "pcs s t = Push_cas p old \<Longrightarrow> fl_step t s Tau (goto t (Push_load p) s)"
| call_pop: "pcs s t = Idle \<Longrightarrow> fl_step t s Tau (goto t Pop_load s)"
| pop_load_null: "pcs s t = Pop_load \<Longrightarrow> ptr (shead s) = nullptr \<Longrightarrow>
     fl_step t s (EPop t nullptr) (goto t Idle s)"
| pop_load: "pcs s t = Pop_load \<Longrightarrow> ptr (shead s) \<noteq> nullptr \<Longrightarrow>
     fl_step t s Tau (goto t (Pop_next (shead s)) s)"
| pop_next: "pcs s t = Pop_next old \<Longrightarrow> cells s (ptr old) = Some n \<Longrightarrow>
     fl_step t s Tau (goto t (Pop_cas old n) s)"
| pop_cas: "pcs s t = Pop_cas old n \<Longrightarrow> shead s = old \<Longrightarrow>
     fl_step t s (EPop t (ptr old)) (goto t Idle (own t (insert (ptr old) (owned s t)) (swing old n s)))"
| pop_cas_fail: "pcs s t = Pop_cas old n \<Longrightarrow> fl_step t s Tau (goto t Pop_load s)"
| client_write: "pcs s t = Idle \<Longrightarrow> p \<in> owned s t \<Longrightarrow>
     fl_step t s Tau (s\<lparr>cells := (cells s)(p \<mapsto> v)\<rparr>)"
| client_give: "pcs s t = Idle \<Longrightarrow> p \<in> owned s t \<Longrightarrow> t \<noteq> u \<Longrightarrow>
     fl_step t s Tau (own u (insert p (owned s u)) (own t (owned s t - {p}) s))"

definition fl_tick :: "fl_state \<Rightarrow> fl_state \<Rightarrow> bool" where
  "fl_tick s s' = (\<exists>t e. fl_step t s e s')"

text \<open>Initially the list is empty and the blocks are dealt out to the threads.\<close>

definition fl_init :: "fl_state \<Rightarrow> bool" where
  "fl_init s = (shead s = \<lparr>ptr = nullptr, tag = 0\<rparr> \<and> cas_count s = 0 \<and> (\<forall>t. pcs s t = Idle)
     \<and> nullptr \<notin> dom (cells s) \<and> (\<Union>t. owned s t) = dom (cells s)
     \<and> (\<forall>t u. t \<noteq> u \<longrightarrow> owned s t \<inter> owned s u = {}))"

section \<open>The invariant\<close>

text \<open>The block a push call carries, from the call to its successful exchange.\<close>

fun carried :: "pc \<Rightarrow> addr set" where
  "carried (Push_load p) = {p}"
| "carried (Push_link p old) = {p}"
| "carried (Push_cas p old) = {p}"
| "carried _ = {}"

definition holding :: "fl_state \<Rightarrow> tid \<Rightarrow> addr set" where
  "holding s t = owned s t \<union> carried (pcs s t)"

text \<open>A remembered head is never ahead of the real one, and has its tag only if it is the real one.\<close>

definition old_ok :: "fl_state \<Rightarrow> TaggedPtr \<Rightarrow> bool" where
  "old_ok s old = (unat (tag old) \<le> cas_count s \<and> (tag old = tag (shead s) \<longrightarrow> old = shead s))"

fun pc_ok :: "fl_state \<Rightarrow> pc \<Rightarrow> bool" where
  "pc_ok s (Push_link p old) = old_ok s old"
| "pc_ok s (Push_cas p old) = (old_ok s old \<and> cells s p = Some (ptr old))"
| "pc_ok s (Pop_next old) = (old_ok s old \<and> ptr old \<in> dom (cells s))"
| "pc_ok s (Pop_cas old n) = (old_ok s old \<and> ptr old \<in> dom (cells s) \<and> (old = shead s \<longrightarrow> cells s (ptr old) = Some n))"
| "pc_ok s _ = True"

definition shared_ok :: "fl_state \<Rightarrow> addr list \<Rightarrow> bool" where
  "shared_ok s xs = (chain (cells s) (ptr (shead s)) xs \<and> nullptr \<notin> dom (cells s)
     \<and> unat (tag (shead s)) = cas_count s)"

definition places_ok :: "fl_state \<Rightarrow> addr list \<Rightarrow> bool" where
  "places_ok s xs = ((\<forall>t. owned s t \<inter> carried (pcs s t) = {} \<and> holding s t \<inter> set xs = {})
     \<and> (\<forall>t u. t \<noteq> u \<longrightarrow> holding s t \<inter> holding s u = {})
     \<and> set xs \<union> (\<Union>t. holding s t) = dom (cells s))"

definition fl_inv :: "fl_state \<Rightarrow> addr list \<Rightarrow> bool" where
  "fl_inv s xs = (shared_ok s xs \<and> places_ok s xs \<and> (\<forall>t. pc_ok s (pcs s t)))"

text \<open>The abstract stack and the effect of a step on it.\<close>

fun stack_step :: "addr list \<Rightarrow> fl_event \<Rightarrow> addr list \<Rightarrow> bool" where
  "stack_step xs Tau ys = (ys = xs)"
| "stack_step xs (EPush t p) ys = (ys = p # xs)"
| "stack_step xs (EPop t p) ys = (if p = nullptr then xs = [] \<and> ys = [] else xs = p # ys)"

lemma fl_init_inv: "fl_init s \<Longrightarrow> fl_inv s []"
  by (auto simp: fl_init_def fl_inv_def shared_ok_def places_ok_def holding_def)

section \<open>Every step keeps the invariant\<close>

subsection \<open>Frame lemmas\<close>

lemma pc_ok_cong:
  "cells s' = cells s \<Longrightarrow> shead s' = shead s \<Longrightarrow> cas_count s' = cas_count s \<Longrightarrow> pc_ok s' l = pc_ok s l"
  by (cases l) (auto simp: old_ok_def)

lemma inv_old_ok_head: "fl_inv s xs \<Longrightarrow> old_ok s (shead s)"
  by (auto simp: fl_inv_def shared_ok_def old_ok_def)

lemma inv_head_cell:
  assumes "fl_inv s xs" "ptr (shead s) \<noteq> nullptr"
  shows "ptr (shead s) \<in> set xs" "ptr (shead s) \<in> dom (cells s)"
proof -
  have c: "chain (cells s) (ptr (shead s)) xs" using assms(1) by (simp add: fl_inv_def shared_ok_def)
  then show "ptr (shead s) \<in> set xs" using assms(2) by (cases xs) auto
  with seg_dom [OF c] show "ptr (shead s) \<in> dom (cells s)" by auto
qed

lemma places_unique: "places_ok s xs \<Longrightarrow> x \<in> holding s v \<Longrightarrow> x \<in> holding s w \<Longrightarrow> v = w"
  unfolding places_ok_def by blast

lemma inv_dom: "fl_inv s xs \<Longrightarrow> p \<in> holding s t \<Longrightarrow> p \<in> dom (cells s) \<and> p \<notin> set xs"
  by (auto simp: fl_inv_def places_ok_def)

text \<open>A step that only moves a thread, and leaves the block it carries.\<close>

lemma inv_goto:
  assumes "fl_inv s xs" "carried l = carried (pcs s t)" "pc_ok s l"
  shows "fl_inv (goto t l s) xs"
proof -
  have "holding (goto t l s) = holding s"
    using assms(2) by (auto simp: holding_def goto_def fun_eq_iff)
  moreover have "owned (goto t l s) u \<inter> carried (pcs (goto t l s) u) = owned s u \<inter> carried (pcs s u)" for u
    using assms(2) by (simp add: goto_def)
  ultimately have "places_ok (goto t l s) xs"
    using assms(1) by (simp add: fl_inv_def places_ok_def) (simp add: goto_def)
  moreover have "pc_ok (goto t l s) k = pc_ok s k" for k by (rule pc_ok_cong) (simp_all add: goto_def)
  ultimately show ?thesis
    using assms by (auto simp: fl_inv_def shared_ok_def goto_def)
qed

text \<open>A write into a block that a thread holds and is not just about to publish.\<close>

lemma inv_write:
  assumes inv: "fl_inv s xs" and p: "p \<in> holding s t" and t: "\<And>old. pcs s t \<noteq> Push_cas p old"
  shows "fl_inv (s\<lparr>cells := (cells s)(p \<mapsto> v)\<rparr>) xs" (is "fl_inv ?s' xs")
proof -
  have d: "p \<in> dom (cells s)" "p \<notin> set xs" using inv_dom [OF inv p] by auto
  have "shared_ok ?s' xs" using inv d by (auto simp: fl_inv_def shared_ok_def)
  moreover have "places_ok ?s' xs"
    using inv d unfolding fl_inv_def places_ok_def holding_def by (simp add: insert_absorb)
  moreover have "pc_ok ?s' (pcs ?s' u)" for u
  proof (cases "pcs s u")
    case (Push_cas q old)
    with t have "u = t \<Longrightarrow> q \<noteq> p" by auto
    moreover have "u \<noteq> t \<Longrightarrow> holding s u \<inter> holding s t = {}"
      using inv by (auto simp: fl_inv_def places_ok_def)
    ultimately have "q \<noteq> p" using p Push_cas by (auto simp: holding_def)
    with inv Push_cas show ?thesis by (auto simp: fl_inv_def old_ok_def dest: spec [of _ u])
  next
    case (Pop_cas old n)
    have ok: "pc_ok s (Pop_cas old n)" using inv Pop_cas by (auto simp: fl_inv_def dest: spec [of _ u])
    then have "ptr old \<noteq> nullptr" using inv by (auto simp: fl_inv_def shared_ok_def)
    then have "old = shead s \<Longrightarrow> ptr old \<noteq> p" using inv_head_cell [OF inv] d by auto
    with ok d Pop_cas show ?thesis by (auto simp: old_ok_def)
  qed (use inv in \<open>auto simp: fl_inv_def old_ok_def dest: spec [of _ u]\<close>)
  ultimately show ?thesis by (simp add: fl_inv_def)
qed

text \<open>A successful exchange ends every older view of the head: no remembered tag is the new one.\<close>

lemma swing_old_ok:
  assumes "old_ok s old" "unat (tag (shead s)) = cas_count s" "Suc (cas_count s) < 2 ^ 64"
  shows "old_ok (swing (shead s) p s) old \<and> old \<noteq> shead (swing (shead s) p s)"
proof -
  have n: "unat (tag (shead s) + 1) = Suc (cas_count s)"
    using assms(2,3) by (simp add: unat_plus_64)
  have "unat (tag old) < unat (tag (shead s) + 1)" using assms(1) n by (simp add: old_ok_def)
  then have ne: "tag old \<noteq> tag (shead s) + 1" by auto
  then have "old \<noteq> \<lparr>ptr = p, tag = tag (shead s) + 1\<rparr>" by auto
  with ne assms(1) show ?thesis by (simp add: old_ok_def swing_def)
qed

lemma swing_pc_ok:
  assumes "pc_ok s l" "unat (tag (shead s)) = cas_count s" "Suc (cas_count s) < 2 ^ 64"
  shows "pc_ok (swing (shead s) p s) l"
  using assms swing_old_ok [OF _ assms(2,3)] by (cases l) (auto simp: swing_def)

lemma inv_swing:
  assumes inv: "fl_inv s xs" and bound: "Suc (cas_count s) < 2 ^ 64" and c: "chain (cells s) p ys"
    and pl: "places_ok (goto t Idle (own t B (swing (shead s) p s))) ys"
  shows "fl_inv (goto t Idle (own t B (swing (shead s) p s))) ys" (is "fl_inv ?s' ys")
proof -
  have tg: "unat (tag (shead s)) = cas_count s" using inv by (simp add: fl_inv_def shared_ok_def)
  have "shared_ok ?s' ys"
    using inv c bound tg by (simp add: fl_inv_def shared_ok_def state_defs unat_plus_64)
  moreover have "pc_ok ?s' (pcs ?s' u)" for u
  proof -
    have "pc_ok (swing (shead s) p s) (pcs s u)"
      using inv swing_pc_ok [OF _ tg bound] by (simp add: fl_inv_def)
    moreover have "pc_ok ?s' k = pc_ok (swing (shead s) p s) k" for k
      by (rule pc_ok_cong) (simp_all add: state_defs)
    ultimately show ?thesis by (simp add: state_defs)
  qed
  ultimately show ?thesis using pl by (simp add: fl_inv_def)
qed

subsection \<open>The steps\<close>

lemma inv_transfer:
  assumes "fl_inv s xs" "cells s' = cells s" "shead s' = shead s" "cas_count s' = cas_count s"
    and "places_ok s' xs" "\<And>u. pc_ok s (pcs s' u)"
  shows "fl_inv s' xs"
  using assms pc_ok_cong [OF assms(2,3,4)] by (simp add: fl_inv_def shared_ok_def)

lemma call_push_inv:
  assumes "fl_inv s xs" "pcs s t = Idle" "p \<in> owned s t"
  shows "fl_inv (goto t (Push_load p) (own t (owned s t - {p}) s)) xs" (is "fl_inv ?s' xs")
proof (rule inv_transfer [OF assms(1)])
  have "holding ?s' = holding s"
    using assms(2,3) by (auto simp: holding_def state_defs fun_eq_iff)
  then show "places_ok ?s' xs"
    using assms(1) by (simp add: fl_inv_def places_ok_def) (auto simp: state_defs)
  show "pc_ok s (pcs ?s' u)" for u using assms(1) by (simp add: fl_inv_def state_defs)
qed (simp_all add: state_defs)

lemma client_give_inv:
  assumes "fl_inv s xs" "pcs s t = Idle" "p \<in> owned s t" "t \<noteq> u"
  shows "fl_inv (own u (insert p (owned s u)) (own t (owned s t - {p}) s)) xs" (is "fl_inv ?s' xs")
proof (rule inv_transfer [OF assms(1)])
  have pl: "places_ok s xs" using assms(1) by (simp add: fl_inv_def)
  have h: "holding ?s' v = (if v = u then insert p (holding s u) else if v = t then holding s t - {p} else holding s v)" for v
    using assms(2-4) by (auto simp: holding_def own_def)
  have pt: "p \<in> holding s t" using assms(3) by (simp add: holding_def)
  have disj: "v \<noteq> w \<Longrightarrow> holding s v \<inter> holding s w = {}" for v w using pl by (simp add: places_ok_def)
  have "v \<noteq> w \<Longrightarrow> holding ?s' v \<inter> holding ?s' w = {}" for v w
    using disj [of v w] disj [of v t] disj [of t w] pt assms(4) unfolding h by auto
  moreover have "owned ?s' v \<inter> carried (pcs ?s' v) = {} \<and> holding ?s' v \<inter> set xs = {}" for v
  proof -
    have "carried (pcs s u) \<subseteq> holding s u" "owned s v \<inter> carried (pcs s v) = {}" "holding s v \<inter> set xs = {}"
      "holding s t \<inter> set xs = {}" using pl by (auto simp: holding_def places_ok_def)
    then show ?thesis using disj [of t u] pt assms(4) unfolding h by (auto simp: own_def)
  qed
  moreover have "(\<Union>v. holding ?s' v) = (\<Union>v. holding s v)"
    using pt assms(4) unfolding h by (auto split: if_splits)
  ultimately show "places_ok ?s' xs" using pl by (simp add: places_ok_def own_def)
  show "pc_ok s (pcs ?s' v)" for v using assms(1) by (simp add: fl_inv_def own_def)
qed (simp_all add: own_def)

lemma push_cas_inv:
  assumes inv: "fl_inv s xs" and t: "pcs s t = Push_cas p old" "shead s = old" and b: "Suc (cas_count s) < 2 ^ 64"
  shows "fl_inv (goto t Idle (swing old p s)) (p # xs)"
proof -
  let ?s' = "goto t Idle (own t (owned s t) (swing (shead s) p s))"
  have pl: "places_ok s xs" and sh: "shared_ok s xs" using inv by (auto simp: fl_inv_def)
  have pt: "p \<in> holding s t" using t by (simp add: holding_def)
  have "owned s t \<inter> carried (pcs s t) = {}" using pl by (simp add: places_ok_def)
  then have pno: "p \<notin> owned s t" using t by simp
  have "p \<noteq> nullptr" using inv_dom [OF inv pt] sh by (auto simp: shared_ok_def)
  moreover have "cells s p = Some (ptr (shead s))" using inv t by (auto simp: fl_inv_def dest: spec [of _ t])
  ultimately have "chain (cells s) p (p # xs)" using sh by (simp add: shared_ok_def)
  moreover have "places_ok ?s' (p # xs)"
  proof -
    have h: "holding ?s' v = (if v = t then holding s t - {p} else holding s v)" for v
      using t pno by (auto simp: holding_def state_defs)
    have "(\<Union>v. holding s v) = insert p (\<Union>v. holding ?s' v)"
      using pt unfolding h by (auto split: if_splits)
    moreover have "holding ?s' v \<inter> holding ?s' w = {}" if "v \<noteq> w" for v w
      unfolding h using that places_unique [OF pl] by auto
    moreover have "holding ?s' v \<inter> set (p # xs) = {}" for v
      using pl places_unique [OF pl pt, of v] unfolding h places_ok_def by auto
    ultimately show ?thesis using pl by (auto simp: places_ok_def state_defs)
  qed
  ultimately have "fl_inv ?s' (p # xs)" by (rule inv_swing [OF inv b])
  moreover have "?s' = goto t Idle (swing old p s)" using t by (simp add: state_defs)
  ultimately show ?thesis by simp
qed

lemma pop_cas_inv:
  assumes inv: "fl_inv s xs" and t: "pcs s t = Pop_cas old n" "shead s = old" and b: "Suc (cas_count s) < 2 ^ 64"
  shows "\<exists>ys. xs = ptr old # ys \<and> fl_inv (goto t Idle (own t (insert (ptr old) (owned s t)) (swing old n s))) ys"
proof -
  let ?s' = "goto t Idle (own t (insert (ptr old) (owned s t)) (swing (shead s) n s))"
  have pl: "places_ok s xs" and sh: "shared_ok s xs" using inv by (auto simp: fl_inv_def)
  have ok: "ptr old \<in> dom (cells s)" "cells s (ptr old) = Some n"
    using inv t by (auto simp: fl_inv_def dest: spec [of _ t])
  then have "ptr old \<noteq> nullptr" using sh by (auto simp: shared_ok_def)
  then obtain ys where ys: "xs = ptr old # ys" "chain (cells s) n ys"
    using sh ok t(2) by (auto simp: shared_ok_def chain_nonnull)
  have "distinct xs" using sh chain_distinct by (auto simp: shared_ok_def)
  have "places_ok ?s' ys"
  proof -
    have h: "holding ?s' v = (if v = t then insert (ptr old) (holding s t) else holding s v)" for v
      using t by (auto simp: holding_def state_defs)
    have "(\<Union>v. holding ?s' v) = insert (ptr old) (\<Union>v. holding s v)"
      unfolding h by (auto split: if_splits)
    then show ?thesis using pl ys \<open>distinct xs\<close> unfolding places_ok_def h by (auto simp: state_defs)
  qed
  from inv_swing [OF inv b ys(2) this] ys(1) t(2) show ?thesis by auto
qed

lemma step_inv:
  assumes "fl_step t s e s'" "fl_inv s xs" "cas_count s' < 2 ^ 64"
  shows "\<exists>ys. stack_step xs e ys \<and> fl_inv s' ys"
  using assms
proof (cases rule: fl_step.cases)
  case (push_link p old)
  have "fl_inv (s\<lparr>cells := (cells s)(p \<mapsto> ptr old)\<rparr>) xs"
    by (rule inv_write [OF assms(2), of p t]) (use push_link in \<open>auto simp: holding_def\<close>)
  then have "fl_inv s' xs" unfolding push_link
    by (rule inv_goto) (use push_link assms(2) in \<open>auto simp: fl_inv_def old_ok_def dest: spec [of _ t]\<close>)
  with push_link show ?thesis by simp
next
  case (pop_load_null)
  have "xs = []" using assms(2) pop_load_null by (auto simp: fl_inv_def shared_ok_def)
  with inv_goto [OF assms(2), of Idle t] pop_load_null show ?thesis by simp
next
  case (pop_load)
  have "fl_inv s' xs" unfolding pop_load
    by (rule inv_goto [OF assms(2)])
      (use pop_load inv_old_ok_head [OF assms(2)] inv_head_cell [OF assms(2)] in auto)
  with pop_load show ?thesis by simp
next
  case (pop_cas old n)
  then have b: "Suc (cas_count s) < 2 ^ 64" using assms(3) by (simp add: state_defs)
  obtain ys where ys: "xs = ptr old # ys"
    "fl_inv (goto t Idle (own t (insert (ptr old) (owned s t)) (swing old n s))) ys"
    using pop_cas_inv [OF assms(2) pop_cas(3,4) b] by blast
  have "ptr old \<noteq> nullptr" using assms(2) ys(1) by (auto simp: fl_inv_def shared_ok_def)
  with ys pop_cas show ?thesis by auto
next
  case (client_write p v)
  have "fl_inv s' xs" unfolding client_write
    by (rule inv_write [OF assms(2), of p t]) (use client_write in \<open>auto simp: holding_def\<close>)
  with client_write show ?thesis by simp
next
  case (push_cas p old)
  then have b: "Suc (cas_count s) < 2 ^ 64" using assms(3) by (simp add: state_defs)
  from push_cas_inv [OF assms(2) push_cas(3,4) b] push_cas show ?thesis by auto
next
  case (push_load p)
  have "fl_inv s' xs" unfolding push_load
    by (rule inv_goto [OF assms(2)]) (use push_load inv_old_ok_head [OF assms(2)] in auto)
  with push_load show ?thesis by simp
next
  case (pop_next old n)
  have "fl_inv s' xs" unfolding pop_next
    by (rule inv_goto [OF assms(2)]) (use pop_next assms(2) in \<open>auto simp: fl_inv_def dest: spec [of _ t]\<close>)
  with pop_next show ?thesis by simp
qed (use assms(2) in \<open>auto intro!: inv_goto call_push_inv client_give_inv\<close>)

section \<open>Reachable states\<close>

lemma fl_step_count: "fl_step t s e s' \<Longrightarrow> cas_count s \<le> cas_count s'"
  by (cases rule: fl_step.cases) (auto simp: state_defs)

definition fl_safe :: "fl_state \<Rightarrow> bool" where
  "fl_safe s = (cas_count s < 2 ^ 64 \<longrightarrow> (\<exists>xs. fl_inv s xs))"

interpretation fc: interleaving fl_init fl_tick fl_safe
proof unfold_locales
  fix s assume "fl_init s"
  then show "fl_safe s" using fl_init_inv by (auto simp: fl_safe_def)
next
  fix s s' assume "fl_tick s s'" "fl_safe s"
  then show "fl_safe s'"
    unfolding fl_tick_def fl_safe_def using step_inv fl_step_count by (meson order_le_less_trans)
qed

lemma reach_fl_inv: "reach fl_init fl_tick s \<Longrightarrow> cas_count s < 2 ^ 64 \<Longrightarrow> \<exists>xs. fl_inv s xs"
  using fc.reach_invariant by (simp add: fl_safe_def)

text \<open>An execution with two threads: thread 0 pushes block 64, then thread 1 starts to pop it.\<close>

definition ex0 :: fl_state where
  "ex0 = \<lparr>shead = \<lparr>ptr = 0, tag = 0\<rparr>, cells = [64 \<mapsto> 5, 128 \<mapsto> 6], pcs = (\<lambda>_. Idle),
          owned = (\<lambda>t. if t = 0 then {64} else if t = 1 then {128} else {}), cas_count = 0\<rparr>"

definition ex1 :: fl_state where
  "ex1 = ex0\<lparr>pcs := (\<lambda>_. Idle)(0 := Push_cas 64 (shead ex0)), owned := (owned ex0)(0 := {}),
             cells := [64 \<mapsto> 0, 128 \<mapsto> 6]\<rparr>"

definition ex2 :: fl_state where
  "ex2 = ex1\<lparr>shead := \<lparr>ptr = 64, tag = 1\<rparr>, cas_count := 1,
             pcs := (\<lambda>_. Idle)(1 := Pop_next \<lparr>ptr = 64, tag = 1\<rparr>)\<rparr>"

lemmas ex_defs = ex0_def ex1_def ex2_def

lemma ex0_reach: "reach fl_init fl_tick ex0"
  by (rule reach_init) (auto simp: fl_init_def ex0_def split: if_splits)

lemma ex1_reach: "reach fl_init fl_tick ex1"
proof -
  let ?a = "goto 0 (Push_load 64) (own 0 (owned ex0 0 - {64}) ex0)"
  let ?b = "goto 0 (Push_link 64 (shead ?a)) ?a"
  let ?c = "goto 0 (Push_cas 64 (shead ?a)) (?b\<lparr>cells := (cells ?b)(64 \<mapsto> ptr (shead ?a))\<rparr>)"
  have "fl_step 0 ex0 Tau ?a" by (rule call_push) (simp_all add: ex0_def)
  moreover have "fl_step 0 ?a Tau ?b" by (rule push_load) (simp add: goto_def)
  moreover have "fl_step 0 ?b Tau ?c" by (rule push_link) (simp_all add: state_defs ex0_def)
  ultimately have "reach fl_init fl_tick ?c"
    using ex0_reach by (meson fl_tick_def reach_step)
  moreover have "?c = ex1" by (auto simp: ex1_def ex0_def state_defs)
  ultimately show ?thesis by simp
qed

lemma ex1_push: "fl_step 0 ex1 (EPush 0 64) (goto 0 Idle (swing (shead ex1) 64 ex1))"
  by (rule push_cas) (simp_all add: ex_defs)

lemma ex2_reach: "reach fl_init fl_tick ex2"
proof -
  let ?a = "goto 0 Idle (swing (shead ex1) 64 ex1)"
  let ?b = "goto 1 Pop_load ?a"
  let ?c = "goto 1 (Pop_next (shead ?b)) ?b"
  have "fl_step 1 ?a Tau ?b" by (rule call_pop) (simp add: ex_defs state_defs)
  moreover have "fl_step 1 ?b Tau ?c" by (rule pop_load) (simp_all add: ex_defs state_defs)
  ultimately have "reach fl_init fl_tick ?c"
    using ex1_reach ex1_push by (meson fl_tick_def reach_step)
  moreover have "?c = ex2" by (auto simp: ex_defs state_defs)
  ultimately show ?thesis by simp
qed

section \<open>Runs of a set of threads\<close>











section \<open>Properties\<close>

text \<open>C2. Exclusive ownership and conservation of blocks under concurrency: in every state the
  threads can reach with any interleaving of \<^verbatim>\<open>push\<close>, \<^verbatim>\<open>pop\<close> and writes to owned blocks
  (while the 64-bit tag has not wrapped), no block is held by two threads, no held block is on the
  freelist, and every block is either held or on the freelist: none is duplicated and none is lost.\<close>

theorem treiber_exclusive_ownership:
  assumes "reach fl_init fl_tick s" "cas_count s < 2 ^ 64"
  shows "\<exists>xs. chain (cells s) (ptr (shead s)) xs \<and> (\<forall>t. holding s t \<inter> set xs = {})
     \<and> (\<forall>t u. t \<noteq> u \<longrightarrow> holding s t \<inter> holding s u = {}) \<and> set xs \<union> (\<Union>t. holding s t) = dom (cells s)"
proof -
  obtain xs where "fl_inv s xs" using reach_fl_inv [OF assms] by blast
  then show ?thesis
    by (intro exI [of _ xs] conjI) (simp_all add: fl_inv_def shared_ok_def places_ok_def)
qed

theorem treiber_exclusive_ownership_witness:
  "\<exists>xs. chain (cells ex2) 64 xs \<and> holding ex2 1 \<inter> set xs = {} \<and> set xs \<union> (\<Union>t. holding ex2 t) = {64, 128}"
proof -
  have "cas_count ex2 < 2 ^ 64" "ptr (shead ex2) = 64" "dom (cells ex2) = {64, 128}"
    by (auto simp: ex_defs)
  with treiber_exclusive_ownership [OF ex2_reach] show ?thesis by auto
qed

text \<open>C1. The lock-free freelist is linearizable (a step-by-step simulation by an abstract stack):
  every atomic step of a reachable state either leaves the stack of free blocks alone, or is the
  successful exchange of a push, which puts that block on top, or the successful exchange of a pop,
  which takes exactly the block it returns off the top, or the load of a null head, which returns
  null when the stack is empty. In particular an exchange never installs a stale
  \<^verbatim>\<open>next\<close> pointer (no ABA).\<close>

theorem treiber_linearizable:
  assumes "reach fl_init fl_tick s" "fl_step t s e s'" "cas_count s' < 2 ^ 64"
  shows "\<exists>xs ys. chain (cells s) (ptr (shead s)) xs \<and> chain (cells s') (ptr (shead s')) ys \<and> stack_step xs e ys"
proof -
  have "cas_count s < 2 ^ 64" using fl_step_count [OF assms(2)] assms(3) by simp
  then obtain xs where "fl_inv s xs" using reach_fl_inv [OF assms(1)] by blast
  moreover from step_inv [OF assms(2) this assms(3)] obtain ys where "stack_step xs e ys" "fl_inv s' ys" by blast
  ultimately show ?thesis by (auto simp: fl_inv_def shared_ok_def)
qed

theorem treiber_linearizable_witness:
  "\<exists>xs ys. chain (cells ex1) 0 xs \<and> stack_step xs (EPush 0 64) ys
     \<and> chain (cells (goto 0 Idle (swing (shead ex1) 64 ex1))) 64 ys"
proof -
  have "cas_count (goto 0 Idle (swing (shead ex1) 64 ex1)) < 2 ^ 64" by (simp add: ex_defs state_defs)
  from treiber_linearizable [OF ex1_reach ex1_push this] show ?thesis
    by (auto simp: state_defs) (auto simp: ex_defs)
qed

text \<open>C8. No thread ever faults or blocks inside \<^verbatim>\<open>push\<close> or \<^verbatim>\<open>pop\<close>: in every reachable
  state (tag not wrapped) each thread that is inside a call has an enabled step that moves it, so in
  particular the read of \<^verbatim>\<open>old_head.ptr->next\<close> of a block that other threads may have taken
  in the meantime still addresses a block of the pool.\<close>

theorem treiber_never_stuck:
  assumes "reach fl_init fl_tick s" "cas_count s < 2 ^ 64" "pcs s t \<noteq> Idle"
  shows "\<exists>e s'. fl_step t s e s' \<and> pcs s' t \<noteq> pcs s t"
proof -
  obtain xs where inv: "fl_inv s xs" using reach_fl_inv [OF assms(1,2)] by blast
  then have ok: "pc_ok s (pcs s t)" by (simp add: fl_inv_def)
  show ?thesis
  proof (cases "pcs s t")
    case (Push_link p old)
    then have "p \<in> dom (cells s)" using inv_dom [OF inv, of p t] by (simp add: holding_def)
    then show ?thesis using fl_step.push_link [OF Push_link] Push_link by (fastforce simp: goto_def)
  next
    case (Pop_next old)
    with ok obtain n where "cells s (ptr old) = Some n" by auto
    then show ?thesis using fl_step.pop_next [OF Pop_next] Pop_next by (fastforce simp: goto_def)
  next
    case Pop_load
    then show ?thesis
      using fl_step.pop_load [OF Pop_load] fl_step.pop_load_null [OF Pop_load] by (fastforce simp: goto_def)
  qed (use assms(3) fl_step.push_load fl_step.push_cas_fail fl_step.pop_cas_fail in \<open>fastforce simp: goto_def\<close>)+
qed

theorem treiber_never_stuck_witness: "\<exists>e s'. fl_step 1 ex2 e s' \<and> pcs s' 1 \<noteq> Pop_next \<lparr>ptr = 64, tag = 1\<rparr>"
  using treiber_never_stuck [OF ex2_reach, of 1] by (simp add: ex_defs)




end
