(* ===== verification/Bulk_Conc.thy ===== *)
theory Bulk_Conc
  imports Freelist
begin

text \<open>
  Interleaved executions of \<^verbatim>\<open>FreelistAllocator::push_bulk\<close> and \<^verbatim>\<open>pop_bulk\<close>, the operations every
  thread cache uses, under the mutex \<^verbatim>\<open>bulk_lock\<close>. The single \<^verbatim>\<open>push\<close> and \<^verbatim>\<open>pop\<close> calls are atomic
  here (\<open>Freelist_Conc\<close> shows that they are linearizable); the steps are the acquisition and the release of the
  mutex, one \<^verbatim>\<open>push\<close> or \<^verbatim>\<open>pop\<close>, and the plain read or write of one \<^verbatim>\<open>next\<close> field. Threads outside a bulk
  call may write to their own blocks and hand them over, and, when the parameter \<open>d\<close> is true, call
  \<^verbatim>\<open>push\<close> and \<^verbatim>\<open>pop\<close> directly, which do not take the mutex.

  \<open>snap\<close> is a ghost copy of the freelist and the memory at the last acquisition of the mutex, and the last
  component of the points of \<^verbatim>\<open>push_bulk\<close> is the ghost list of the blocks of the batch.
\<close>

section \<open>The transition system\<close>

datatype bkpc =
    KIdle
  | Pop_lock u64
  | Pop_first u64
  | Pop_more addr addr u64 u64
  | Pop_link addr addr addr u64 u64
  | Pop_term addr addr u64
  | Pop_unlock addr u64
  | Push_lock addr addr "addr list"
  | Push_term addr addr "addr list"
  | Push_node addr "addr list"
  | Push_one addr addr "addr list"
  | Push_unlock "addr list"

record bulk_state =
  bka :: FreelistAllocator
  bkh :: heap
  bkpc :: "tid \<Rightarrow> bkpc"
  bkown :: "tid \<Rightarrow> addr set"
  snap :: "FreelistAllocator \<times> heap"

definition kgoto :: "tid \<Rightarrow> bkpc \<Rightarrow> bulk_state \<Rightarrow> bulk_state" where
  [state_defs]: "kgoto t l s = s\<lparr>bkpc := (bkpc s)(t := l)\<rparr>"

definition kown :: "tid \<Rightarrow> addr set \<Rightarrow> bulk_state \<Rightarrow> bulk_state" where
  [state_defs]: "kown t B s = s\<lparr>bkown := (bkown s)(t := B)\<rparr>"

definition kset :: "FreelistAllocator \<Rightarrow> heap \<Rightarrow> bulk_state \<Rightarrow> bulk_state" where
  [state_defs]: "kset a h s = s\<lparr>bka := a, bkh := h\<rparr>"

definition lock :: "bulk_state \<Rightarrow> bulk_state" where
  [state_defs]: "lock s = s\<lparr>bka := (bka s)\<lparr>bulk_lock := True\<rparr>, snap := (bka s, bkh s)\<rparr>"

definition unlock :: "bulk_state \<Rightarrow> bulk_state" where
  [state_defs]: "unlock s = s\<lparr>bka := (bka s)\<lparr>bulk_lock := False\<rparr>\<rparr>"

text \<open>A batch: a linked segment of distinct blocks the thread owns.\<close>

definition batch :: "heap \<Rightarrow> addr set \<Rightarrow> addr \<Rightarrow> addr list \<Rightarrow> bool" where
  "batch h B p zs = ((\<exists>q. seg h p zs q) \<and> distinct zs \<and> set zs \<subseteq> B)"

inductive bk_step :: "bool \<Rightarrow> bulk_state \<Rightarrow> bulk_state \<Rightarrow> bool" for d :: bool where
  direct_push: "d \<Longrightarrow> bkpc s t = KIdle \<Longrightarrow> p \<in> bkown s t \<Longrightarrow> push (bka s) (bkh s) p = Some (a, h) \<Longrightarrow>
     bk_step d s (kown t (bkown s t - {p}) (kset a h s))"
| direct_pop: "d \<Longrightarrow> bkpc s t = KIdle \<Longrightarrow> pop (bka s) (bkh s) = Some (p, a) \<Longrightarrow>
     bk_step d s (kown t (bkown s t \<union> ({p} - {nullptr})) (kset a (bkh s) s))"
| client_write: "bkpc s t = KIdle \<Longrightarrow> p \<in> bkown s t \<Longrightarrow>
     bk_step d s (kset (bka s) ((bkh s)(p \<mapsto> v)) s)"
| client_give: "bkpc s t = KIdle \<Longrightarrow> p \<in> bkown s t \<Longrightarrow> t \<noteq> u \<Longrightarrow>
     bk_step d s (kown u (insert p (bkown s u)) (kown t (bkown s t - {p}) s))"
| call_pop_bulk: "bkpc s t = KIdle \<Longrightarrow> bk_step d s (kgoto t (Pop_lock n) s)"
| pop_acquire: "bkpc s t = Pop_lock n \<Longrightarrow> \<not> bulk_lock (bka s) \<Longrightarrow>
     bk_step d s (kgoto t (Pop_first n) (lock s))"
| pop_first_null: "bkpc s t = Pop_first n \<Longrightarrow> pop (bka s) (bkh s) = Some (nullptr, a) \<Longrightarrow>
     bk_step d s (kgoto t (Pop_unlock nullptr n) (kset a (bkh s) s))"
| pop_first: "bkpc s t = Pop_first n \<Longrightarrow> pop (bka s) (bkh s) = Some (start, a) \<Longrightarrow> start \<noteq> nullptr \<Longrightarrow>
     bk_step d s (kgoto t (Pop_more start start 1 n) (kown t (insert start (bkown s t)) (kset a (bkh s) s)))"
| pop_more_done: "bkpc s t = Pop_more start tail count n \<Longrightarrow> \<not> count < n \<Longrightarrow>
     bk_step d s (kgoto t (Pop_term start tail n) s)"
| pop_more_null: "bkpc s t = Pop_more start tail count n \<Longrightarrow> count < n \<Longrightarrow>
     pop (bka s) (bkh s) = Some (nullptr, a) \<Longrightarrow>
     bk_step d s (kgoto t (Pop_term start tail n) (kset a (bkh s) s))"
| pop_more: "bkpc s t = Pop_more start tail count n \<Longrightarrow> count < n \<Longrightarrow>
     pop (bka s) (bkh s) = Some (nxt, a) \<Longrightarrow> nxt \<noteq> nullptr \<Longrightarrow>
     bk_step d s (kgoto t (Pop_link start tail nxt count n) (kown t (insert nxt (bkown s t)) (kset a (bkh s) s)))"
| pop_link: "bkpc s t = Pop_link start tail nxt count n \<Longrightarrow> set_next (bkh s) tail nxt = Some h \<Longrightarrow>
     bk_step d s (kgoto t (Pop_more start nxt (count + 1) n) (kset (bka s) h s))"
| pop_term: "bkpc s t = Pop_term start tail n \<Longrightarrow> set_next (bkh s) tail nullptr = Some h \<Longrightarrow>
     bk_step d s (kgoto t (Pop_unlock start n) (kset (bka s) h s))"
| pop_unlock: "bkpc s t = Pop_unlock start n \<Longrightarrow> bk_step d s (kgoto t KIdle (unlock s))"
| call_push_bulk: "bkpc s t = KIdle \<Longrightarrow> batch (bkh s) (bkown s t) bh (ys @ [bt]) \<Longrightarrow>
     bk_step d s (kgoto t (Push_lock bh bt (ys @ [bt])) s)"
| push_acquire: "bkpc s t = Push_lock bh bt bs \<Longrightarrow> \<not> bulk_lock (bka s) \<Longrightarrow>
     bk_step d s (kgoto t (Push_term bh bt bs) (lock s))"
| push_term: "bkpc s t = Push_term bh bt bs \<Longrightarrow> set_next (bkh s) bt nullptr = Some h \<Longrightarrow>
     bk_step d s (kgoto t (Push_node bh bs) (kset (bka s) h s))"
| push_node_done: "bkpc s t = Push_node nullptr bs \<Longrightarrow> bk_step d s (kgoto t (Push_unlock bs) s)"
| push_node: "bkpc s t = Push_node node bs \<Longrightarrow> node \<noteq> nullptr \<Longrightarrow> get_next (bkh s) node = Some nxt \<Longrightarrow>
     bk_step d s (kgoto t (Push_one node nxt bs) s)"
| push_one: "bkpc s t = Push_one node nxt bs \<Longrightarrow> push (bka s) (bkh s) node = Some (a, h) \<Longrightarrow>
     bk_step d s (kgoto t (Push_node nxt bs) (kown t (bkown s t - {node}) (kset a h s)))"
| push_unlock: "bkpc s t = Push_unlock bs \<Longrightarrow> bk_step d s (kgoto t KIdle (unlock s))"

definition bk_init :: "bulk_state \<Rightarrow> bool" where
  "bk_init s = (bka s = FreelistAllocator_new \<and> nullptr \<notin> dom (bkh s) \<and> (\<forall>t. bkpc s t = KIdle)
     \<and> (\<Union>t. bkown s t) = dom (bkh s) \<and> (\<forall>t u. t \<noteq> u \<longrightarrow> bkown s t \<inter> bkown s u = {}))"

section \<open>The invariant\<close>

text \<open>The points between acquisition and release.\<close>

fun in_section :: "bkpc \<Rightarrow> bool" where
  "in_section KIdle = False"
| "in_section (Pop_lock n) = False"
| "in_section (Push_lock bh bt bs) = False"
| "in_section _ = True"

definition limit :: "u64 \<Rightarrow> nat" where
  "limit n = max 1 (unat n)"

definition was :: "FreelistAllocator \<times> heap \<Rightarrow> addr list \<Rightarrow> bool" where
  "was sn xs = (fl_holds (fst sn) (snd sn) xs \<and> \<not> bulk_lock (fst sn))"

text \<open>The part \<open>dn\<close> of a batch \<open>bs\<close> that was intact at the acquisition has been pushed.\<close>

definition pushed :: "FreelistAllocator \<times> heap \<Rightarrow> addr list \<Rightarrow> addr list \<Rightarrow> addr list \<Rightarrow> bool" where
  "pushed sn bs dn xs = (\<exists>xs0. was sn xs0 \<and> xs = rev dn @ xs0 \<and> set bs \<inter> set xs0 = {}
     \<and> bs \<noteq> [] \<and> (\<exists>q. seg (snd sn) (hd bs) bs q) \<and> distinct bs)"

text \<open>
  What holds at each point, for the memory \<open>h\<close>, the current content \<open>xs\<close> of the freelist and the blocks \<open>B\<close> the
  thread owns: the shape of the batch built or given so far and, without direct calls, how it and \<open>xs\<close>
  relate to the content at the acquisition of the mutex.
\<close>

fun kpc_ok :: "bool \<Rightarrow> FreelistAllocator \<times> heap \<Rightarrow> addr list \<Rightarrow> heap \<Rightarrow> addr set \<Rightarrow> bkpc \<Rightarrow> bool" where
  "kpc_ok d sn xs h B (Pop_first n) = (d \<or> was sn xs)"
| "kpc_ok d sn xs h B (Pop_more start tail count n) =
     (\<exists>ys. batch h B start (ys @ [tail]) \<and> Suc (length ys) = unat count \<and> unat count \<le> limit n
        \<and> (d \<or> was sn (ys @ tail # xs)))"
| "kpc_ok d sn xs h B (Pop_link start tail nxt count n) =
     (\<exists>ys. batch h B start (ys @ [tail]) \<and> Suc (length ys) = unat count \<and> count < n
        \<and> nxt \<in> B - set (ys @ [tail]) \<and> (d \<or> was sn (ys @ tail # nxt # xs)))"
| "kpc_ok d sn xs h B (Pop_term start tail n) =
     (\<exists>ys. batch h B start (ys @ [tail]) \<and> Suc (length ys) \<le> limit n
        \<and> (d \<or> was sn (ys @ tail # xs) \<and> (xs = [] \<or> Suc (length ys) = limit n)))"
| "kpc_ok d sn xs h B (Pop_unlock start n) =
     (\<exists>ys. chain h start ys \<and> set ys \<subseteq> B \<and> length ys \<le> limit n
        \<and> (d \<or> (\<exists>xs0. was sn xs0 \<and> ys = take (limit n) xs0 \<and> xs = drop (limit n) xs0)))"
| "kpc_ok d sn xs h B (Push_lock bh bt bs) = (batch h B bh bs \<and> bs \<noteq> [] \<and> bt = last bs)"
| "kpc_ok d sn xs h B (Push_term bh bt bs) = (batch h B bh bs \<and> bs \<noteq> [] \<and> bt = last bs \<and> (d \<or> pushed sn bs [] xs))"
| "kpc_ok d sn xs h B (Push_node node bs) =
     (\<exists>dn td. bs = dn @ td \<and> chain h node td \<and> set td \<subseteq> B \<and> (d \<or> pushed sn bs dn xs))"
| "kpc_ok d sn xs h B (Push_one node nxt bs) =
     (\<exists>dn td. bs = dn @ node # td \<and> node \<noteq> nullptr \<and> node \<notin> set td \<and> chain h nxt td \<and> set (node # td) \<subseteq> B
        \<and> (d \<or> pushed sn bs dn xs))"
| "kpc_ok d sn xs h B (Push_unlock bs) = (d \<or> pushed sn bs bs xs)"
| "kpc_ok d sn xs h B _ = True"

definition owners_ok :: "bulk_state \<Rightarrow> addr list \<Rightarrow> bool" where
  "owners_ok s xs = (fl_holds (bka s) (bkh s) xs \<and> nullptr \<notin> dom (bkh s) \<and> (\<forall>t. bkown s t \<inter> set xs = {})
     \<and> (\<forall>t u. t \<noteq> u \<longrightarrow> bkown s t \<inter> bkown s u = {}) \<and> set xs \<union> (\<Union>t. bkown s t) = dom (bkh s))"

definition lock_ok :: "bulk_state \<Rightarrow> bool" where
  "lock_ok s = ((\<forall>t u. in_section (bkpc s t) \<longrightarrow> in_section (bkpc s u) \<longrightarrow> t = u)
     \<and> bulk_lock (bka s) = (\<exists>t. in_section (bkpc s t)))"

definition bk_inv :: "bool \<Rightarrow> bulk_state \<Rightarrow> addr list \<Rightarrow> bool" where
  "bk_inv d s xs = (owners_ok s xs \<and> lock_ok s \<and> (\<forall>t. kpc_ok d (snap s) xs (bkh s) (bkown s t) (bkpc s t)))"

definition bk_safe :: "bool \<Rightarrow> bulk_state \<Rightarrow> bool" where
  "bk_safe d s = (\<exists>xs. bk_inv d s xs)"

lemma bk_init_inv: "bk_init s \<Longrightarrow> bk_inv d s []"
  by (auto simp: bk_init_def bk_inv_def owners_ok_def lock_ok_def fl_new_holds) (auto simp: FreelistAllocator_new_def)

section \<open>Every step keeps the invariant\<close>

lemma batch_frame: "batch h B p zs \<Longrightarrow> (\<And>x. x \<in> B \<Longrightarrow> h' x = h x) \<Longrightarrow> B \<subseteq> B' \<Longrightarrow> batch h' B' p zs"
  unfolding batch_def using seg_frame [of zs h' h p] by blast

lemma chain_frame: "chain h p zs \<Longrightarrow> set zs \<subseteq> B \<Longrightarrow> (\<And>x. x \<in> B \<Longrightarrow> h' x = h x) \<Longrightarrow> chain h' p zs"
  using seg_frame [of zs h' h p] by blast

lemma kpc_ok_frame:
  assumes "kpc_ok d sn xs h B l" and h: "\<And>x. x \<in> B \<Longrightarrow> h' x = h x" and B: "B \<subseteq> B'"
    and e: "in_section l \<Longrightarrow> d \<or> xs' = xs \<and> sn' = sn"
  shows "kpc_ok d sn' xs' h' B' l"
  using assms(1)
proof (cases l)
  case (Push_node node bs)
  then show ?thesis using assms(1) e B chain_frame [OF _ _ h] by fastforce
next
  case (Push_one node nxt bs)
  then show ?thesis using assms(1) e B chain_frame [OF _ _ h] by fastforce
next
  case (Pop_unlock start n)
  then show ?thesis using assms(1) e B chain_frame [OF _ _ h] by fastforce
next
  case (Pop_more start tail count n)
  then show ?thesis using assms(1) e batch_frame [OF _ h B] by fastforce
next
  case (Pop_link start tail nxt count n)
  then show ?thesis using assms(1) e B batch_frame [OF _ h B] by fastforce
next
  case (Pop_term start tail n)
  then show ?thesis using assms(1) e batch_frame [OF _ h B] by fastforce
qed (use e batch_frame [OF _ h B] in auto)

lemma inv_act:
  assumes inv: "bk_inv d s xs" and eqs: "bkpc s' = (bkpc s)(t := l)" "bkown s' = (bkown s)(t := B)"
    and hold: "fl_holds (bka s') (bkh s') xs'" and dm: "dom (bkh s') = dom (bkh s)"
    and fr: "\<And>x. x \<notin> bkown s t \<Longrightarrow> bkh s' x = bkh s x"
    and pl: "set xs' \<union> B = set xs \<union> bkown s t" "B \<inter> set xs' = {}"
    and ok: "kpc_ok d (snap s') xs' (bkh s') B l"
    and oth: "\<And>u. u \<noteq> t \<Longrightarrow> in_section (bkpc s u) \<Longrightarrow> d \<or> xs' = xs \<and> snap s' = snap s" and lk: "lock_ok s'"
  shows "bk_inv d s' xs'"
proof -
  have own: "owners_ok s xs" and pcs: "\<And>u. kpc_ok d (snap s) xs (bkh s) (bkown s u) (bkpc s u)"
    using inv by (simp_all add: bk_inv_def)
  have apart: "bkown s u \<inter> (set xs \<union> bkown s t) = {}" if "u \<noteq> t" for u
    using own that unfolding owners_ok_def by blast
  have new: "bkown s u \<inter> set xs' = {}" "bkown s u \<inter> B = {}" if "u \<noteq> t" for u
    using apart [OF that] pl(1) by blast+
  then have "bkown s' u \<inter> set xs' = {}" for u using pl(2) by (simp add: eqs)
  moreover have "bkown s' u \<inter> bkown s' v = {}" if "u \<noteq> v" for u v
  proof -
    have "bkown s u \<inter> bkown s v = {}" using own that by (simp add: owners_ok_def)
    then show ?thesis using new(2) [of u] new(2) [of v] that by (auto simp: eqs)
  qed
  moreover have "set xs' \<union> (\<Union>u. bkown s' u) = dom (bkh s)"
  proof -
    have "(\<Union>u. bkown s' u) = B \<union> (\<Union>u \<in> - {t}. bkown s u)" "(\<Union>u. bkown s u) = bkown s t \<union> (\<Union>u \<in> - {t}. bkown s u)"
      unfolding eqs by auto
    then show ?thesis using own pl(1) unfolding owners_ok_def by (metis sup_assoc)
  qed
  ultimately have "owners_ok s' xs'"
    using own hold dm by (simp add: owners_ok_def)
  moreover have "kpc_ok d (snap s') xs' (bkh s') (bkown s' u) (bkpc s' u)" for u
  proof (cases "u = t")
    case False
    have "bkh s' x = bkh s x" if "x \<in> bkown s u" for x using fr apart [OF False] that by blast
    with kpc_ok_frame [OF pcs [of u] _ subset_refl] oth [OF False] show ?thesis using False by (simp add: eqs)
  qed (use ok in \<open>simp add: eqs\<close>)
  ultimately show ?thesis using lk by (simp add: bk_inv_def)
qed

text \<open>A step inside the section, and a step outside it.\<close>

lemma inv_in:
  assumes inv: "bk_inv d s xs" and eqs: "bkpc s' = (bkpc s)(t := l)" "bkown s' = (bkown s)(t := B)"
    and sec: "in_section (bkpc s t)" "in_section l" "bulk_lock (bka s') = bulk_lock (bka s)"
    and hold: "fl_holds (bka s') (bkh s') xs'" and dm: "dom (bkh s') = dom (bkh s)"
    and fr: "\<And>x. x \<notin> bkown s t \<Longrightarrow> bkh s' x = bkh s x"
    and pl: "set xs' \<union> B = set xs \<union> bkown s t" "B \<inter> set xs' = {}"
    and ok: "kpc_ok d (snap s') xs' (bkh s') B l"
  shows "bk_inv d s' xs'"
proof (rule inv_act [OF inv eqs hold dm fr pl ok])
  have lk: "lock_ok s" using inv by (simp add: bk_inv_def)
  then show "lock_ok s'" using sec by (auto simp: lock_ok_def eqs)
  show "d \<or> xs' = xs \<and> snap s' = snap s" if "u \<noteq> t" "in_section (bkpc s u)" for u
    using lk sec(1) that by (auto simp: lock_ok_def)
qed

lemma inv_out:
  assumes inv: "bk_inv d s xs" and eqs: "bkpc s' = (bkpc s)(t := l)" "bkown s' = (bkown s)(t := B)"
    and sec: "\<not> in_section (bkpc s t)" "\<not> in_section l" "bulk_lock (bka s') = bulk_lock (bka s)"
    and same: "d \<or> xs' = xs" "snap s' = snap s"
    and hold: "fl_holds (bka s') (bkh s') xs'" and dm: "dom (bkh s') = dom (bkh s)"
    and fr: "\<And>x. x \<notin> bkown s t \<Longrightarrow> bkh s' x = bkh s x"
    and pl: "set xs' \<union> B = set xs \<union> bkown s t" "B \<inter> set xs' = {}"
    and ok: "kpc_ok d (snap s') xs' (bkh s') B l"
  shows "bk_inv d s' xs'"
proof (rule inv_act [OF inv eqs hold dm fr pl ok])
  have lk: "lock_ok s" using inv by (simp add: bk_inv_def)
  then show "lock_ok s'" using sec by (auto simp: lock_ok_def eqs)
  show "d \<or> xs' = xs \<and> snap s' = snap s" using same by simp
qed

lemma bk_invD:
  assumes "bk_inv d s xs"
  shows "fl_holds (bka s) (bkh s) xs" "nullptr \<notin> dom (bkh s)" "bkown s t \<inter> set xs = {}" "bkown s t \<subseteq> dom (bkh s)"
    "lock_ok s" "bkpc s t = l \<Longrightarrow> kpc_ok d (snap s) xs (bkh s) (bkown s t) l"
  using assms unfolding bk_inv_def owners_ok_def by auto

text \<open>What a single \<^verbatim>\<open>pop\<close> or \<^verbatim>\<open>push\<close> does in a state with the invariant.\<close>

lemma inv_popE:
  assumes inv: "bk_inv d s xs" and p: "pop (bka s) (bkh s) = Some (p, a)"
  obtains (empty) "p = nullptr" "xs = []" "a = bka s"
  | (top) ys where "p \<noteq> nullptr" "xs = p # ys" "fl_holds a (bkh s) ys" "bulk_lock a = bulk_lock (bka s)"
      "p \<notin> bkown s t" "p \<notin> set ys" "p \<in> dom (bkh s)"
proof (cases xs)
  case Nil
  then show thesis using pop_holds_Nil [of "bka s" "bkh s"] bk_invD(1) [OF inv] p empty by simp
next
  case (Cons x ys)
  have h: "fl_holds (bka s) (bkh s) (x # ys)" using bk_invD(1) [OF inv] Cons by simp
  then obtain a' where "pop (bka s) (bkh s) = Some (x, a')" "fl_holds a' (bkh s) ys" "bulk_lock a' = bulk_lock (bka s)"
    by (rule pop_holds_Cons)
  then show thesis
    using p top Cons fl_holds_distinct [OF h] fl_holds_dom [OF h] bk_invD(3) [OF inv, of t] by auto
qed

lemma inv_push:
  assumes inv: "bk_inv d s xs" and n: "p \<in> bkown s t" and p: "push (bka s) (bkh s) p = Some (a, h)"
  shows "fl_holds a h (p # xs)" "bulk_lock a = bulk_lock (bka s)" "h = (bkh s)(p \<mapsto> ptr (head (bka s)))"
    "dom h = dom (bkh s)" "p \<notin> set xs"
proof -
  have q: "p \<in> dom (bkh s)" "p \<noteq> nullptr" "p \<notin> set xs" using bk_invD(2) [OF inv] bk_invD(3,4) [OF inv, of t] n by auto
  obtain a' where "push (bka s) (bkh s) p = Some (a', (bkh s)(p \<mapsto> ptr (head (bka s))))"
    "fl_holds a' ((bkh s)(p \<mapsto> ptr (head (bka s)))) (p # xs)" "bulk_lock a' = bulk_lock (bka s)"
    using push_holds [OF bk_invD(1) [OF inv] q] by blast
  moreover have "dom ((bkh s)(p \<mapsto> v)) = dom (bkh s)" for v using q(1) by auto
  ultimately show "fl_holds a h (p # xs)" "bulk_lock a = bulk_lock (bka s)" "h = (bkh s)(p \<mapsto> ptr (head (bka s)))"
    "dom h = dom (bkh s)" "p \<notin> set xs" using p q(3) by simp_all
qed

subsection \<open>Batches\<close>

lemma batch_single: "p \<in> dom h \<Longrightarrow> p \<noteq> nullptr \<Longrightarrow> batch h (insert p B) p ([] @ [p])"
  by (auto simp: batch_def)

lemma batch_last: "batch h B p (ys @ [t]) \<Longrightarrow> t \<in> B \<and> t \<noteq> nullptr \<and> t \<in> dom h"
  unfolding batch_def using seg_last by fastforce

lemma batch_link:
  assumes "batch h B p (ys @ [t])" "x \<in> B - set (ys @ [t])" "x \<in> dom h" "x \<noteq> nullptr"
  shows "batch (h(t \<mapsto> x)) B p ((ys @ [t]) @ [x])"
proof -
  obtain q where q: "seg h p (ys @ [t]) q" "distinct (ys @ [t])" "set (ys @ [t]) \<subseteq> B"
    using assms(1) by (auto simp: batch_def)
  have "seg (h(t \<mapsto> x)) p ((ys @ [t]) @ [x]) (the (h x))"
    by (rule seg_link [OF q(1,2)]) (use assms(2-4) in auto)
  moreover have "distinct ((ys @ [t]) @ [x])" "set ((ys @ [t]) @ [x]) \<subseteq> B" using q(2,3) assms(2) by auto
  ultimately show ?thesis unfolding batch_def by blast
qed

lemma batch_term: "batch h B p (ys @ [t]) \<Longrightarrow> chain (h(t \<mapsto> nullptr)) p (ys @ [t]) \<and> set (ys @ [t]) \<subseteq> B"
  unfolding batch_def using seg_snoc_upd by blast

lemma limit_ge1: "1 \<le> limit n"
  by (simp add: limit_def)

text \<open>A thread's write into a block it owns does not touch the freelist.\<close>

lemma own_write:
  assumes "bk_inv d s xs" "p \<in> bkown s t"
  shows "fl_holds (bka s) ((bkh s)(p \<mapsto> v)) xs" "dom ((bkh s)(p \<mapsto> v)) = dom (bkh s)"
    "\<And>x. x \<notin> bkown s t \<Longrightarrow> ((bkh s)(p \<mapsto> v)) x = bkh s x"
proof -
  have p: "p \<notin> set xs" "p \<in> dom (bkh s)" using bk_invD(3,4) [OF assms(1), of t] assms(2) by auto
  show "fl_holds (bka s) ((bkh s)(p \<mapsto> v)) xs"
    by (rule fl_holds_frame [OF bk_invD(1) [OF assms(1)]]) (use p in auto)
  show "dom ((bkh s)(p \<mapsto> v)) = dom (bkh s)" using p(2) by auto
  show "((bkh s)(p \<mapsto> v)) x = bkh s x" if "x \<notin> bkown s t" for x using that assms(2) by auto
qed

subsection \<open>The steps of \<^verbatim>\<open>pop_bulk\<close>\<close>

lemma pop_first_inv:
  assumes inv: "bk_inv d s xs" and t: "bkpc s t = Pop_first n" and p: "pop (bka s) (bkh s) = Some (p, a)" "p \<noteq> nullptr"
  shows "bk_safe d (kgoto t (Pop_more p p 1 n) (kown t (insert p (bkown s t)) (kset a (bkh s) s)))" (is "bk_safe d ?s'")
proof (rule inv_popE [OF inv p(1), where t = t])
  fix ys assume y: "xs = p # ys" "fl_holds a (bkh s) ys" "bulk_lock a = bulk_lock (bka s)" "p \<notin> bkown s t" "p \<notin> set ys" "p \<in> dom (bkh s)"
  have "bk_inv d ?s' ys"
  proof (rule inv_in [OF inv, where t = t and l = "Pop_more p p 1 n" and B = "insert p (bkown s t)"])
    have "d \<or> was (snap s) ([] @ p # ys)" using bk_invD(6) [OF inv t] y(1) by simp
    moreover have "batch (bkh s) (insert p (bkown s t)) p ([] @ [p])" by (rule batch_single) (use y p in auto)
    ultimately show "kpc_ok d (snap ?s') ys (bkh ?s') (insert p (bkown s t)) (Pop_more p p 1 n)"
      using limit_ge1 [of n] by (auto simp: state_defs intro!: exI [of _ "[]"])
  qed (use t y bk_invD(3) [OF inv, of t] in \<open>auto simp: state_defs\<close>)
  then show ?thesis by (auto simp: bk_safe_def)
qed (use p in simp)

lemma pop_first_null_inv:
  assumes inv: "bk_inv d s xs" and t: "bkpc s t = Pop_first n" and p: "pop (bka s) (bkh s) = Some (nullptr, a)"
  shows "bk_safe d (kgoto t (Pop_unlock nullptr n) (kset a (bkh s) s))" (is "bk_safe d ?s'")
proof (rule inv_popE [OF inv p, where t = t])
  assume e: "xs = []" "a = bka s"
  have "bk_inv d ?s' []"
    by (rule inv_in [OF inv, where t = t and l = "Pop_unlock nullptr n" and B = "bkown s t"])
      (use t e bk_invD(1) [OF inv] bk_invD(6) [OF inv t] in \<open>auto simp: state_defs intro!: exI [of _ "[]"]\<close>)
  then show ?thesis by (auto simp: bk_safe_def)
qed simp

lemma pop_more_stop_inv:
  assumes inv: "bk_inv d s xs" and t: "bkpc s t = Pop_more start tail count n" and stop: "\<not> count < n \<or> xs = []"
  shows "bk_safe d (kgoto t (Pop_term start tail n) s)" (is "bk_safe d ?s'")
proof -
  obtain ys where ys: "batch (bkh s) (bkown s t) start (ys @ [tail])" "Suc (length ys) = unat count" "unat count \<le> limit n"
    "d \<or> was (snap s) (ys @ tail # xs)" using bk_invD(6) [OF inv t] by auto
  have "xs = [] \<or> Suc (length ys) = limit n"
    using stop ys(2,3) by (auto simp: limit_def word_less_nat_alt)
  then have "kpc_ok d (snap s) xs (bkh s) (bkown s t) (Pop_term start tail n)" using ys by auto
  then have "bk_inv d ?s' xs"
    by (intro inv_in [OF inv, where t = t and l = "Pop_term start tail n" and B = "bkown s t"])
      (use t bk_invD(1) [OF inv] bk_invD(3) [OF inv, of t] in \<open>simp_all add: state_defs\<close>)
  then show ?thesis by (auto simp: bk_safe_def)
qed

lemma pop_more_inv:
  assumes inv: "bk_inv d s xs" and t: "bkpc s t = Pop_more start tail count n" "count < n"
    and p: "pop (bka s) (bkh s) = Some (p, a)" "p \<noteq> nullptr"
  shows "bk_safe d (kgoto t (Pop_link start tail p count n) (kown t (insert p (bkown s t)) (kset a (bkh s) s)))" (is "bk_safe d ?s'")
proof (rule inv_popE [OF inv p(1), where t = t])
  fix xs' assume y: "xs = p # xs'" "fl_holds a (bkh s) xs'" "bulk_lock a = bulk_lock (bka s)" "p \<notin> bkown s t" "p \<notin> set xs'"
  obtain ys where ys: "batch (bkh s) (bkown s t) start (ys @ [tail])" "Suc (length ys) = unat count"
    "d \<or> was (snap s) (ys @ tail # p # xs')" using bk_invD(6) [OF inv t(1)] y(1) by auto
  have "batch (bkh s) (insert p (bkown s t)) start (ys @ [tail])" by (rule batch_frame [OF ys(1)]) auto
  moreover have "p \<notin> set (ys @ [tail])" using ys(1) y(4) by (auto simp: batch_def)
  ultimately have "kpc_ok d (snap s) xs' (bkh s) (insert p (bkown s t)) (Pop_link start tail p count n)"
    using ys t(2) by auto
  then have "bk_inv d ?s' xs'"
    by (intro inv_in [OF inv, where t = t and l = "Pop_link start tail p count n" and B = "insert p (bkown s t)"])
      (use t y bk_invD(3) [OF inv, of t] in \<open>auto simp: state_defs\<close>)
  then show ?thesis by (auto simp: bk_safe_def)
qed (use p in simp)

lemma pop_link_inv:
  assumes inv: "bk_inv d s xs" and t: "bkpc s t = Pop_link start tail p count n" and h: "set_next (bkh s) tail p = Some h"
  shows "bk_safe d (kgoto t (Pop_more start p (count + 1) n) (kset (bka s) h s))" (is "bk_safe d ?s'")
proof -
  obtain ys where ys: "batch (bkh s) (bkown s t) start (ys @ [tail])" "Suc (length ys) = unat count" "count < n"
    "p \<in> bkown s t - set (ys @ [tail])" "d \<or> was (snap s) (ys @ tail # p # xs)" using bk_invD(6) [OF inv t] by auto
  have tl: "tail \<in> bkown s t" using batch_last [OF ys(1)] by simp
  have h: "h = (bkh s)(tail \<mapsto> p)" using h by simp
  have p: "p \<in> dom (bkh s)" "p \<noteq> nullptr" using bk_invD(2) [OF inv] bk_invD(4) [OF inv, of t] ys(4) by auto
  have "batch h (bkown s t) start ((ys @ [tail]) @ [p])" unfolding h by (rule batch_link [OF ys(1,4) p])
  moreover have c: "unat (count + 1) = Suc (unat count)" using unat_plus1_64 [OF ys(3)] by simp
  moreover have "unat (count + 1) \<le> limit n" using c ys(3) by (simp add: limit_def word_less_nat_alt)
  ultimately have "kpc_ok d (snap s) xs h (bkown s t) (Pop_more start p (count + 1) n)"
    using ys by (auto intro!: exI [of _ "ys @ [tail]"])
  then have "bk_inv d ?s' xs"
    by (intro inv_in [OF inv, where t = t and l = "Pop_more start p (count + 1) n" and B = "bkown s t"])
      (use t own_write [OF inv tl] bk_invD(3) [OF inv, of t] in \<open>simp_all add: state_defs h\<close>)
  then show ?thesis by (auto simp: bk_safe_def)
qed

lemma pop_term_inv:
  assumes inv: "bk_inv d s xs" and t: "bkpc s t = Pop_term start tail n" and h: "set_next (bkh s) tail nullptr = Some h"
  shows "bk_safe d (kgoto t (Pop_unlock start n) (kset (bka s) h s))" (is "bk_safe d ?s'")
proof -
  obtain ys where ys: "batch (bkh s) (bkown s t) start (ys @ [tail])" "Suc (length ys) \<le> limit n"
    "d \<or> was (snap s) (ys @ tail # xs) \<and> (xs = [] \<or> Suc (length ys) = limit n)" using bk_invD(6) [OF inv t] by auto
  have tl: "tail \<in> bkown s t" using batch_last [OF ys(1)] by simp
  have h: "h = (bkh s)(tail \<mapsto> nullptr)" using h by simp
  have c: "chain h start (ys @ [tail])" "set (ys @ [tail]) \<subseteq> bkown s t" using batch_term [OF ys(1)] h by auto
  have "ys @ [tail] = take (limit n) (ys @ tail # xs) \<and> xs = drop (limit n) (ys @ tail # xs)"
    if "xs = [] \<or> Suc (length ys) = limit n"
  proof -
    have "limit n - length ys = Suc (limit n - Suc (length ys))" using ys(2) by simp
    with that show ?thesis by auto
  qed
  then have "d \<or> (\<exists>xs0. was (snap s) xs0 \<and> ys @ [tail] = take (limit n) xs0 \<and> xs = drop (limit n) xs0)"
    using ys(3) by blast
  then have "kpc_ok d (snap s) xs h (bkown s t) (Pop_unlock start n)"
    unfolding kpc_ok.simps using c ys(2) by (intro exI [of _ "ys @ [tail]"]) simp
  then have "bk_inv d ?s' xs"
    by (intro inv_in [OF inv, where t = t and l = "Pop_unlock start n" and B = "bkown s t"])
      (use t own_write [OF inv tl] bk_invD(3) [OF inv, of t] in \<open>simp_all add: state_defs h\<close>)
  then show ?thesis by (auto simp: bk_safe_def)
qed

subsection \<open>The steps of \<^verbatim>\<open>push_bulk\<close>\<close>

lemma push_nodeI:
  "bs = dn @ td \<Longrightarrow> chain h node td \<Longrightarrow> set td \<subseteq> B \<Longrightarrow> d \<or> pushed sn bs dn xs \<Longrightarrow>
     kpc_ok d sn xs h B (Push_node node bs)"
  unfolding kpc_ok.simps by blast

lemma push_oneI:
  "bs = dn @ node # td \<Longrightarrow> node \<noteq> nullptr \<Longrightarrow> node \<notin> set td \<Longrightarrow> chain h nxt td \<Longrightarrow> set (node # td) \<subseteq> B \<Longrightarrow>
     d \<or> pushed sn bs dn xs \<Longrightarrow> kpc_ok d sn xs h B (Push_one node nxt bs)"
  unfolding kpc_ok.simps by blast

lemma push_term_inv:
  assumes inv: "bk_inv d s xs" and t: "bkpc s t = Push_term bh bt bs" and h: "set_next (bkh s) bt nullptr = Some h"
  shows "bk_safe d (kgoto t (Push_node bh bs) (kset (bka s) h s))" (is "bk_safe d ?s'")
proof -
  have ok: "batch (bkh s) (bkown s t) bh bs" "bs \<noteq> []" "bt = last bs" "d \<or> pushed (snap s) bs [] xs"
    using bk_invD(6) [OF inv t] by auto
  then have b: "batch (bkh s) (bkown s t) bh (butlast bs @ [bt])" by simp
  have h: "h = (bkh s)(bt \<mapsto> nullptr)" using h by simp
  have bt: "bt \<in> bkown s t" using batch_last [OF b] by simp
  have "chain h bh bs" "set bs \<subseteq> bkown s t" using batch_term [OF b] h ok(2,3) by auto
  then have "kpc_ok d (snap s) xs h (bkown s t) (Push_node bh bs)"
    using ok(4) by (intro push_nodeI [of bs "[]" bs]) auto
  then have "bk_inv d ?s' xs"
    by (intro inv_in [OF inv, where t = t and l = "Push_node bh bs" and B = "bkown s t"])
      (use t own_write [OF inv bt] bk_invD(3) [OF inv, of t] in \<open>simp_all add: state_defs h\<close>)
  then show ?thesis by (auto simp: bk_safe_def)
qed

lemma section_goto:
  assumes "bk_inv d s xs" "in_section (bkpc s t)" "in_section l" "kpc_ok d (snap s) xs (bkh s) (bkown s t) l"
  shows "bk_safe d (kgoto t l s)"
proof -
  have "bk_inv d (kgoto t l s) xs"
    by (rule inv_in [OF assms(1), where t = t and l = l and B = "bkown s t"])
      (use assms bk_invD(1) [OF assms(1)] bk_invD(3) [OF assms(1), of t] in \<open>simp_all add: state_defs\<close>)
  then show ?thesis by (auto simp: bk_safe_def)
qed

lemma push_node_done_inv:
  assumes inv: "bk_inv d s xs" and t: "bkpc s t = Push_node nullptr bs"
  shows "bk_safe d (kgoto t (Push_unlock bs) s)"
  by (rule section_goto [OF inv]) (use t bk_invD(6) [OF inv t] in auto)

lemma push_node_inv:
  assumes inv: "bk_inv d s xs" and t: "bkpc s t = Push_node node bs" "node \<noteq> nullptr" and g: "get_next (bkh s) node = Some nxt"
  shows "bk_safe d (kgoto t (Push_one node nxt bs) s)"
proof (rule section_goto [OF inv])
  obtain dn td where k: "bs = dn @ td" "chain (bkh s) node td" "set td \<subseteq> bkown s t"
    "d \<or> pushed (snap s) bs dn xs" using bk_invD(6) [OF inv t(1)] by auto
  then obtain td' where td: "td = node # td'" "chain (bkh s) nxt td'"
    using t(2) g by (auto simp: chain_nonnull)
  moreover have "node \<notin> set td'" using chain_distinct [OF k(2)] td(1) by simp
  ultimately show "kpc_ok d (snap s) xs (bkh s) (bkown s t) (Push_one node nxt bs)"
    using k t(2) by (intro push_oneI [of bs dn node td']) simp_all
qed (use t in simp_all)

lemma push_one_inv:
  assumes inv: "bk_inv d s xs" and t: "bkpc s t = Push_one node nxt bs" and p: "push (bka s) (bkh s) node = Some (a, h)"
  shows "bk_safe d (kgoto t (Push_node nxt bs) (kown t (bkown s t - {node}) (kset a h s)))" (is "bk_safe d ?s'")
proof -
  obtain dn td where k: "bs = dn @ node # td" "node \<notin> set td" "chain (bkh s) nxt td" "set (node # td) \<subseteq> bkown s t"
    "d \<or> pushed (snap s) bs dn xs" using bk_invD(6) [OF inv t] by auto
  have n: "node \<in> bkown s t" using k(4) by simp
  note pu = inv_push [OF inv n p]
  have "chain h nxt td" using k(2,3) pu(3) by simp
  then have "kpc_ok d (snap s) (node # xs) h (bkown s t - {node}) (Push_node nxt bs)"
    using k by (intro push_nodeI [of bs "dn @ [node]" td]) (auto simp: pushed_def)
  then have "bk_inv d ?s' (node # xs)"
    by (intro inv_in [OF inv, where t = t and l = "Push_node nxt bs" and B = "bkown s t - {node}"])
      (use t n pu bk_invD(3) [OF inv, of t] in \<open>auto simp: state_defs\<close>)
  then show ?thesis by (auto simp: bk_safe_def)
qed

subsection \<open>The mutex and the steps outside a bulk call\<close>

lemma acquire_inv:
  assumes inv: "bk_inv d s xs" and free: "\<not> bulk_lock (bka s)" and l: "in_section l"
    and ok: "was (bka s, bkh s) xs \<Longrightarrow> kpc_ok d (bka s, bkh s) xs (bkh s) (bkown s t) l"
  shows "bk_safe d (kgoto t l (lock s))" (is "bk_safe d ?s'")
proof -
  have none: "\<not> in_section (bkpc s u)" for u using bk_invD(5) [OF inv] free by (auto simp: lock_ok_def)
  have "bk_inv d ?s' xs"
  proof (rule inv_act [OF inv, where t = t and l = l and B = "bkown s t"])
    show "lock_ok ?s'" using none l by (auto simp: lock_ok_def state_defs)
    show "kpc_ok d (snap ?s') xs (bkh ?s') (bkown s t) l"
      using ok bk_invD(1) [OF inv] free by (simp add: state_defs was_def)
  qed (use none bk_invD(1) [OF inv] bk_invD(3) [OF inv, of t] in \<open>simp_all add: state_defs\<close>)
  then show ?thesis by (auto simp: bk_safe_def)
qed

lemma release_inv:
  assumes inv: "bk_inv d s xs" and t: "in_section (bkpc s t)"
  shows "bk_safe d (kgoto t KIdle (unlock s))" (is "bk_safe d ?s'")
proof -
  have lk: "lock_ok s" by (rule bk_invD(5) [OF inv])
  have "bk_inv d ?s' xs"
  proof (rule inv_act [OF inv, where t = t and l = KIdle and B = "bkown s t"])
    show "lock_ok ?s'" using lk t by (auto simp: lock_ok_def state_defs)
  qed (use lk t bk_invD(1) [OF inv] bk_invD(3) [OF inv, of t] in \<open>auto simp: lock_ok_def state_defs\<close>)
  then show ?thesis by (auto simp: bk_safe_def)
qed

lemma outside_goto:
  assumes "bk_inv d s xs" "\<not> in_section (bkpc s t)" "\<not> in_section l" "kpc_ok d (snap s) xs (bkh s) (bkown s t) l"
  shows "bk_safe d (kgoto t l s)"
proof -
  have "bk_inv d (kgoto t l s) xs"
    by (rule inv_out [OF assms(1), where t = t and l = l and B = "bkown s t"])
      (use assms bk_invD(1) [OF assms(1)] bk_invD(3) [OF assms(1), of t] in \<open>simp_all add: state_defs\<close>)
  then show ?thesis by (auto simp: bk_safe_def)
qed

lemma bulk_write_inv:
  assumes inv: "bk_inv d s xs" and t: "bkpc s t = KIdle" "p \<in> bkown s t"
  shows "bk_safe d (kset (bka s) ((bkh s)(p \<mapsto> v)) s)" (is "bk_safe d ?s'")
proof -
  have "bk_inv d ?s' xs"
    by (rule inv_out [OF inv, where t = t and l = KIdle and B = "bkown s t"])
      (use t own_write [OF inv t(2)] bk_invD(3) [OF inv, of t] in \<open>simp_all add: state_defs fun_upd_idem\<close>)
  then show ?thesis by (auto simp: bk_safe_def)
qed

lemma bulk_give_inv:
  assumes inv: "bk_inv d s xs" and t: "bkpc s t = KIdle" "p \<in> bkown s t" "t \<noteq> u"
  shows "bk_safe d (kown u (insert p (bkown s u)) (kown t (bkown s t - {p}) s))" (is "bk_safe d ?s'")
proof -
  have own: "owners_ok s xs" using inv by (simp add: bk_inv_def)
  have o: "bkown ?s' v = (if v = u then insert p (bkown s u) else if v = t then bkown s t - {p} else bkown s v)" for v
    using t(3) by (simp add: kown_def)
  have disj: "v \<noteq> w \<Longrightarrow> bkown s v \<inter> bkown s w = {}" for v w using own by (simp add: owners_ok_def)
  have "v \<noteq> w \<Longrightarrow> bkown ?s' v \<inter> bkown ?s' w = {}" for v w
    using disj [of v w] disj [of v t] disj [of t w] t(2,3) unfolding o by auto
  moreover have "bkown ?s' v \<inter> set xs = {}" for v
    using bk_invD(3) [OF inv, of v] bk_invD(3) [OF inv, of t] t(2) unfolding o by auto
  moreover have "(\<Union>v. bkown ?s' v) = (\<Union>v. bkown s v)" using t(2,3) unfolding o by (auto split: if_splits)
  ultimately have "owners_ok ?s' xs" using own by (simp add: owners_ok_def) (simp add: kown_def)
  moreover have "kpc_ok d (snap ?s') xs (bkh ?s') (bkown ?s' v) (bkpc ?s' v)" for v
  proof (cases "v = t")
    case True
    then show ?thesis using t by (simp add: kown_def)
  next
    case False
    then have "bkown s v \<subseteq> bkown ?s' v" unfolding o by auto
    from kpc_ok_frame [OF bk_invD(6) [OF inv refl, of v] _ this] show ?thesis by (simp add: kown_def)
  qed
  moreover have "lock_ok ?s'" using bk_invD(5) [OF inv] by (simp add: lock_ok_def kown_def)
  ultimately show ?thesis by (auto simp: bk_safe_def bk_inv_def)
qed

lemma direct_push_inv:
  assumes inv: "bk_inv True s xs" and t: "bkpc s t = KIdle" "p \<in> bkown s t" and p: "push (bka s) (bkh s) p = Some (a, h)"
  shows "bk_safe True (kown t (bkown s t - {p}) (kset a h s))" (is "bk_safe True ?s'")
proof -
  have "bk_inv True ?s' (p # xs)"
    by (rule inv_out [OF inv, where t = t and l = KIdle and B = "bkown s t - {p}"])
      (use t inv_push [OF inv t(2) p] bk_invD(3) [OF inv, of t] in \<open>auto simp: state_defs\<close>)
  then show ?thesis by (auto simp: bk_safe_def)
qed

lemma direct_pop_inv:
  assumes inv: "bk_inv True s xs" and t: "bkpc s t = KIdle" and p: "pop (bka s) (bkh s) = Some (p, a)"
  shows "bk_safe True (kown t (bkown s t \<union> ({p} - {nullptr})) (kset a (bkh s) s))" (is "bk_safe True ?s'")
proof (rule inv_popE [OF inv p, where t = t])
  assume e: "p = nullptr" "xs = []" "a = bka s"
  then have "?s' = s" by (simp add: state_defs)
  then show ?thesis using inv by (auto simp: bk_safe_def)
next
  fix ys assume y: "p \<noteq> nullptr" "xs = p # ys" "fl_holds a (bkh s) ys" "bulk_lock a = bulk_lock (bka s)" "p \<notin> set ys"
  have "bk_inv True ?s' ys"
    by (rule inv_out [OF inv, where t = t and l = KIdle and B = "insert p (bkown s t)"])
      (use t y bk_invD(3) [OF inv, of t] in \<open>auto simp: state_defs\<close>)
  then show ?thesis by (auto simp: bk_safe_def)
qed

lemma pop_more_null_inv:
  assumes inv: "bk_inv d s xs" and t: "bkpc s t = Pop_more start tail count n" and p: "pop (bka s) (bkh s) = Some (nullptr, a)"
  shows "bk_safe d (kgoto t (Pop_term start tail n) (kset a (bkh s) s))"
proof (rule inv_popE [OF inv p, where t = t])
  assume e: "xs = []" "a = bka s"
  then have "kset a (bkh s) s = s" by (simp add: kset_def)
  then show ?thesis using pop_more_stop_inv [OF inv t] e(1) by simp
qed simp

lemma bk_step_safe: "bk_step d s s' \<Longrightarrow> bk_safe d s \<Longrightarrow> bk_safe d s'"
proof -
  assume st: "bk_step d s s'" and "bk_safe d s"
  then obtain xs where inv: "bk_inv d s xs" by (auto simp: bk_safe_def)
  from st show ?thesis
  proof (cases rule: bk_step.cases)
    case (call_push_bulk t bh ys bt)
    then show ?thesis using outside_goto [OF inv, of t] by simp
  next
    case (push_acquire t bh bt bs)
    have ok: "batch (bkh s) (bkown s t) bh bs" "bs \<noteq> []" "bt = last bs" using bk_invD(6) [OF inv push_acquire(2)] by auto
    then have "bh = hd bs" by (cases bs) (auto simp: batch_def)
    then have "pushed (bka s, bkh s) bs [] xs" if "was (bka s, bkh s) xs"
      using that ok bk_invD(3) [OF inv, of t] by (auto simp: pushed_def batch_def)
    with ok push_acquire show ?thesis by (auto intro!: acquire_inv [OF inv])
  next
    case (pop_acquire t n)
    then show ?thesis by (auto intro!: acquire_inv [OF inv])
  next
    case (direct_push t p a h)
    then show ?thesis using direct_push_inv inv by simp
  next
    case (direct_pop t p a)
    then show ?thesis using direct_pop_inv inv by simp
  qed (use inv in \<open>auto intro: bulk_write_inv bulk_give_inv outside_goto pop_first_inv pop_first_null_inv pop_more_stop_inv
      pop_more_null_inv pop_more_inv pop_link_inv pop_term_inv release_inv push_term_inv push_node_done_inv push_node_inv
      push_one_inv simp del: set_next_Some get_next_Some\<close>)
qed

interpretation bk: interleaving bk_init "bk_step d" "bk_safe d" for d
proof unfold_locales
  show "bk_safe d s" if "bk_init s" for s using bk_init_inv [OF that] by (auto simp: bk_safe_def)
  show "bk_safe d s'" if "bk_step d s s'" "bk_safe d s" for s s' using that by (rule bk_step_safe)
qed

lemma reach_bk_inv: "reach bk_init (bk_step d) s \<Longrightarrow> \<exists>xs. bk_inv d s xs"
  using bk.reach_invariant by (simp add: bk_safe_def)

section \<open>An execution\<close>

text \<open>Thread 0 gives back the batch of one block 64; then thread 1 asks for two blocks and gets that one.\<close>

definition kst :: "addr \<Rightarrow> u64 \<Rightarrow> bool \<Rightarrow> addr \<Rightarrow> tid \<Rightarrow> bkpc \<Rightarrow> (tid \<Rightarrow> addr set) \<Rightarrow> FreelistAllocator \<times> heap \<Rightarrow> bulk_state" where
  "kst hp tg lk nx t l own sn = \<lparr>bka = \<lparr>head = \<lparr>ptr = hp, tag = tg\<rparr>, bulk_lock = lk\<rparr>, bkh = [64 \<mapsto> nx],
     bkpc = (\<lambda>_. KIdle)(t := l), bkown = own, snap = sn\<rparr>"

definition sn0 :: "FreelistAllocator \<times> heap" where
  "sn0 = (FreelistAllocator_new, [64 \<mapsto> 5])"

definition sn1 :: "FreelistAllocator \<times> heap" where
  "sn1 = (\<lparr>head = \<lparr>ptr = 64, tag = 1\<rparr>, bulk_lock = False\<rparr>, [64 \<mapsto> 0])"

definition own0 :: "tid \<Rightarrow> addr set" where
  "own0 = (\<lambda>_. {})(0 := {64})"

definition own1 :: "tid \<Rightarrow> addr set" where
  "own1 = (\<lambda>_. {})(1 := {64})"

definition kex1 :: bulk_state where
  "kex1 = kst 64 1 True 0 0 (Push_unlock [64]) (\<lambda>_. {}) sn0"

definition kex2 :: bulk_state where
  "kex2 = kst 0 2 True 0 1 (Pop_unlock 64 2) own1 sn1"

lemmas kst_defs = kst_def state_defs sn0_def sn1_def own0_def own1_def push_unfold pop_unfold FreelistAllocator_new_def
  get_next_def fun_eq_iff

lemma kstepI: "bk_step d s s1 \<Longrightarrow> s1 = s' \<Longrightarrow> reach bk_init (bk_step d) s \<Longrightarrow> reach bk_init (bk_step d) s'"
  by (auto intro: reach_step)

lemma kex1_reach: "reach bk_init (bk_step d) kex1"
proof -
  have "reach bk_init (bk_step d) (kst 0 0 False 5 0 KIdle own0 sn0)"
    by (rule reach_init) (auto simp: bk_init_def kst_defs)
  then have "reach bk_init (bk_step d) (kst 0 0 False 5 0 (Push_lock 64 64 ([] @ [64])) own0 sn0)"
    by (rule kstepI [rotated 2, OF _ call_push_bulk [of _ 0]]) (auto simp: kst_defs batch_def)
  then have "reach bk_init (bk_step d) (kst 0 0 True 5 0 (Push_term 64 64 [64]) own0 sn0)"
    by (rule kstepI [rotated 2, OF _ push_acquire [of _ 0]]) (auto simp: kst_defs)
  then have "reach bk_init (bk_step d) (kst 0 0 True 0 0 (Push_node 64 [64]) own0 sn0)"
    by (rule kstepI [rotated 2, OF _ push_term [of _ 0 _ _ _ "[64 \<mapsto> 0]"]]) (auto simp: kst_defs)
  then have "reach bk_init (bk_step d) (kst 0 0 True 0 0 (Push_one 64 0 [64]) own0 sn0)"
    by (rule kstepI [rotated 2, OF _ push_node [of _ 0]]) (auto simp: kst_defs)
  then have "reach bk_init (bk_step d) (kst 64 1 True 0 0 (Push_node 0 [64]) (\<lambda>_. {}) sn0)"
    by (rule kstepI [rotated 2, OF _ push_one [where t = 0 and h = "[64 \<mapsto> 0]"]]) (auto simp: kst_defs intro!: exI [of _ "[64 \<mapsto> 0]"])
  then show ?thesis unfolding kex1_def
    by (rule kstepI [rotated 2, OF _ push_node_done [of _ 0]]) (auto simp: kst_defs)
qed

lemma kex2_reach: "reach bk_init (bk_step d) kex2"
proof -
  have "reach bk_init (bk_step d) (kst 64 1 False 0 1 KIdle (\<lambda>_. {}) sn0)"
    by (rule kstepI [rotated 2, OF kex1_reach push_unlock [of _ 0]]) (auto simp: kex1_def kst_defs)
  then have "reach bk_init (bk_step d) (kst 64 1 False 0 1 (Pop_lock 2) (\<lambda>_. {}) sn0)"
    by (rule kstepI [rotated 2, OF _ call_pop_bulk [where t = 1 and n = 2]]) (auto simp: kst_defs)
  then have "reach bk_init (bk_step d) (kst 64 1 True 0 1 (Pop_first 2) (\<lambda>_. {}) sn1)"
    by (rule kstepI [rotated 2, OF _ pop_acquire [of _ 1]]) (auto simp: kst_defs)
  then have "reach bk_init (bk_step d) (kst 0 2 True 0 1 (Pop_more 64 64 1 2) own1 sn1)"
    by (rule kstepI [rotated 2, OF _ pop_first [of _ 1]]) (auto simp: kst_defs)
  then have "reach bk_init (bk_step d) (kst 0 2 True 0 1 (Pop_term 64 64 2) own1 sn1)"
    by (rule kstepI [rotated 2, OF _ pop_more_null [of _ 1]]) (auto simp: kst_defs)
  then show ?thesis unfolding kex2_def
    by (rule kstepI [rotated 2, OF _ pop_term [of _ 1 _ _ _ "[64 \<mapsto> 0]"]]) (auto simp: kst_defs)
qed

section \<open>Enabled steps\<close>

lemma kmoved:
  "bk_step d s (kgoto t l s0) \<Longrightarrow> bkpc s t = k \<Longrightarrow> l \<noteq> k \<Longrightarrow> \<exists>s'. bk_step d s s' \<and> bkpc s' t \<noteq> bkpc s t"
  by (intro exI [of _ "kgoto t l s0"]) (simp add: kgoto_def)

lemma own_cell: "bk_inv d s xs \<Longrightarrow> p \<in> bkown s t \<Longrightarrow> set_next (bkh s) p v = Some ((bkh s)(p \<mapsto> v))"
  using bk_invD(2) [of d s xs] bk_invD(4) [of d s xs t] by auto

lemma inv_pop_returns: "bk_inv d s xs \<Longrightarrow> \<exists>p a. pop (bka s) (bkh s) = Some (p, a)"
  using bk_invD(1) [of d s xs] pop_holds_Nil pop_holds_Cons by (metis neq_Nil_conv)

lemma pop_bulk_moves:
  assumes inv: "bk_inv d s xs" and pc: "bkpc s t = Pop_first n \<or> bkpc s t = Pop_more start tail count n"
  shows "\<exists>s'. bk_step d s s' \<and> bkpc s' t \<noteq> bkpc s t"
proof -
  obtain p a where p: "pop (bka s) (bkh s) = Some (p, a)" using inv_pop_returns [OF inv] by blast
  consider "bkpc s t = Pop_first n" | "bkpc s t = Pop_more start tail count n" "\<not> count < n"
    | "bkpc s t = Pop_more start tail count n" "count < n" using pc by blast
  then show ?thesis
  proof cases
    case 1
    show ?thesis
    proof (cases "p = nullptr")
      case True
      show ?thesis by (rule kmoved [OF pop_first_null [OF 1 p [unfolded True]] 1]) simp
    next
      case False
      show ?thesis by (rule kmoved [OF pop_first [OF 1 p False] 1]) simp
    qed
  next
    case 2
    show ?thesis by (rule kmoved [OF pop_more_done [OF 2] 2(1)]) simp
  next
    case 3
    show ?thesis
    proof (cases "p = nullptr")
      case True
      show ?thesis by (rule kmoved [OF pop_more_null [OF 3 p [unfolded True]] 3(1)]) simp
    next
      case False
      show ?thesis by (rule kmoved [OF pop_more [OF 3 p False] 3(1)]) simp
    qed
  qed
qed

lemma push_bulk_moves:
  assumes inv: "bk_inv d s xs" and pc: "bkpc s t = Push_node node bs \<or> bkpc s t = Push_one node nxt bs"
  shows "\<exists>s'. bk_step d s s' \<and> bkpc s' t \<noteq> bkpc s t"
proof -
  consider "bkpc s t = Push_node nullptr bs" | "bkpc s t = Push_node node bs" "node \<noteq> nullptr"
    | "bkpc s t = Push_one node nxt bs" using pc by blast
  then show ?thesis
  proof cases
    case 1
    show ?thesis by (rule kmoved [OF push_node_done [OF 1] 1]) simp
  next
    case 2
    from bk_invD(6) [OF inv 2(1)] obtain td where "chain (bkh s) node td" by auto
    then obtain x where g: "get_next (bkh s) node = Some x"
      using 2(2) chain_nonnull [of node "bkh s" td] by auto
    show ?thesis by (rule kmoved [OF push_node [OF 2 g] 2(1)]) simp
  next
    case 3
    have n: "node \<in> bkown s t" using bk_invD(6) [OF inv 3] by auto
    then have q: "node \<in> dom (bkh s)" "node \<noteq> nullptr" "node \<notin> set xs"
      using bk_invD(2) [OF inv] bk_invD(3,4) [OF inv, of t] by auto
    obtain a h where "push (bka s) (bkh s) node = Some (a, h)" using push_holds [OF bk_invD(1) [OF inv] q] by blast
    from kmoved [OF push_one [OF 3 this] 3] show ?thesis by simp
  qed
qed

lemma section_moves:
  assumes inv: "bk_inv d s xs" and sec: "in_section (bkpc s t)"
  shows "\<exists>s'. bk_step d s s' \<and> bkpc s' t \<noteq> bkpc s t"
proof (cases "bkpc s t")
  case (Pop_link start tail p count n)
  obtain ys where "batch (bkh s) (bkown s t) start (ys @ [tail])" using bk_invD(6) [OF inv Pop_link] by auto
  then have "tail \<in> bkown s t" using batch_last by blast
  from kmoved [OF pop_link [OF Pop_link own_cell [OF inv this]] Pop_link] show ?thesis by simp
next
  case (Pop_term start tail n)
  obtain ys where "batch (bkh s) (bkown s t) start (ys @ [tail])" using bk_invD(6) [OF inv Pop_term] by auto
  then have "tail \<in> bkown s t" using batch_last by blast
  from kmoved [OF pop_term [OF Pop_term own_cell [OF inv this]] Pop_term] show ?thesis by simp
next
  case (Push_term bh bt bs)
  have "batch (bkh s) (bkown s t) bh (butlast bs @ [bt])" using bk_invD(6) [OF inv Push_term] by auto
  then have "bt \<in> bkown s t" using batch_last by blast
  from kmoved [OF push_term [OF Push_term own_cell [OF inv this]] Push_term] show ?thesis by simp
next
  case (Pop_unlock start n)
  from kmoved [OF pop_unlock [OF Pop_unlock] Pop_unlock] show ?thesis by simp
next
  case (Push_unlock bs)
  from kmoved [OF push_unlock [OF Push_unlock] Push_unlock] show ?thesis by simp
next
  case (Pop_first n)
  then show ?thesis by (intro pop_bulk_moves [OF inv] disjI1)
next
  case (Pop_more start tail count n)
  then show ?thesis by (intro pop_bulk_moves [OF inv] disjI2)
next
  case (Push_node node bs)
  then show ?thesis by (intro push_bulk_moves [OF inv] disjI1)
next
  case (Push_one node nxt bs)
  then show ?thesis by (intro push_bulk_moves [OF inv] disjI2)
qed (use sec in simp_all)

section \<open>The effect of a critical section\<close>

lemma chain_same_head: "chain h p xs \<Longrightarrow> chain h' q xs \<Longrightarrow> p = q"
  by (cases xs) auto

lemma pop_section_effect:
  assumes inv: "bk_inv False s xs" and pc: "bkpc s t = Pop_unlock start n"
  shows "\<exists>a h ys xs. pop_bulk (fst (snap s)) (snd (snap s)) n = Some (start, a, h) \<and> chain h start ys \<and> chain (bkh s) start ys
     \<and> fl_holds a h xs \<and> fl_holds (bka s) (bkh s) xs \<and> set ys \<subseteq> bkown s t"
proof -
  from bk_invD(6) [OF inv pc] obtain xs0 where ys: "chain (bkh s) start (take (limit n) xs0)"
    "set (take (limit n) xs0) \<subseteq> bkown s t" and x: "was (snap s) xs0" "xs = drop (limit n) xs0" by auto
  have w: "fl_holds (fst (snap s)) (snd (snap s)) xs0" "\<not> bulk_lock (fst (snap s))" using x(1) by (simp_all add: was_def)
  obtain r a h where r: "pop_bulk (fst (snap s)) (snd (snap s)) n = Some (r, a, h)" "chain h r (take (limit n) xs0)"
      "fl_holds a h (drop (limit n) xs0)"
    using pop_bulk_holds [OF w, of n] unfolding limit_def by (elim exE conjE)
  have "r = start" by (rule chain_same_head [OF r(2) ys(1)])
  with r ys x(2) bk_invD(1) [OF inv] show ?thesis
    by (intro exI [of _ a] exI [of _ h] exI [of _ "take (limit n) xs0"] exI [of _ xs]) simp
qed

lemma push_section_effect:
  assumes inv: "bk_inv False s xs" and pc: "bkpc s t = Push_unlock bs"
  shows "\<exists>a h xs. push_bulk (fst (snap s)) (snd (snap s)) (hd bs) (last bs) = Some (a, h)
     \<and> fl_holds a h xs \<and> fl_holds (bka s) (bkh s) xs"
proof -
  from bk_invD(6) [OF inv pc] obtain xs0 q where x: "was (snap s) xs0" "xs = rev bs @ xs0" "set bs \<inter> set xs0 = {}"
    "bs \<noteq> []" "seg (snd (snap s)) (hd bs) bs q" "distinct bs" by (auto simp: pushed_def)
  then obtain ys b where b: "bs = ys @ [b]" by (metis append_butlast_last_id)
  have w: "fl_holds (fst (snap s)) (snd (snap s)) xs0" "\<not> bulk_lock (fst (snap s))" using x(1) by (simp_all add: was_def)
  have "set xs0 \<inter> set (ys @ [b]) = {}" using x(3) b by auto
  from push_bulk_holds [OF x(5,6) [unfolded b] w(1) this w(2)] obtain a h where
    "push_bulk (fst (snap s)) (snd (snap s)) (hd bs) (last bs) = Some (a, h)" "fl_holds a h (rev bs @ xs0)"
    unfolding b by auto
  with bk_invD(1) [OF inv] x(2) show ?thesis by blast
qed

section \<open>Properties\<close>

text \<open>C7. Mutual exclusion and conservation: in every reachable state, also with direct \<^verbatim>\<open>push\<close> and
  \<^verbatim>\<open>pop\<close> calls of other threads, at most one thread is between acquisition and release of
  \<^verbatim>\<open>bulk_lock\<close> and the mutex is locked exactly when there is one; the freelist is a chain, every
  block is on it or owned by exactly one thread, and a \<^verbatim>\<open>pop_bulk(n)\<close> about to return has built a null-terminated
  chain of at most max(1, n) blocks that all belong to its thread.\<close>

theorem bulk_exclusion:
  assumes "reach bk_init (bk_step d) s"
  shows "(\<forall>t u. in_section (bkpc s t) \<and> in_section (bkpc s u) \<longrightarrow> t = u)
     \<and> bulk_lock (bka s) = (\<exists>t. in_section (bkpc s t))
     \<and> (\<exists>xs. fl_holds (bka s) (bkh s) xs \<and> (\<forall>t. bkown s t \<inter> set xs = {})
          \<and> (\<forall>t u. t \<noteq> u \<longrightarrow> bkown s t \<inter> bkown s u = {}) \<and> set xs \<union> (\<Union>t. bkown s t) = dom (bkh s))
     \<and> (\<forall>t start n. bkpc s t = Pop_unlock start n \<longrightarrow>
          (\<exists>ys. chain (bkh s) start ys \<and> set ys \<subseteq> bkown s t \<and> length ys \<le> max 1 (unat n)))"
proof -
  obtain xs where inv: "bk_inv d s xs" using reach_bk_inv [OF assms] by blast
  have own: "owners_ok s xs" and lk: "lock_ok s" using inv by (simp_all add: bk_inv_def)
  have batch: "\<exists>ys. chain (bkh s) start ys \<and> set ys \<subseteq> bkown s t \<and> length ys \<le> max 1 (unat n)"
    if "bkpc s t = Pop_unlock start n" for t start n
    using bk_invD(6) [OF inv that] by (auto simp: limit_def)
  have "\<exists>xs. fl_holds (bka s) (bkh s) xs \<and> (\<forall>t. bkown s t \<inter> set xs = {})
      \<and> (\<forall>t u. t \<noteq> u \<longrightarrow> bkown s t \<inter> bkown s u = {}) \<and> set xs \<union> (\<Union>t. bkown s t) = dom (bkh s)"
    using own unfolding owners_ok_def by (intro exI [of _ xs]) simp
  with lk batch show ?thesis unfolding lock_ok_def by (intro conjI) simp_all
qed

theorem bulk_exclusion_witness:
  "bulk_lock (bka kex2) = (\<exists>t. in_section (bkpc kex2 t))
   \<and> (\<exists>ys. chain (bkh kex2) 64 ys \<and> set ys \<subseteq> {64} \<and> length ys \<le> 2)"
proof -
  have pc: "bkpc kex2 1 = Pop_unlock 64 2" "bkown kex2 1 = {64}" "max 1 (unat (2 :: u64)) = 2"
    by (simp_all add: kex2_def kst_def own1_def)
  note ex = bulk_exclusion [OF kex2_reach [of True]]
  from ex have "bkpc kex2 1 = Pop_unlock 64 2 \<longrightarrow>
      (\<exists>ys. chain (bkh kex2) 64 ys \<and> set ys \<subseteq> bkown kex2 1 \<and> length ys \<le> max 1 (unat (2 :: u64)))" by (elim conjE allE)
  with ex pc show ?thesis by (simp add: numeral_2_eq_2)
qed

text \<open>C6. The mutex makes the bulk operations atomic for each other: in executions where the freelist is reached only through
  \<^verbatim>\<open>push_bulk\<close> and \<^verbatim>\<open>pop_bulk\<close>, as the thread caches do (no direct \<^verbatim>\<open>push\<close> or \<^verbatim>\<open>pop\<close>, which do not take the mutex
  and can come between the steps of a bulk call), a call about to release the mutex has had exactly the
  effect of the sequential function applied to the freelist and the memory as they were when it
  acquired the mutex, whatever other threads wrote to their own blocks in between: the same returned pointer, the
  same batch in the same order, the same blocks left on the freelist.\<close>

theorem bulk_atomic:
  assumes "reach bk_init (bk_step False) s"
  shows "(bkpc s t = Pop_unlock start n \<longrightarrow>
       (\<exists>a h ys xs. pop_bulk (fst (snap s)) (snd (snap s)) n = Some (start, a, h) \<and> chain h start ys \<and> chain (bkh s) start ys
          \<and> fl_holds a h xs \<and> fl_holds (bka s) (bkh s) xs \<and> set ys \<subseteq> bkown s t))
     \<and> (bkpc s t = Push_unlock bs \<longrightarrow>
       (\<exists>a h xs. push_bulk (fst (snap s)) (snd (snap s)) (hd bs) (last bs) = Some (a, h)
          \<and> fl_holds a h xs \<and> fl_holds (bka s) (bkh s) xs))"
proof -
  obtain xs where inv: "bk_inv False s xs" using reach_bk_inv [OF assms] by blast
  show ?thesis by (intro conjI impI pop_section_effect [OF inv] push_section_effect [OF inv])
qed

theorem bulk_atomic_witness:
  "(\<exists>a h. push_bulk (fst sn0) (snd sn0) 64 64 = Some (a, h)) \<and> (\<exists>a h. pop_bulk (fst sn1) (snd sn1) 2 = Some (64, a, h))"
proof -
  have 1: "bkpc kex1 0 = Push_unlock [64]" "snap kex1 = sn0" by (simp_all add: kex1_def kst_def)
  have 2: "bkpc kex2 1 = Pop_unlock 64 2" "snap kex2 = sn1" by (simp_all add: kex2_def kst_def)
  note a1 = mp [OF conjunct2 [OF bulk_atomic [OF kex1_reach]] 1(1), unfolded 1(2)]
  note a2 = mp [OF conjunct1 [OF bulk_atomic [OF kex2_reach]] 2(1), unfolded 2(2)]
  from a1 a2 show ?thesis by (auto simp del: fst_conv)
qed

text \<open>C13. No deadlock and no fault in the bulk operations: a thread inside the critical section always has a
  step that moves it on (every pointer it follows addresses a block), so whenever a thread waits for
  the mutex, either it can acquire it or the holder can move.\<close>

theorem bulk_no_deadlock:
  assumes "reach bk_init (bk_step d) s" "bkpc s t \<noteq> KIdle"
  shows "\<exists>u s'. bk_step d s s' \<and> bkpc s' u \<noteq> bkpc s u \<and> (u = t \<or> \<not> in_section (bkpc s t) \<and> in_section (bkpc s u))"
proof -
  obtain xs where inv: "bk_inv d s xs" using reach_bk_inv [OF assms(1)] by blast
  show ?thesis
  proof (cases "\<exists>u. in_section (bkpc s u)")
    case True
    then obtain u where u: "in_section (bkpc s u)" by blast
    then have "u = t \<or> \<not> in_section (bkpc s t)" using bk_invD(5) [OF inv] by (auto simp: lock_ok_def)
    with u section_moves [OF inv u] show ?thesis by blast
  next
    case False
    then have free: "\<not> bulk_lock (bka s)" using bk_invD(5) [OF inv] by (simp add: lock_ok_def)
    have "\<not> in_section (bkpc s t)" using False by blast
    then have "(\<exists>n. bkpc s t = Pop_lock n) \<or> (\<exists>bh bt bs. bkpc s t = Push_lock bh bt bs)"
      using assms(2) by (cases "bkpc s t") simp_all
    then have "\<exists>s'. bk_step d s s' \<and> bkpc s' t \<noteq> bkpc s t"
    proof (elim disjE exE)
      fix n assume pc: "bkpc s t = Pop_lock n"
      show ?thesis by (rule kmoved [OF pop_acquire [OF pc free] pc]) simp
    next
      fix bh bt bs assume pc: "bkpc s t = Push_lock bh bt bs"
      show ?thesis by (rule kmoved [OF push_acquire [OF pc free] pc]) simp
    qed
    then show ?thesis by blast
  qed
qed

theorem bulk_no_deadlock_witness: "\<exists>u s'. bk_step True kex2 s' \<and> bkpc s' u \<noteq> bkpc kex2 u"
proof -
  have "bkpc kex2 1 \<noteq> KIdle" by (simp add: kex2_def kst_def)
  from bulk_no_deadlock [OF kex2_reach this] show ?thesis by blast
qed

end
