(* ===== verification/Bitmap_Core.thy ===== *)
theory Bitmap_Core
  imports Pool_Interface
begin

text \<open>
  The bitmap search shared by \<^verbatim>\<open>BitmapAllocator::alloc\<close> and
  \<^verbatim>\<open>ThreadLocalBitmapAllocator::alloc\<close>: both files contain the same two nested loops over an
  array of 64-bit words (bit set: block in use). The model takes the array, its word count, the block
  count and the start word; the two allocators supply them from their own state. The loops are then
  shown equal to a direct description: the first word in probe order that is not full, and the lowest
  clear bit of that word.
\<close>

section \<open>The loops\<close>

definition FULL :: u64 where
  "FULL = NOT 0"

definition WORD_BITS :: u64 where
  "WORD_BITS = 64"

text \<open>\<^verbatim>\<open>__builtin_ctzll\<close>: the number of trailing zero bits, undefined for 0.\<close>

definition ctzll :: "u64 \<Rightarrow> nat option" where
  "ctzll x = (if x = 0 then None else Some (length (takeWhile (\<lambda>i. \<not> bit x i) [0..<64])))"

definition find_free_bit :: "u64 \<Rightarrow> u64 option" where
  "find_free_bit word = map_option of_nat (ctzll (NOT word))"

definition load :: "u64 list \<Rightarrow> u64 \<Rightarrow> u64 option" where
  "load bm i = (if unat i < length bm then Some (bm ! unat i) else None)"

definition fetch_and :: "u64 list \<Rightarrow> u64 \<Rightarrow> u64 \<Rightarrow> u64 list option" where
  "fetch_and bm i m = map_option (\<lambda>w. bm[unat i := w AND m]) (load bm i)"

text \<open>How one pass of the outer loop ends: the next word is probed, or the call returns null or a block.\<close>

datatype claim = Next_word | Return_null | Claimed u64

text \<open>
  The inner loop, \<^verbatim>\<open>while (word != FULL)\<close>. The first argument lists the attempts of
  \<^verbatim>\<open>compare_exchange_weak\<close> as in \<open>Freelist\<close>.
\<close>

fun claim_loop :: "bool list \<Rightarrow> u64 \<Rightarrow> u64 list \<Rightarrow> u64 \<Rightarrow> u64 \<Rightarrow> (claim \<times> u64 list) option" where
  "claim_loop sps block_count bm word_index word =
     (if word = FULL then Some (Next_word, bm)
      else case sps of
        [] \<Rightarrow> None
      | sp # sps' \<Rightarrow>
          do { free_bit \<leftarrow> find_free_bit word;
               let bitmask = push_bit (unat free_bit) 1;
               let new_word = word OR bitmask;
               cur \<leftarrow> load bm word_index;
               let (ok, word', cur') = cas_weak sp cur word new_word;
               let bm' = bm[unat word_index := cur'];
               if ok
               then let global_index = word_index * WORD_BITS + free_bit
                    in if block_count \<le> global_index
                       then do { bm'' \<leftarrow> fetch_and bm' word_index (NOT bitmask); Some (Return_null, bm'') }
                       else Some (Claimed global_index, bm')
               else claim_loop sps' block_count bm' word_index word' })"

declare claim_loop.simps [simp del]

function probe_loop ::
  "bool list \<Rightarrow> u64 \<Rightarrow> u64 \<Rightarrow> u64 list \<Rightarrow> u64 \<Rightarrow> u64 \<Rightarrow> (claim \<times> u64 \<times> u64 list) option" where
  "probe_loop sps block_count word_count bm start probe =
     (if probe < word_count
      then let word_index = (start + probe) mod word_count in
           do { word \<leftarrow> load bm word_index;
                if word = FULL then probe_loop sps block_count word_count bm start (probe + 1)
                else do { (r, bm') \<leftarrow> claim_loop sps block_count bm word_index word;
                          if r = Next_word then probe_loop sps block_count word_count bm' start (probe + 1)
                          else Some (r, word_index, bm') } }
      else Some (Return_null, 0, bm))"
  by pat_completeness auto
termination
  by (relation "measure (\<lambda>(sps, block_count, word_count, bm, start, probe). unat word_count - unat probe)")
    (auto intro: unat_inc_less)

declare probe_loop.simps [simp del]

section \<open>The lowest clear bit\<close>

definition low_zero :: "u64 \<Rightarrow> nat" where
  "low_zero w = length (takeWhile (bit w) [0..<64])"

lemma bit_FULL [simp]: "bit FULL i = (i < 64)"
  by (simp add: FULL_def bit_not_iff possible_bit_word)

lemma not_full_clear_bit: "w \<noteq> FULL \<Longrightarrow> \<exists>i < 64. \<not> bit w i"
proof (rule ccontr)
  assume "w \<noteq> FULL" and all: "\<not> (\<exists>i < 64. \<not> bit w i)"
  have "w = FULL" by (rule bit_word_eqI) (use all in simp)
  with \<open>w \<noteq> FULL\<close> show False ..
qed

lemma takeWhile_upt_less: "\<exists>i < n. \<not> P i \<Longrightarrow> length (takeWhile P [0..<n]) < n"
proof (rule ccontr)
  assume "\<exists>i < n. \<not> P i" "\<not> length (takeWhile P [0..<n]) < n"
  moreover have "length (takeWhile P [0..<n]) + length (dropWhile P [0..<n]) = n"
    by (metis takeWhile_dropWhile_id length_append length_upt diff_zero)
  ultimately have "length (dropWhile P [0..<n]) = 0" by linarith
  then have "dropWhile P [0..<n] = []" by (simp only: length_0_conv)
  then have "\<forall>i \<in> set [0..<n]. P i" by (simp only: dropWhile_eq_Nil_conv)
  with \<open>\<exists>i < n. \<not> P i\<close> show False by auto
qed

lemma takeWhile_upt_stop: "length (takeWhile P [0..<n]) < n \<Longrightarrow> \<not> P (length (takeWhile P [0..<n]))"
  using nth_length_takeWhile [of P "[0..<n]"] by simp

lemma takeWhile_upt_below: "j < length (takeWhile P [0..<n]) \<Longrightarrow> P j"
  using set_takeWhileD [of j P "[0..<n]"] takeWhile_nth [of j P "[0..<n]"]
    length_takeWhile_le [of P "[0..<n]"] nth_mem [of j "takeWhile P [0..<n]"] by simp

lemma low_zero_less: "w \<noteq> FULL \<Longrightarrow> low_zero w < 64"
  unfolding low_zero_def by (rule takeWhile_upt_less) (rule not_full_clear_bit)

lemma low_zero_clear: "w \<noteq> FULL \<Longrightarrow> \<not> bit w (low_zero w)"
  unfolding low_zero_def by (rule takeWhile_upt_stop, fold low_zero_def) (rule low_zero_less)

lemma low_zero_below: "j < low_zero w \<Longrightarrow> bit w j"
  unfolding low_zero_def by (rule takeWhile_upt_below)

lemma find_free_bit_low_zero:
  assumes "w \<noteq> FULL"
  shows "find_free_bit w = Some (of_nat (low_zero w))"
proof -
  have "NOT w \<noteq> 0" using assms by (auto simp: FULL_def dest: arg_cong [where f = "NOT"])
  moreover have "takeWhile (\<lambda>i. \<not> bit (NOT w) i) [0..<64] = takeWhile (bit w) [0..<64]"
    by (rule takeWhile_cong [OF refl]) (auto simp: bit_not_iff possible_bit_word simp del: upt_rec_numeral)
  ultimately show ?thesis
    unfolding find_free_bit_def ctzll_def low_zero_def by (simp del: upt_rec_numeral)
qed

lemma find_free_bit_FULL: "find_free_bit FULL = None"
  by (simp add: find_free_bit_def ctzll_def FULL_def)

lemma unat_low_zero: "w \<noteq> FULL \<Longrightarrow> unat (of_nat (low_zero w) :: u64) = low_zero w"
  using low_zero_less [of w] by (simp add: unat_of_nat_64)

lemma bit_set_low: "w \<noteq> FULL \<Longrightarrow> bit (w OR 2 ^ low_zero w) i = (bit w i \<or> i = low_zero w)"
  using low_zero_less [of w] by (auto simp: bit_or_iff bit_exp_iff possible_bit_word)

lemma bit_clear: "bit ((w :: u64) AND NOT (2 ^ k)) i = (bit w i \<and> i \<noteq> k)"
  by (auto simp: bit_and_iff bit_not_iff bit_exp_iff possible_bit_word dest: bit_imp_le_length)

lemma set_then_clear: "w \<noteq> FULL \<Longrightarrow> (w OR 2 ^ low_zero w) AND NOT (2 ^ low_zero w) = w"
  by (rule bit_eqI) (use low_zero_clear [of w] in \<open>auto simp: bit_clear bit_set_low\<close>)

section \<open>What the loops compute\<close>

text \<open>The words in probe order, and the first of them that is not full.\<close>

definition probe_order :: "nat \<Rightarrow> nat \<Rightarrow> nat \<Rightarrow> nat list" where
  "probe_order n start k = map (\<lambda>p. (start + p) mod n) [k..<n]"

definition first_open :: "u64 list \<Rightarrow> nat \<Rightarrow> nat option" where
  "first_open bm start = find (\<lambda>i. bm ! i \<noteq> FULL) (probe_order (length bm) start 0)"

lemma load_nth: "i < length bm \<Longrightarrow> length bm < 2 ^ 64 \<Longrightarrow> load bm (of_nat i) = Some (bm ! i)"
  by (simp add: load_def unat_of_nat_64)

definition claim_result :: "nat \<Rightarrow> u64 list \<Rightarrow> nat \<Rightarrow> claim \<times> u64 list" where
  "claim_result bc bm i =
     (let k = low_zero (bm ! i) in
      if 64 * i + k < bc then (Claimed (of_nat (64 * i + k)), bm[i := bm ! i OR 2 ^ k]) else (Return_null, bm))"

text \<open>Words of an array of at most \<open>2 ^ 58\<close> words: no index computation wraps around.\<close>

lemma global_index_unat:
  assumes "i < 2 ^ 58" "k < 64"
  shows "(of_nat i * WORD_BITS + of_nat k :: u64) = of_nat (64 * i + k)" "64 * i + k < 2 ^ 64"
  using assms by (auto simp: WORD_BITS_def algebra_simps)

lemma claim_loop_result:
  assumes "i < length bm" "length bm \<le> 2 ^ 58" "bm ! i \<noteq> FULL"
  shows "claim_loop (replicate n True @ False # sps) bc bm (of_nat i) (bm ! i) = Some (claim_result (unat bc) bm i)"
proof (induction n)
  case 0
  let ?w = "bm ! i" and ?k = "low_zero (bm ! i)"
  have len: "length bm < 2 ^ 64" using assms(2) by simp
  have i: "unat (of_nat i :: u64) = i" using assms(1) len by (simp add: unat_of_nat_64)
  have g: "(of_nat i * WORD_BITS + of_nat ?k :: u64) = of_nat (64 * i + ?k)" "64 * i + ?k < 2 ^ 64"
    using global_index_unat [of i ?k] low_zero_less [OF assms(3)] assms(1,2) by auto
  have le: "bc \<le> of_nat (64 * i + ?k) \<longleftrightarrow> \<not> 64 * i + ?k < unat bc"
    unfolding word_le_nat_alt unat_of_nat_64 [OF g(2)] by auto
  show ?case
    using assms(1,3) le unfolding claim_result_def
    by (simp add: claim_loop.simps find_free_bit_low_zero unat_low_zero load_def cas_weak_def fetch_and_def
        i g(1) set_then_clear Let_def)
next
  case (Suc n)
  have "unat (of_nat i :: u64) = i" using assms(1,2) by (simp add: unat_of_nat_64)
  with Suc assms show ?case
    by (simp add: claim_loop.simps [of "True # _"] find_free_bit_low_zero load_def cas_weak_def Let_def)
qed

lemma claim_result_not_next: "fst (claim_result bc bm i) \<noteq> Next_word"
  by (simp add: claim_result_def Let_def)

lemma probe_index:
  fixes start probe wc :: u64
  assumes "unat start < unat wc" "unat wc \<le> 2 ^ 58" "probe < wc"
  shows "(start + probe) mod wc = of_nat ((unat start + unat probe) mod unat wc)"
proof -
  have "unat (start + probe) = unat start + unat probe"
    by (rule unat_plus_64) (use assms in \<open>simp add: word_less_nat_alt\<close>)
  then have "unat ((start + probe) mod wc) = (unat start + unat probe) mod unat wc" by (simp add: unat_mod)
  then show ?thesis by (metis of_nat_unat_64)
qed

lemma probe_loop_result:
  assumes "unat start < unat wc" "unat wc \<le> 2 ^ 58" "length bm = unat wc"
  shows "probe_loop (replicate n True @ False # sps) bc wc bm start probe =
     Some (case find (\<lambda>i. bm ! i \<noteq> FULL) (probe_order (unat wc) (unat start) (unat probe)) of
             None \<Rightarrow> (Return_null, 0, bm)
           | Some i \<Rightarrow> let (r, bm') = claim_result (unat bc) bm i in (r, of_nat i, bm'))"
  using assms
proof (induction "replicate n True @ False # sps" bc wc bm start probe rule: probe_loop.induct)
  case (1 bc wc bm start probe)
  show ?case
  proof (cases "probe < wc")
    case False
    then have "probe_order (unat wc) (unat start) (unat probe) = []"
      by (simp add: probe_order_def word_less_nat_alt)
    with False show ?thesis by (subst probe_loop.simps) simp
  next
    case True
    let ?i = "(unat start + unat probe) mod unat wc"
    have i: "(start + probe) mod wc = of_nat ?i" by (rule probe_index [OF 1(3,4) True])
    have il: "?i < length bm" using 1(3,5) by simp
    then have ld: "load bm (of_nat ?i) = Some (bm ! ?i)" using 1(4,5) by (simp add: load_nth)
    have po: "probe_order (unat wc) (unat start) (unat probe)
        = ?i # probe_order (unat wc) (unat start) (unat (probe + 1))"
      using True unat_plus1_64 [OF True] by (simp add: probe_order_def word_less_nat_alt upt_conv_Cons)
    show ?thesis
    proof (cases "bm ! ?i = FULL")
      case T: True
      show ?thesis
        using 1(1) [OF True refl _ T] 1(3-5) True T i ld po by (subst probe_loop.simps) simp
    next
      case F: False
      have "claim_loop (replicate n True @ False # sps) bc bm (of_nat ?i) (bm ! ?i) = Some (claim_result (unat bc) bm ?i)"
        by (rule claim_loop_result [OF il _ F]) (use 1(4,5) in simp)
      then show ?thesis
        using True F i ld po claim_result_not_next [of "unat bc" bm ?i]
        by (subst probe_loop.simps) (auto simp: Let_def split: prod.splits)
    qed
  qed
qed

section \<open>The bitmap as a set of used blocks\<close>

definition used :: "u64 list \<Rightarrow> nat \<Rightarrow> bool" where
  "used bm g = bit (bm ! (g div 64)) (g mod 64)"

definition set_used :: "u64 list \<Rightarrow> nat \<Rightarrow> u64 list" where
  "set_used bm g = bm[g div 64 := bm ! (g div 64) OR 2 ^ (g mod 64)]"

definition clear_used :: "u64 list \<Rightarrow> nat \<Rightarrow> u64 list" where
  "clear_used bm g = bm[g div 64 := bm ! (g div 64) AND NOT (2 ^ (g mod 64))]"

text \<open>The block an undisturbed call of \<^verbatim>\<open>alloc\<close> picks, if any.\<close>

definition scan :: "nat \<Rightarrow> u64 list \<Rightarrow> nat \<Rightarrow> nat option" where
  "scan bc bm start =
     (case first_open bm start of
        None \<Rightarrow> None
      | Some i \<Rightarrow> let g = 64 * i + low_zero (bm ! i) in if g < bc then Some g else None)"

lemma length_set_used [simp]: "length (set_used bm g) = length bm" "length (clear_used bm g) = length bm"
  by (simp_all add: set_used_def clear_used_def)

lemma used_set_used:
  assumes "g < 64 * length bm"
  shows "used (set_used bm g) j = (used bm j \<or> j = g)"
proof (cases "j div 64 = g div 64")
  case True
  have "j = g \<longleftrightarrow> j mod 64 = g mod 64" using True by (metis div_mult_mod_eq)
  with True assms show ?thesis
    by (auto simp: used_def set_used_def bit_or_iff bit_exp_iff possible_bit_word)
qed (auto simp: used_def set_used_def)

lemma used_clear_used:
  assumes "g < 64 * length bm"
  shows "used (clear_used bm g) j = (used bm j \<and> j \<noteq> g)"
proof (cases "j div 64 = g div 64")
  case True
  have "j = g \<longleftrightarrow> j mod 64 = g mod 64" using True by (metis div_mult_mod_eq)
  with True assms show ?thesis by (auto simp: used_def clear_used_def bit_clear)
qed (auto simp: used_def clear_used_def)

lemma used_ext:
  assumes "length bm = length bm'" "\<And>j. j < 64 * length bm \<Longrightarrow> used bm j = used bm' j"
  shows "bm = bm'"
proof (rule nth_equalityI [OF assms(1)])
  fix i assume i: "i < length bm"
  show "bm ! i = bm' ! i"
  proof (rule bit_word_eqI)
    fix n assume "n < LENGTH(64)"
    then have n: "n < 64" by simp
    then have "64 * i + n < 64 * length bm" using i by linarith
    from assms(2) [OF this] n show "bit (bm ! i) n = bit (bm' ! i) n" by (simp add: used_def)
  qed
qed

lemma first_open_Some: "first_open bm start = Some i \<Longrightarrow> i < length bm \<and> bm ! i \<noteq> FULL"
  by (auto simp: first_open_def probe_order_def find_Some_iff) (metis less_nat_zero_code mod_less_divisor neq0_conv)

lemma probe_order_all: "n \<noteq> 0 \<Longrightarrow> start < n \<Longrightarrow> set (probe_order n start 0) = {0..<n}"
proof -
  assume n: "n \<noteq> 0" "start < n"
  have "i \<in> (\<lambda>p. (start + p) mod n) ` {0..<n}" if "i < n" for i
  proof (rule image_eqI)
    show "i = (start + (if start \<le> i then i - start else n - start + i)) mod n"
      using n that by (auto simp: mod_if)
    show "(if start \<le> i then i - start else n - start + i) \<in> {0..<n}" using n that by auto
  qed
  then show ?thesis using n by (auto simp: probe_order_def)
qed

lemma first_open_None:
  assumes "first_open bm start = None" "start < length bm" "i < length bm"
  shows "bm ! i = FULL"
proof -
  have "i \<in> set (probe_order (length bm) start 0)"
    using probe_order_all [of "length bm" start] assms(2,3) by (cases "length bm = 0") auto
  then show ?thesis using assms(1) by (auto simp: first_open_def find_None_iff)
qed

lemma scan_first_open: "scan bc bm start = Some g \<Longrightarrow> first_open bm start = Some (g div 64) \<and> g mod 64 = low_zero (bm ! (g div 64))"
  by (auto simp: scan_def Let_def low_zero_less dest!: first_open_Some split: option.splits if_splits)

lemma scan_Some:
  assumes "scan bc bm start = Some g"
  shows "g < bc" "g < 64 * length bm" "\<not> used bm g"
proof -
  have o: "g div 64 < length bm" "bm ! (g div 64) \<noteq> FULL" "g mod 64 = low_zero (bm ! (g div 64))"
    using scan_first_open [OF assms] first_open_Some by blast+
  show "\<not> used bm g" using low_zero_clear [OF o(2)] o(3) by (simp add: used_def)
  show "g < 64 * length bm" using o(1) by linarith
  show "g < bc" using assms by (auto simp: scan_def Let_def split: option.splits if_splits)
qed

text \<open>When the last word is completely used by the pool, a clear bit is a free block.\<close>

lemma scan_complete:
  assumes "bc = 64 * length bm" "start < length bm" "g < bc" "\<not> used bm g"
  shows "\<exists>g'. scan bc bm start = Some g'"
proof -
  have i: "g div 64 < length bm" using assms(1,3) by linarith
  moreover have "bm ! (g div 64) \<noteq> FULL" using assms(4) by (auto simp: used_def)
  ultimately obtain i where o: "first_open bm start = Some i"
    using first_open_None [OF _ assms(2)] by (cases "first_open bm start") auto
  then have "i < length bm" "low_zero (bm ! i) < 64" using first_open_Some low_zero_less by blast+
  then have "64 * i + low_zero (bm ! i) < bc" using assms(1) by linarith
  with o show ?thesis by (simp add: scan_def)
qed

lemma probe_loop_scan:
  assumes "unat start < unat wc \<or> wc = 0" "unat wc \<le> 2 ^ 58" "length bm = unat wc"
  shows "\<exists>wi. probe_loop (replicate n True @ False # sps) bc wc bm start 0 =
     Some (case scan (unat bc) bm (unat start) of
             None \<Rightarrow> (Return_null, wi, bm)
           | Some g \<Rightarrow> (Claimed (of_nat g), of_nat (g div 64), set_used bm g))"
proof (cases "wc = 0")
  case True
  with assms(3) show ?thesis
    by (subst probe_loop.simps) (simp add: scan_def first_open_def probe_order_def)
next
  case False
  with assms(1) have st: "unat start < unat wc" by simp
  show ?thesis
  proof (cases "first_open bm (unat start)")
    case None
    then show ?thesis
      unfolding probe_loop_result [OF st assms(2,3)] using assms(3) by (simp add: first_open_def scan_def)
  next
    case (Some i)
    then have "find (\<lambda>i. bm ! i \<noteq> FULL) (probe_order (unat wc) (unat start) (unat (0 :: u64))) = Some i"
      using assms(3) by (simp add: first_open_def)
    moreover have "low_zero (bm ! i) < 64" using Some first_open_Some low_zero_less by blast
    ultimately show ?thesis
      unfolding probe_loop_result [OF st assms(2,3)] using Some
      by (auto simp: scan_def claim_result_def set_used_def Let_def)
  qed
qed

section \<open>Bitmaps whose used blocks are a prefix\<close>

lemma low_zero_eq:
  assumes "k < 64" "\<not> bit w k" "\<And>j. j < k \<Longrightarrow> bit w j"
  shows "low_zero w = k"
proof -
  have "w \<noteq> FULL" using assms(1,2) by auto
  then have "\<not> low_zero w < k" "\<not> k < low_zero w"
    using low_zero_clear low_zero_below [of k w] assms(2,3) by blast+
  then show ?thesis by simp
qed

lemma low_zero_0: "low_zero 0 = 0"
  by (rule low_zero_eq) simp_all

definition prefix_used :: "u64 list \<Rightarrow> nat \<Rightarrow> bool" where
  "prefix_used bm n = (\<forall>g < 64 * length bm. used bm g = (g < n))"

lemma prefix_word:
  assumes "prefix_used bm n" "i < length bm"
  shows "i < n div 64 \<Longrightarrow> bm ! i = FULL" "n div 64 \<le> i \<Longrightarrow> bm ! i \<noteq> FULL"
    "i = n div 64 \<Longrightarrow> low_zero (bm ! i) = n mod 64"
proof -
  have b: "bit (bm ! i) k = (64 * i + k < n)" if "k < 64" for k
  proof -
    have "64 * i + k < 64 * length bm" using assms(2) that by linarith
    with assms(1) have "used bm (64 * i + k) = (64 * i + k < n)" by (simp add: prefix_used_def)
    with that show ?thesis by (simp add: used_def)
  qed
  show "bm ! i = FULL" if "i < n div 64"
  proof (rule bit_word_eqI)
    fix k assume "k < LENGTH(64)"
    then have "k < 64" by simp
    moreover from this have "64 * i + k < n" using that by linarith
    ultimately show "bit (bm ! i) k = bit FULL k" using b by simp
  qed
  have m: "64 * (n div 64) + n mod 64 = n" by simp
  then have "\<not> bit (bm ! i) (n mod 64)" if "n div 64 \<le> i"
    using b [of "n mod 64"] mult_le_mono2 [OF that, of 64] m by fastforce
  then show "n div 64 \<le> i \<Longrightarrow> bm ! i \<noteq> FULL" by auto
  show "low_zero (bm ! i) = n mod 64" if "i = n div 64"
  proof (rule low_zero_eq)
    show "\<not> bit (bm ! i) (n mod 64)" using b [of "n mod 64"] m that by simp
    show "bit (bm ! i) j" if "j < n mod 64" for j
      using b [of j] m that \<open>i = n div 64\<close> mod_less_divisor [of 64 n] by linarith
  qed simp
qed

lemma probe_order_Cons:
  assumes "start < n"
  shows "probe_order n start 0 =
    start # (if n = 1 then [] else (if Suc start = n then 0 else Suc start) # map (\<lambda>p. (start + p) mod n) [2..<n])"
proof -
  have "[0..<n] = 0 # (if n = 1 then [] else 1 # [2..<n])"
    using assms by (simp add: upt_conv_Cons numeral_2_eq_2)
  with assms show ?thesis by (auto simp: probe_order_def)
qed

lemma prefix_scan:
  assumes p: "prefix_used bm n" and n: "n < bc" "bc \<le> 64 * length bm" and h: "start = (n - 1) div 64"
  shows "scan bc bm start = Some n"
proof -
  let ?i = "n div 64" and ?P = "\<lambda>i. bm ! i \<noteq> FULL"
  have i: "?i < length bm" using n by linarith
  have "first_open bm start = Some ?i"
  proof (cases "start = ?i")
    case True
    with i prefix_word(2) [OF p i] show ?thesis by (simp add: first_open_def probe_order_Cons)
  next
    case False
    then have s: "Suc start = ?i" using h by (cases n) (auto simp: div_Suc split: if_splits)
    then have "bm ! start = FULL" using i by (intro prefix_word(1) [OF p]) auto
    with i s prefix_word(2) [OF p i] show ?thesis by (simp add: first_open_def probe_order_Cons)
  qed
  then show ?thesis using prefix_word(3) [OF p i] n(1) by (simp add: scan_def)
qed

lemma prefix_full_scan:
  assumes p: "prefix_used bm bc"
  shows "scan bc bm start = None"
proof (rule ccontr)
  assume "scan bc bm start \<noteq> None"
  then obtain g where "g < bc" "g < 64 * length bm" "\<not> used bm g" using scan_Some by blast
  with p show False by (simp add: prefix_used_def)
qed

lemma prefix_set_used:
  "prefix_used bm n \<Longrightarrow> n < 64 * length bm \<Longrightarrow> prefix_used (set_used bm n) (Suc n)"
  by (auto simp: prefix_used_def used_set_used)

lemma prefix_replicate: "prefix_used (replicate k 0) 0"
  by (auto simp: prefix_used_def used_def)

end
