(* ===== verification/Bitmap.thy ===== *)
theory Bitmap
  imports Bitmap_Core
begin

text \<open>
  \<^verbatim>\<open>BitmapAllocator\<close> (include/bitmap\_allocator.hpp, src/bitmap\_allocator.cpp): one array of
  blocks and a bitmap with a set bit for every block in use. This theory models calls that run
  without interference; \<open>Bitmap_Conc\<close> has the interleaved executions.
\<close>

section \<open>Data and operations\<close>

text \<open>The array \<^verbatim>\<open>m_bitmap\<close> points to is the list \<open>m_bitmap\<close>; its address is \<open>m_bitmap_at\<close>.\<close>

record BitmapAllocator =
  m_block_size :: u64
  m_block_count :: u64
  m_word_count :: u64
  m_memory :: addr
  m_bitmap_at :: addr
  m_bitmap :: "u64 list"
  m_hint :: u64

text \<open>
  The constructor, given the results \<open>r1\<close> and \<open>r2\<close> of its two calls of
  \<^verbatim>\<open>std::aligned_alloc\<close>: the new object or \<^verbatim>\<open>std::bad_alloc\<close>, and the outstanding
  allocations afterwards.
\<close>

definition BitmapAllocator_new ::
  "addr \<Rightarrow> addr \<Rightarrow> libc \<Rightarrow> u64 \<Rightarrow> u64 \<Rightarrow> (cpp_error + BitmapAllocator) \<times> libc" where
  "BitmapAllocator_new r1 r2 live block_size block_count =
     (let bsize = (if block_size < 16 then 16 else block_size);
          word_count = (block_count + WORD_BITS - 1) div WORD_BITS;
          aligned_size = ((bsize + 63) div 64) * 64;
          live1 = libc_alloc r1 (aligned_size * block_count) live
      in if r1 = nullptr then (Inl Bad_alloc, live1)
         else let live2 = libc_alloc r2 (8 * word_count) live1
              in if r2 = nullptr then (Inl Bad_alloc, libc_free r1 live2)
                 else (Inr \<lparr>m_block_size = aligned_size, m_block_count = block_count,
                            m_word_count = word_count, m_memory = r1, m_bitmap_at = r2,
                            m_bitmap = replicate (unat word_count) 0, m_hint = 0\<rparr>, live2))"

definition BitmapAllocator_delete :: "BitmapAllocator \<Rightarrow> libc \<Rightarrow> libc" where
  "BitmapAllocator_delete b live = libc_free (m_memory b) (libc_free (m_bitmap_at b) live)"

definition index_to_ptr :: "BitmapAllocator \<Rightarrow> u64 \<Rightarrow> addr" where
  "index_to_ptr b index = m_memory b + index * m_block_size b"

definition ptr_to_index :: "BitmapAllocator \<Rightarrow> addr \<Rightarrow> u64 option" where
  "ptr_to_index b p =
     (if m_block_size b = 0 then None else Some ((p - m_memory b) div m_block_size b))"

definition alloc_with :: "bool list \<Rightarrow> BitmapAllocator \<Rightarrow> (addr \<times> BitmapAllocator) option" where
  "alloc_with sps b =
     do { (r, word_index, bm) \<leftarrow>
            probe_loop sps (m_block_count b) (m_word_count b) (m_bitmap b) (m_hint b) 0;
          case r of
            Claimed global_index \<Rightarrow>
              Some (index_to_ptr b global_index, b\<lparr>m_bitmap := bm, m_hint := word_index\<rparr>)
          | _ \<Rightarrow> Some (nullptr, b\<lparr>m_bitmap := bm\<rparr>) }"

definition alloc :: "BitmapAllocator \<Rightarrow> (addr \<times> BitmapAllocator) option" where
  "alloc b = alloc_with [False] b"

definition dealloc :: "BitmapAllocator \<Rightarrow> addr \<Rightarrow> BitmapAllocator option" where
  "dealloc b p =
     do { index \<leftarrow> ptr_to_index b p;
          let word_index = index div WORD_BITS;
          let bit_index = index mod WORD_BITS;
          bm \<leftarrow> fetch_and (m_bitmap b) word_index (NOT (push_bit (unat bit_index) 1));
          Some (b\<lparr>m_bitmap := bm, m_hint := word_index\<rparr>) }"

section \<open>Well-formed allocators\<close>

definition bm_invar :: "BitmapAllocator \<Rightarrow> bool" where
  "bm_invar b =
     (unat (m_block_count b) + 63 < 2 ^ 64
      \<and> unat (m_word_count b) = (unat (m_block_count b) + 63) div 64
      \<and> length (m_bitmap b) = unat (m_word_count b)
      \<and> (unat (m_hint b) < unat (m_word_count b) \<or> m_hint b = 0)
      \<and> array_fits (m_memory b) (m_block_size b) (unat (m_block_count b)))"

definition bm_block :: "BitmapAllocator \<Rightarrow> nat \<Rightarrow> addr" where
  "bm_block b g = block_at (m_memory b) (m_block_size b) g"

definition bm_blocks :: "BitmapAllocator \<Rightarrow> addr set" where
  "bm_blocks b = bm_block b ` {g. g < unat (m_block_count b)}"

definition bm_free :: "BitmapAllocator \<Rightarrow> addr set" where
  "bm_free b = bm_block b ` {g. g < unat (m_block_count b) \<and> \<not> used (m_bitmap b) g}"

lemma bm_invar_simps:
  assumes "bm_invar b"
  shows "unat (m_word_count b) \<le> 2 ^ 58" "length (m_bitmap b) = unat (m_word_count b)"
    "g < unat (m_block_count b) \<Longrightarrow> g < 64 * length (m_bitmap b)"
    "unat (m_hint b) < unat (m_word_count b) \<or> m_word_count b = 0"
    "array_fits (m_memory b) (m_block_size b) (unat (m_block_count b))"
proof -
  note inv = assms [unfolded bm_invar_def]
  have "(unat (m_block_count b) + 63) div 64 \<le> 2 ^ 64 div 64" by (rule div_le_mono) (use inv in simp)
  then show "unat (m_word_count b) \<le> 2 ^ 58" using inv by simp
  show "g < unat (m_block_count b) \<Longrightarrow> g < 64 * length (m_bitmap b)"
    using inv div_mult_mod_eq [of "unat (m_block_count b) + 63" 64]
      mod_less_divisor [of 64 "unat (m_block_count b) + 63"] by simp
  have "unat (m_word_count b) = 0 \<longleftrightarrow> m_word_count b = 0" by (simp add: unat_eq_0)
  then show "unat (m_hint b) < unat (m_word_count b) \<or> m_word_count b = 0" using inv by auto
qed (use assms in \<open>simp_all add: bm_invar_def\<close>)

lemma bm_count_le: "bm_invar b \<Longrightarrow> unat (m_block_count b) \<le> 64 * length (m_bitmap b)"
  using bm_invar_simps(3) [of b "unat (m_block_count b) - 1"] by (cases "unat (m_block_count b)") auto

lemma bm_block_inj:
  "bm_invar b \<Longrightarrow> g < unat (m_block_count b) \<Longrightarrow> g' < unat (m_block_count b) \<Longrightarrow>
     (bm_block b g = bm_block b g') = (g = g')"
  unfolding bm_block_def using block_at_inj bm_invar_simps(5) by blast

lemma index_to_ptr_block: "index_to_ptr b (of_nat g) = bm_block b g"
  by (simp add: index_to_ptr_def bm_block_def block_at_def)

lemma ptr_to_index_block:
  assumes "bm_invar b" "g < unat (m_block_count b)"
  shows "ptr_to_index b (bm_block b g) = Some (of_nat g)"
proof -
  note fits = bm_invar_simps(5) [OF assms(1)]
  have "m_block_size b \<noteq> 0" using fits by (auto simp: array_fits_def)
  moreover have "unat ((bm_block b g - m_memory b) div m_block_size b) = g"
    unfolding bm_block_def by (rule block_index [OF fits assms(2)])
  ultimately show ?thesis by (metis ptr_to_index_def of_nat_unat_64)
qed

subsection \<open>The two operations on the set of used blocks\<close>

lemma alloc_scan:
  assumes "bm_invar b"
  shows "alloc_with (replicate n True @ False # sps) b =
     Some (case scan (unat (m_block_count b)) (m_bitmap b) (unat (m_hint b)) of
             None \<Rightarrow> (nullptr, b)
           | Some g \<Rightarrow> (bm_block b g, b\<lparr>m_bitmap := set_used (m_bitmap b) g, m_hint := of_nat (g div 64)\<rparr>))"
proof -
  obtain wi where "probe_loop (replicate n True @ False # sps) (m_block_count b) (m_word_count b) (m_bitmap b) (m_hint b) 0 =
     Some (case scan (unat (m_block_count b)) (m_bitmap b) (unat (m_hint b)) of
             None \<Rightarrow> (Return_null, wi, m_bitmap b)
           | Some g \<Rightarrow> (Claimed (of_nat g), of_nat (g div 64), set_used (m_bitmap b) g))"
    using probe_loop_scan [OF bm_invar_simps(4,1,2) [OF assms]] by blast
  then show ?thesis by (simp add: alloc_with_def index_to_ptr_block split: option.splits)
qed

lemmas alloc_scan' = alloc_scan [of _ 0 "[]", simplified, folded alloc_def]

lemma dealloc_block:
  assumes "bm_invar b" "g < unat (m_block_count b)"
  shows "dealloc b (bm_block b g) =
     Some (b\<lparr>m_bitmap := clear_used (m_bitmap b) g, m_hint := of_nat (g div 64)\<rparr>)"
proof -
  have g: "g < 64 * length (m_bitmap b)" "g < 2 ^ 64"
    using bm_invar_simps(3) [OF assms] assms(2) unat_lt_2p64 [of "m_block_count b"] by auto
  have wi: "unat (of_nat g div WORD_BITS :: u64) = g div 64" and bi: "unat (of_nat g mod WORD_BITS :: u64) = g mod 64"
    using unat_of_nat_64 [OF g(2)] by (simp_all add: WORD_BITS_def unat_div unat_mod)
  have ww: "of_nat g div WORD_BITS = (of_nat (g div 64) :: u64)" using wi of_nat_unat_64 by metis
  have "g div 64 < length (m_bitmap b)" using g(1) by linarith
  then show ?thesis
    using wi bi ww by (simp add: dealloc_def ptr_to_index_block [OF assms] fetch_and_def load_def clear_used_def)
qed

lemma bm_invar_update:
  assumes "bm_invar b" "length bm = length (m_bitmap b)" "g < unat (m_block_count b)"
  shows "bm_invar (b\<lparr>m_bitmap := bm, m_hint := of_nat (g div 64)\<rparr>)"
proof -
  have d: "g div 64 < length (m_bitmap b)" using bm_invar_simps(3) [OF assms(1,3)] by linarith
  then have "unat (of_nat (g div 64) :: u64) = g div 64"
    using bm_invar_simps(1,2) [OF assms(1)] by (intro unat_of_nat_64) simp
  with d assms show ?thesis by (simp add: bm_invar_def)
qed

lemma bm_fields_update [simp]:
  "bm_block (b\<lparr>m_bitmap := bm, m_hint := k\<rparr>) = bm_block b"
  "bm_blocks (b\<lparr>m_bitmap := bm, m_hint := k\<rparr>) = bm_blocks b"
  by (auto simp: bm_block_def bm_blocks_def fun_eq_iff)

lemma bm_free_mem:
  "bm_invar b \<Longrightarrow> g < unat (m_block_count b) \<Longrightarrow> (bm_block b g \<in> bm_free b) = (\<not> used (m_bitmap b) g)"
  unfolding bm_free_def using bm_block_inj by blast

lemma bm_free_set:
  assumes "bm_invar b" "g < unat (m_block_count b)"
  shows "bm_free (b\<lparr>m_bitmap := set_used (m_bitmap b) g, m_hint := k\<rparr>) = bm_free b - {bm_block b g}"
proof -
  have "{g'. g' < unat (m_block_count b) \<and> \<not> used (set_used (m_bitmap b) g) g'}
      = {g'. g' < unat (m_block_count b) \<and> \<not> used (m_bitmap b) g'} - {g}"
    using used_set_used [OF bm_invar_simps(3) [OF assms]] by auto
  moreover have "bm_block b ` (G - {g}) = bm_block b ` G - {bm_block b g}" if "G \<subseteq> {g'. g' < unat (m_block_count b)}" for G
    using that bm_block_inj [OF assms(1) assms(2)] by blast
  ultimately show ?thesis unfolding bm_free_def by auto
qed

lemma bm_free_clear:
  assumes "bm_invar b" "g < unat (m_block_count b)"
  shows "bm_free (b\<lparr>m_bitmap := clear_used (m_bitmap b) g, m_hint := k\<rparr>) = insert (bm_block b g) (bm_free b)"
proof -
  have "{g'. g' < unat (m_block_count b) \<and> \<not> used (clear_used (m_bitmap b) g) g'}
      = insert g {g'. g' < unat (m_block_count b) \<and> \<not> used (m_bitmap b) g'}"
    using used_clear_used [OF bm_invar_simps(3) [OF assms]] assms(2) by auto
  then show ?thesis unfolding bm_free_def by auto
qed

section \<open>The bitmap allocator is a pool of blocks\<close>

lemma alloc_cases:
  assumes "bm_invar b"
  obtains (null) "alloc b = Some (nullptr, b)" "scan (unat (m_block_count b)) (m_bitmap b) (unat (m_hint b)) = None"
  | (block) g where "g < unat (m_block_count b)" "\<not> used (m_bitmap b) g"
      "scan (unat (m_block_count b)) (m_bitmap b) (unat (m_hint b)) = Some g"
      "alloc b = Some (bm_block b g, b\<lparr>m_bitmap := set_used (m_bitmap b) g, m_hint := of_nat (g div 64)\<rparr>)"
  using alloc_scan' [OF assms] scan_Some
  by (cases "scan (unat (m_block_count b)) (m_bitmap b) (unat (m_hint b))") auto

lemma bm_block_nonnull: "bm_invar b \<Longrightarrow> g < unat (m_block_count b) \<Longrightarrow> bm_block b g \<noteq> nullptr"
  unfolding bm_block_def using block_at_nonnull bm_invar_simps(5) by blast

interpretation bm: block_pool alloc dealloc bm_invar bm_blocks bm_free
proof unfold_locales
  fix b assume b: "bm_invar b"
  show "bm_free b \<subseteq> bm_blocks b" by (auto simp: bm_free_def bm_blocks_def)
  show "nullptr \<notin> bm_blocks b" using bm_block_nonnull [OF b] by (auto simp: bm_blocks_def)
  show "\<exists>p b'. alloc b = Some (p, b')" using b by (rule alloc_cases) auto
  show "\<exists>b'. dealloc b p = Some b' \<and> bm_invar b' \<and> bm_blocks b' = bm_blocks b \<and> bm_free b' = insert p (bm_free b)"
    if "p \<in> bm_blocks b - bm_free b" for p
  proof -
    from that obtain g where "p = bm_block b g" "g < unat (m_block_count b)" by (auto simp: bm_blocks_def)
    then show ?thesis using dealloc_block [OF b] bm_invar_update [OF b] bm_free_clear [OF b] by simp
  qed
  fix p b' assume a: "alloc b = Some (p, b')"
  show "bm_invar b'" "bm_blocks b' = bm_blocks b"
    "p \<noteq> nullptr \<Longrightarrow> p \<in> bm_free b \<and> bm_free b' = bm_free b - {p}"
    using b a by (cases rule: alloc_cases; auto simp: bm_invar_update bm_free_mem bm_free_set)+
next
  fix b b' assume b: "bm_invar b" and a: "alloc b = Some (nullptr, b')"
  from b show "bm_free b' = bm_free b"
    by (cases rule: alloc_cases) (use a bm_block_nonnull [OF b] in auto)
qed

text \<open>With a block count that is a multiple of 64 every bit of the bitmap stands for a block.\<close>

definition bm_invar64 :: "BitmapAllocator \<Rightarrow> bool" where
  "bm_invar64 b = (bm_invar b \<and> 64 dvd unat (m_block_count b))"

lemma bm_alloc64_complete:
  assumes "bm_invar64 b" "bm_free b \<noteq> {}"
  shows "\<exists>p b'. alloc b = Some (p, b') \<and> p \<noteq> nullptr"
proof -
  have b: "bm_invar b" and "64 dvd unat (m_block_count b)" using assms(1) by (auto simp: bm_invar64_def)
  then have full: "unat (m_block_count b) = 64 * length (m_bitmap b)" by (auto simp: bm_invar_def)
  obtain g where g: "g < unat (m_block_count b)" "\<not> used (m_bitmap b) g" using assms(2) by (auto simp: bm_free_def)
  then have "unat (m_hint b) < length (m_bitmap b)"
    using bm_invar_simps(2,3,4) [OF b] by (metis mult_is_0 not_less_zero unat_0)
  then obtain g' where "scan (unat (m_block_count b)) (m_bitmap b) (unat (m_hint b)) = Some g'"
    using scan_complete [OF full _ g] by blast
  with b show ?thesis by (cases rule: alloc_cases) (use bm_block_nonnull [OF b] in auto)
qed

interpretation bm64: complete_pool alloc dealloc bm_invar64 bm_blocks bm_free
proof -
  have "m_block_count b' = m_block_count b" if "bm_invar b" "alloc b = Some (p, b')" for b p b'
    using that by (cases rule: alloc_cases) auto
  moreover have "m_block_count b' = m_block_count b" if "dealloc b p = Some b'" for b p b'
    using that by (auto simp: dealloc_def Let_def)
  ultimately have "block_pool alloc dealloc (\<lambda>b. bm_invar b \<and> 64 dvd unat (m_block_count b)) bm_blocks bm_free"
    by (intro bm.strengthen) simp_all
  then show "complete_pool alloc dealloc bm_invar64 bm_blocks bm_free"
    using bm_alloc64_complete
    by (auto simp: complete_pool_def complete_pool_axioms_def bm_invar64_def [abs_def])
qed

section \<open>Construction and filling\<close>

lemma BitmapAllocator_new_invar:
  assumes "BitmapAllocator_new r1 r2 live bs bc = (Inr b, live')"
    and "unat bs + 63 < 2 ^ 64" "unat bc + 63 < 2 ^ 64"
    and "unat r1 + unat bc * (((max 16 (unat bs) + 63) div 64) * 64) < 2 ^ 64"
  shows "bm_invar b" "prefix_used (m_bitmap b) 0" "m_hint b = 0" "m_block_count b = bc" "m_memory b = r1"
    "unat (m_block_size b) = ((max 16 (unat bs) + 63) div 64) * 64"
proof -
  let ?s = "if bs < 16 then 16 else bs"
  have us: "unat ?s = max 16 (unat bs)" by (auto simp: word_less_nat_alt max_def)
  then have sz: "unat (((?s + 63) div 64) * 64 :: u64) = ((max 16 (unat bs) + 63) div 64) * 64"
    using round_up_64 [of ?s] assms(2) by (simp add: max_def split: if_splits)
  have r: "r1 \<noteq> nullptr" and b: "b = \<lparr>m_block_size = ((?s + 63) div 64) * 64, m_block_count = bc,
      m_word_count = (bc + 64 - 1) div 64, m_memory = r1, m_bitmap_at = r2,
      m_bitmap = replicate (unat ((bc + 64 - 1) div 64 :: u64)) 0, m_hint = 0\<rparr>"
    using assms(1) by (auto simp: BitmapAllocator_new_def Let_def WORD_BITS_def split: if_splits)
  show "unat (m_block_size b) = ((max 16 (unat bs) + 63) div 64) * 64" using sz unfolding b by simp
  show "m_hint b = 0" "m_block_count b = bc" "m_memory b = r1" "prefix_used (m_bitmap b) 0"
    unfolding b by (simp_all add: prefix_replicate)
  have pos: "0 < ((max 16 (unat bs) + 63) div 64) * 64" by simp
  have "0 < unat r1" using r by (simp add: unat_gt_0)
  with pos assms(4) have "array_fits r1 (m_block_size b) (unat bc)"
    unfolding array_fits_def using sz unfolding b by (simp only: BitmapAllocator.simps)
  then show "bm_invar b"
    unfolding b bm_invar_def using assms(3) unat_words_for [OF assms(3)] by simp
qed

fun alloc_n :: "nat \<Rightarrow> BitmapAllocator \<Rightarrow> (addr list \<times> BitmapAllocator) option" where
  "alloc_n 0 b = Some ([], b)"
| "alloc_n (Suc n) b = do { (ps, b1) \<leftarrow> alloc_n n b; (p, b2) \<leftarrow> alloc b1; Some (ps @ [p], b2) }"

lemma alloc_n_prefix:
  assumes "bm_invar b" "prefix_used (m_bitmap b) 0" "m_hint b = 0" "n \<le> unat (m_block_count b)"
  shows "\<exists>b'. alloc_n n b = Some (map (bm_block b) [0..<n], b') \<and> bm_invar b' \<and> prefix_used (m_bitmap b') n
     \<and> unat (m_hint b') = (n - 1) div 64 \<and> (\<exists>bm k. b' = b\<lparr>m_bitmap := bm, m_hint := k\<rparr>)"
  using assms(4)
proof (induction n)
  case 0
  have "b = b\<lparr>m_bitmap := m_bitmap b, m_hint := m_hint b\<rparr>" by simp
  with assms(1-3) show ?case by fastforce
next
  case (Suc n)
  then obtain b1 bm k where b1: "alloc_n n b = Some (map (bm_block b) [0..<n], b1)" "bm_invar b1"
    "prefix_used (m_bitmap b1) n" "unat (m_hint b1) = (n - 1) div 64" "b1 = b\<lparr>m_bitmap := bm, m_hint := k\<rparr>"
    by auto
  have n: "n < unat (m_block_count b1)" "unat (m_block_count b1) \<le> 64 * length (m_bitmap b1)"
    using Suc.prems b1(5) bm_count_le [OF b1(2)] by simp_all
  then have nl: "n < 64 * length (m_bitmap b1)" by simp
  have "scan (unat (m_block_count b1)) (m_bitmap b1) (unat (m_hint b1)) = Some n"
    by (rule prefix_scan [OF b1(3) n b1(4)])
  then have "alloc b1 = Some (bm_block b n, b1\<lparr>m_bitmap := set_used (m_bitmap b1) n, m_hint := of_nat (n div 64)\<rparr>)"
    using alloc_scan' [OF b1(2)] b1(5) by simp
  moreover have "bm_invar (b1\<lparr>m_bitmap := set_used (m_bitmap b1) n, m_hint := of_nat (n div 64)\<rparr>)"
    by (rule bm_invar_update [OF b1(2) _ n(1)]) simp
  moreover have "unat (of_nat (n div 64) :: u64) = n div 64"
    using n(1) unat_lt_2p64 [of "m_block_count b1"] by (intro unat_of_nat_64) linarith
  ultimately show ?case
    using b1 prefix_set_used [OF b1(3) nl] by auto
qed

section \<open>Properties\<close>

definition demo_bm :: BitmapAllocator where
  "demo_bm = \<lparr>m_block_size = 64, m_block_count = 65, m_word_count = 2, m_memory = 4096, m_bitmap_at = 16384,
              m_bitmap = [0, 1], m_hint = 1\<rparr>"

lemma demo_bm_invar: "bm_invar demo_bm"
  by (simp add: bm_invar_def demo_bm_def array_fits_def)

text \<open>C5. Functional behaviour of \<^verbatim>\<open>BitmapAllocator::alloc\<close> and \<^verbatim>\<open>dealloc\<close>. A well-formed
  allocator's \<^verbatim>\<open>alloc\<close> returns, however many weak exchanges fail spuriously. Either it returns null
  and the allocator is unchanged, or it returns the address of a block that was free and differs from
  the old allocator only in that this block's bit is set and the hint names its word.
  \<^verbatim>\<open>dealloc\<close> of any block of the pool clears exactly that block's bit.\<close>

theorem bitmap_alloc_dealloc_functional:
  assumes "bm_invar b"
  shows "(\<exists>p b'. alloc_with (replicate n True @ False # sps) b = Some (p, b') \<and> bm_invar b' \<and>
       (p = nullptr \<and> b' = b \<or>
        (\<exists>g < unat (m_block_count b). p = bm_block b g \<and> \<not> used (m_bitmap b) g \<and>
           (\<forall>j. used (m_bitmap b') j = (used (m_bitmap b) j \<or> j = g)) \<and>
           b' = b\<lparr>m_bitmap := m_bitmap b', m_hint := of_nat (g div 64)\<rparr>)))
     \<and> (\<forall>g < unat (m_block_count b). \<exists>b'. dealloc b (bm_block b g) = Some b' \<and> bm_invar b' \<and>
           (\<forall>j. used (m_bitmap b') j = (used (m_bitmap b) j \<and> j \<noteq> g)) \<and>
           b' = b\<lparr>m_bitmap := m_bitmap b', m_hint := of_nat (g div 64)\<rparr>)"
proof (intro conjI allI impI)
  show "\<exists>p b'. alloc_with (replicate n True @ False # sps) b = Some (p, b') \<and> bm_invar b' \<and>
       (p = nullptr \<and> b' = b \<or>
        (\<exists>g < unat (m_block_count b). p = bm_block b g \<and> \<not> used (m_bitmap b) g \<and>
           (\<forall>j. used (m_bitmap b') j = (used (m_bitmap b) j \<or> j = g)) \<and>
           b' = b\<lparr>m_bitmap := m_bitmap b', m_hint := of_nat (g div 64)\<rparr>))"
  proof (cases "scan (unat (m_block_count b)) (m_bitmap b) (unat (m_hint b))")
    case None
    with assms show ?thesis by (simp add: alloc_scan)
  next
    case (Some g)
    with scan_Some [OF Some] assms show ?thesis
      by (auto simp: alloc_scan used_set_used bm_invar_update)
  qed
next
  fix g assume g: "g < unat (m_block_count b)"
  show "\<exists>b'. dealloc b (bm_block b g) = Some b' \<and> bm_invar b' \<and>
           (\<forall>j. used (m_bitmap b') j = (used (m_bitmap b) j \<and> j \<noteq> g)) \<and>
           b' = b\<lparr>m_bitmap := m_bitmap b', m_hint := of_nat (g div 64)\<rparr>"
    using dealloc_block [OF assms g] used_clear_used [OF bm_invar_simps(3) [OF assms g]] bm_invar_update [OF assms _ g]
    by simp
qed

theorem bitmap_alloc_dealloc_functional_witness:
  "(\<exists>p b'. alloc_with [True, True, False] demo_bm = Some (p, b') \<and> bm_invar b') \<and>
   (\<exists>b'. dealloc demo_bm (bm_block demo_bm 64) = Some b' \<and> \<not> used (m_bitmap b') 64)"
proof -
  have "64 < unat (m_block_count demo_bm)" by (simp add: demo_bm_def)
  with bitmap_alloc_dealloc_functional [OF demo_bm_invar, of 2 "[]"] show ?thesis
    by (auto simp: numeral_2_eq_2)
qed

text \<open>The client view of \<^verbatim>\<open>BitmapAllocator\<close>: what \<^verbatim>\<open>alloc\<close> returns is null or a block
  that was free and is not any more; giving a block in use back makes exactly it free again, so that
  after \<^verbatim>\<open>alloc\<close> and \<^verbatim>\<open>dealloc\<close> of the result the bitmap is the original one.\<close>

theorem bitmap_alloc_dealloc_roundtrip:
  assumes "bm_invar b" "alloc b = Some (p, b1)" "p \<noteq> nullptr"
  shows "\<exists>b2. p \<in> bm_free b \<and> bm_free b1 = bm_free b - {p} \<and> dealloc b1 p = Some b2
           \<and> bm_free b2 = bm_free b \<and> m_bitmap b2 = m_bitmap b"
  using assms(1)
proof (cases rule: alloc_cases)
  case null
  then show ?thesis using assms(2,3) by simp
next
  case (block g)
  let ?b1 = "b\<lparr>m_bitmap := set_used (m_bitmap b) g, m_hint := of_nat (g div 64)\<rparr>"
  have p: "p = bm_block b g" "b1 = ?b1" using block(4) assms(2) by auto
  have i1: "bm_invar b1" unfolding p by (rule bm_invar_update [OF assms(1) _ block(1)]) simp
  have g: "g < 64 * length (m_bitmap b)" by (rule bm_invar_simps(3) [OF assms(1) block(1)])
  have "clear_used (set_used (m_bitmap b) g) g = m_bitmap b"
    using g block(2) by (intro used_ext) (auto simp: used_clear_used used_set_used)
  moreover have "dealloc b1 p = Some (b1\<lparr>m_bitmap := clear_used (m_bitmap b1) g, m_hint := of_nat (g div 64)\<rparr>)"
    using dealloc_block [OF i1, of g] block(1) p by simp
  moreover have "p \<in> bm_free b" using bm.alloc_some [OF assms] by simp
  ultimately show ?thesis
    using bm.alloc_some [OF assms] p by (auto simp: bm_free_def bm_block_def)
qed

theorem bitmap_alloc_dealloc_roundtrip_witness:
  "\<exists>p b1 b2. alloc (demo_bm\<lparr>m_hint := 0\<rparr>) = Some (p, b1) \<and> p \<noteq> nullptr \<and> dealloc b1 p = Some b2 \<and> m_bitmap b2 = [0, 1]"
proof -
  let ?b = "demo_bm\<lparr>m_hint := 0\<rparr>"
  have i: "bm_invar ?b" by (simp add: bm_invar_def demo_bm_def array_fits_def)
  have "scan 65 [0, 1] 0 = Some 0" by (simp add: scan_def first_open_def probe_order_Cons FULL_def low_zero_0)
  then have a: "alloc ?b = Some (bm_block ?b 0, ?b\<lparr>m_bitmap := set_used (m_bitmap ?b) 0, m_hint := of_nat (0 div 64)\<rparr>)"
    using alloc_scan' [OF i] by (simp add: demo_bm_def)
  moreover have nn: "bm_block ?b 0 \<noteq> nullptr" by (simp add: bm_block_def block_at_def demo_bm_def)
  ultimately show ?thesis
    using bitmap_alloc_dealloc_roundtrip [OF i a nn] by (auto simp: demo_bm_def)
qed

text \<open>C19. Completeness for block counts that are a multiple of 64: \<^verbatim>\<open>alloc\<close> returns null
  exactly when no block is free.\<close>

theorem bitmap_complete_for_full_words:
  assumes "bm_invar b" "64 dvd unat (m_block_count b)" "alloc b = Some (p, b')"
  shows "p = nullptr \<longleftrightarrow> bm_free b = {}"
  by (rule bm64.null_iff_exhausted [OF _ assms(3)]) (simp add: bm_invar64_def assms)

theorem bitmap_complete_for_full_words_witness:
  "\<exists>b p b'. alloc b = Some (p, b') \<and> m_block_count b = 64 \<and> m_bitmap b = [FULL] \<and> (p = nullptr \<longleftrightarrow> bm_free b = {})"
proof -
  let ?b = "demo_bm\<lparr>m_block_count := 64, m_word_count := 1, m_bitmap := [FULL], m_hint := 0\<rparr>"
  have i: "bm_invar ?b" by (simp add: bm_invar_def demo_bm_def array_fits_def)
  then obtain p b' where a: "alloc ?b = Some (p, b')" using bm.alloc_returns by blast
  moreover have "64 dvd unat (m_block_count ?b)" by (simp add: demo_bm_def)
  ultimately have "p = nullptr \<longleftrightarrow> bm_free ?b = {}"
    using bitmap_complete_for_full_words [OF i _ a] by simp
  with a show ?thesis by (intro exI [of _ ?b] exI [of _ p] exI [of _ b']) simp
qed

text \<open>Filling a new allocator: the first \<^verbatim>\<open>block_count\<close> calls of \<^verbatim>\<open>alloc\<close> all succeed and
  hand out the blocks in address order from the start of the region, and the next call returns null.\<close>

theorem bitmap_fill_in_order:
  assumes "BitmapAllocator_new r1 r2 live bs bc = (Inr b, live')"
    and "unat bs + 63 < 2 ^ 64" "unat bc + 63 < 2 ^ 64"
    and "unat r1 + unat bc * (((max 16 (unat bs) + 63) div 64) * 64) < 2 ^ 64"
    and "n \<le> unat bc"
  shows "\<exists>b'. alloc_n n b = Some (map (\<lambda>i. r1 + of_nat i * m_block_size b) [0..<n], b')
           \<and> (n = unat bc \<longrightarrow> alloc b' = Some (nullptr, b'))"
proof -
  note new = BitmapAllocator_new_invar [OF assms(1-4)]
  obtain b' bm k where b': "alloc_n n b = Some (map (bm_block b) [0..<n], b')" "bm_invar b'"
    "prefix_used (m_bitmap b') n" "b' = b\<lparr>m_bitmap := bm, m_hint := k\<rparr>"
    using alloc_n_prefix [OF new(1-3)] assms(5) new(4) by blast
  have "bm_block b = (\<lambda>i. r1 + of_nat i * m_block_size b)"
    using new(5) by (simp add: bm_block_def block_at_def fun_eq_iff)
  moreover have "alloc b' = Some (nullptr, b')" if "n = unat bc"
    using alloc_scan' [OF b'(2)] prefix_full_scan [OF b'(3)] b'(4) new(4) that by simp
  ultimately show ?thesis using b'(1) by auto
qed

theorem bitmap_fill_in_order_witness:
  "\<exists>b b'. alloc_n 65 b = Some (map (\<lambda>i. 4096 + of_nat i * m_block_size b) [0..<65], b') \<and> alloc b' = Some (nullptr, b')"
proof -
  obtain b live' where n: "BitmapAllocator_new 4096 16384 Map.empty 64 65 = (Inr b, live')"
    by (simp add: BitmapAllocator_new_def Let_def)
  show ?thesis using bitmap_fill_in_order [OF n, of 65] by auto
qed

text \<open>C20. Block layout: in a well-formed allocator \<^verbatim>\<open>index_to_ptr\<close> and \<^verbatim>\<open>ptr_to_index\<close> are
  inverse on the pool, no address computation wraps, every block lies inside the region, distinct blocks
  do not overlap, and a block of a region aligned to 64 with the constructor's block size is aligned to 64.\<close>

theorem bitmap_block_layout:
  assumes "bm_invar b" "i < unat (m_block_count b)" "j < unat (m_block_count b)"
  shows "ptr_to_index b (index_to_ptr b (of_nat i)) = Some (of_nat i)
     \<and> unat (index_to_ptr b (of_nat i)) = unat (m_memory b) + i * unat (m_block_size b)
     \<and> (i < j \<longrightarrow> unat (index_to_ptr b (of_nat i)) + unat (m_block_size b) \<le> unat (index_to_ptr b (of_nat j)))
     \<and> unat (index_to_ptr b (of_nat i)) + unat (m_block_size b)
         \<le> unat (m_memory b) + unat (m_block_count b) * unat (m_block_size b)
     \<and> (64 dvd unat (m_memory b) \<and> 64 dvd unat (m_block_size b) \<longrightarrow> 64 dvd unat (index_to_ptr b (of_nat i)))"
proof -
  note fits = bm_invar_simps(5) [OF assms(1)]
  have u: "unat (index_to_ptr b (of_nat i)) = unat (m_memory b) + i * unat (m_block_size b)"
    unfolding index_to_ptr_block bm_block_def by (rule unat_block_at [OF fits assms(2)])
  have "Suc i * unat (m_block_size b) \<le> unat (m_block_count b) * unat (m_block_size b)"
    using assms(2) by (intro mult_le_mono1) simp
  with u ptr_to_index_block [OF assms(1,2)] block_at_apart [OF fits _ assms(3), of i] show ?thesis
    unfolding index_to_ptr_block by (auto simp: bm_block_def)
qed

theorem bitmap_block_layout_witness:
  "ptr_to_index demo_bm (index_to_ptr demo_bm (of_nat 3)) = Some (of_nat 3)
   \<and> unat (index_to_ptr demo_bm (of_nat 3)) + unat (m_block_size demo_bm) \<le> unat (index_to_ptr demo_bm (of_nat 64))"
proof -
  have "3 < unat (m_block_count demo_bm)" "64 < unat (m_block_count demo_bm)" by (simp_all add: demo_bm_def)
  from bitmap_block_layout [OF demo_bm_invar this] show ?thesis by auto
qed

text \<open>C21. Resources of \<^verbatim>\<open>BitmapAllocator\<close>: when the constructor throws \<^verbatim>\<open>bad_alloc\<close>, whichever
  of its two allocations failed, no allocation stays outstanding; when it succeeds with two distinct
  fresh regions, exactly those two are outstanding and the destructor returns both.\<close>

theorem bitmap_ctor_no_leak:
  assumes "r1 \<notin> dom live" "r2 \<notin> dom live" "r1 \<noteq> r2"
  shows "case BitmapAllocator_new r1 r2 live bs bc of
      (Inl Bad_alloc, live') \<Rightarrow> (r1 = nullptr \<or> r2 = nullptr) \<and> live' = live
    | (Inr b, live') \<Rightarrow> r1 \<noteq> nullptr \<and> r2 \<noteq> nullptr \<and> dom live' = {r1, r2} \<union> dom live
        \<and> live' r1 = Some (m_block_size b * bc) \<and> BitmapAllocator_delete b live' = live"
proof -
  have out: "live r1 = None" "live r2 = None" using assms(1,2) by (auto simp: domIff)
  then have "live(r1 := None) = live" "(live(r1 \<mapsto> x, r2 \<mapsto> y))(r2 := None, r1 := None) = live" for x y
    using assms(3) by (auto simp: fun_eq_iff)
  then show ?thesis
    using out assms(3)
    by (auto simp: BitmapAllocator_new_def BitmapAllocator_delete_def libc_alloc_def libc_free_def Let_def split: cpp_error.splits)
qed

theorem bitmap_ctor_no_leak_witness:
  "\<exists>b live'. BitmapAllocator_new 4096 16384 Map.empty 64 65 = (Inr b, live') \<and> BitmapAllocator_delete b live' = Map.empty"
  using bitmap_ctor_no_leak [of 4096 Map.empty 16384 65 64]
  by (simp add: BitmapAllocator_new_def Let_def)

lemma prefix_65:
  assumes "prefix_used bm 65" "length bm = 2"
  shows "bm = [FULL, 1]"
proof (rule used_ext)
  fix j assume j: "j < 64 * length (bm)"
  then have "used (bm) j = (j < 65)" using assms(1) by (simp add: prefix_used_def)
  moreover have "j < 128" using j assms(2) by simp
  moreover have "j < 64 \<Longrightarrow> used [FULL, 1] j" by (simp add: used_def)
  moreover have "used [FULL, 1] j = (j = 64)" if "64 \<le> j" "j < 128"
  proof -
    have "j div 64 = 1" "j mod 64 = j - 64" using that by (auto simp: div_if mod_if)
    then show ?thesis using that by (auto simp: used_def bit_1_iff)
  qed
  ultimately show "used (bm) j = used [FULL, 1] j" by (cases "j < 64") auto
qed (simp add: assms(2))

text \<open>C22. Spurious exhaustion (a defect): with a block count that is not a multiple of 64, an allocator
  reached by ordinary calls returns null from \<^verbatim>\<open>alloc\<close> although a block is free. After filling a pool
  of 65 blocks, giving back block 0 and then block 64 and allocating once (which takes block 64), the
  hint names the last word, whose lowest clear bit lies beyond the pool, and the call gives up instead
  of probing the other words.\<close>

theorem bitmap_spurious_exhaustion:
  "\<exists>b0 live ps b1 b2 b3 b4. BitmapAllocator_new 4096 16384 Map.empty 64 65 = (Inr b0, live)
     \<and> alloc_n 65 b0 = Some (ps, b1) \<and> dealloc b1 (bm_block b0 0) = Some b2
     \<and> dealloc b2 (bm_block b0 64) = Some b3 \<and> alloc b3 = Some (bm_block b0 64, b4)
     \<and> alloc b4 = Some (nullptr, b4) \<and> bm_block b0 0 \<in> bm_free b4"
proof -
  obtain b0 live where n: "BitmapAllocator_new 4096 16384 Map.empty 64 65 = (Inr b0, live)"
    by (simp add: BitmapAllocator_new_def Let_def)
  note new = BitmapAllocator_new_invar [OF n, simplified]
  obtain ps b1 bm k where b1: "alloc_n 65 b0 = Some (ps, b1)" "bm_invar b1" "prefix_used (m_bitmap b1) 65"
    "b1 = b0\<lparr>m_bitmap := bm, m_hint := k\<rparr>"
    using alloc_n_prefix [OF new(1-3), of 65] new(4) by auto
  have c: "unat (m_block_count b1) = 65" using b1(4) new(4) by simp
  then have len: "length (m_bitmap b1) = 2" using b1(2) by (simp add: bm_invar_def)
  have "m_bitmap b1 = [FULL, 1]" by (rule prefix_65 [OF b1(3) len])
  then have b1': "b1 = b0\<lparr>m_bitmap := [FULL, 1], m_hint := k\<rparr>" using b1(4) by simp
  have blk: "bm_block b1 = bm_block b0" unfolding b1' by simp
  let ?w = "FULL AND NOT (2 ^ 0) :: u64"
  let ?b2 = "b0\<lparr>m_bitmap := [?w, 1], m_hint := 0\<rparr>" and ?b3 = "b0\<lparr>m_bitmap := [?w, 0], m_hint := 1\<rparr>"
  let ?b4 = "b0\<lparr>m_bitmap := [?w, 1], m_hint := 1\<rparr>"
  have d2: "dealloc b1 (bm_block b0 0) = Some ?b2"
    using dealloc_block [OF b1(2), of 0] c blk unfolding b1' by (simp add: clear_used_def)
  have i: "bm_invar ?b2" "bm_invar ?b3" "bm_invar ?b4"
    using new(1) b1(2) unfolding bm_invar_def b1' by simp_all
  have d3: "dealloc ?b2 (bm_block b0 64) = Some ?b3"
    using dealloc_block [OF i(1), of 64] new(4) by (simp add: clear_used_def)
  have one: "low_zero 1 = 1" by (rule low_zero_eq) (auto simp: bit_1_iff)
  have nf: "(0 :: u64) \<noteq> FULL" "(1 :: u64) \<noteq> FULL" by (simp_all add: FULL_def)
  have "scan 65 [?w, 0] 1 = Some 64" "scan 65 [?w, 1] 1 = None"
    using nf by (simp_all add: scan_def first_open_def probe_order_Cons low_zero_0 one)
  then have "alloc ?b3 = Some (bm_block b0 64, ?b4)" "alloc ?b4 = Some (nullptr, ?b4)"
    using alloc_scan' [OF i(2)] alloc_scan' [OF i(3)] new(4) by (simp_all add: set_used_def)
  moreover have "bm_block b0 0 \<in> bm_free ?b4"
    using bm_free_mem [OF i(3), of 0] new(4) by (simp add: used_def bit_clear [where k = 0, simplified])
  ultimately show ?thesis using n b1(1) d2 d3 by blast
qed

text \<open>The constructor does not check \<^verbatim>\<open>m_block_size * m_block_count\<close> for overflow (a defect): asked
  for \<open>2 ^ 58\<close> blocks of 64 bytes it requests a region of 0 bytes and, when that request succeeds,
  returns an allocator that believes it has \<open>2 ^ 58\<close> blocks.\<close>

theorem bitmap_ctor_size_wraps:
  assumes "r1 \<noteq> nullptr" "r2 \<noteq> nullptr" "r1 \<noteq> r2"
  shows "\<exists>b live'. BitmapAllocator_new r1 r2 live 64 (2 ^ 58) = (Inr b, live') \<and> live' r1 = Some 0
           \<and> unat (m_block_count b) = 2 ^ 58"
  using assms by (simp add: BitmapAllocator_new_def Let_def libc_alloc_def)

theorem bitmap_ctor_size_wraps_witness:
  "\<exists>b live'. BitmapAllocator_new 4096 16384 Map.empty 64 (2 ^ 58) = (Inr b, live') \<and> live' 4096 = Some 0
     \<and> unat (m_block_count b) = 2 ^ 58"
  using bitmap_ctor_size_wraps [of 4096 16384 Map.empty] by simp

end
