(* ===== verification/TL_Bitmap.thy ===== *)
theory TL_Bitmap
  imports Bitmap
begin

text \<open>
  \<^verbatim>\<open>ThreadLocalBitmapAllocator\<close> (include/tl\_bitmap\_allocator.hpp, src/tl\_bitmap\_allocator.cpp): one
  bitmap-managed region per thread slot. A thread takes a slot at its first allocation, allocates from
  that region only, and frees into whichever region the pointer lies in. A region with the allocator's
  block size is a bitmap allocator (\<open>as_bitmap\<close>), and its operations refine those of \<open>Bitmap\<close>.
\<close>

section \<open>Data and operations\<close>

record Region =
  memory :: addr
  bitmap_at :: addr
  bitmap :: "u64 list"
  block_count :: u64
  word_count :: u64
  hint :: u64

record ThreadLocalBitmapAllocator =
  tb_block_size :: u64
  tb_blocks_per_thread :: u64
  tb_max_threads :: u64
  m_regions :: "Region list"
  m_thread_counter :: u64

text \<open>\<^verbatim>\<open>static thread_local t_region_index\<close>: one per thread, common to all allocators.\<close>

type_synonym tb_state = "ThreadLocalBitmapAllocator \<times> (tid \<Rightarrow> u64)"

definition t_region_index_init :: "tid \<Rightarrow> u64" where
  "t_region_index_init = (\<lambda>_. SIZE_MAX)"

text \<open>
  One pass of the constructor's loop, given the two results of \<^verbatim>\<open>std::aligned_alloc\<close>. They are not
  checked: with a null bitmap the first placement new writes through the null pointer.
\<close>

definition Region_init :: "addr \<times> addr \<Rightarrow> u64 \<Rightarrow> u64 \<Rightarrow> libc \<Rightarrow> (Region \<times> libc) option" where
  "Region_init rr bsize blocks_per_thread live =
     (let wc = (blocks_per_thread + WORD_BITS - 1) div WORD_BITS;
          live1 = libc_alloc (fst rr) (bsize * blocks_per_thread) live;
          live2 = libc_alloc (snd rr) (8 * wc) live1
      in if snd rr = nullptr \<and> 0 < wc then None
         else Some (\<lparr>memory = fst rr, bitmap_at = snd rr, bitmap = replicate (unat wc) 0,
                     block_count = blocks_per_thread, word_count = wc, hint = 0\<rparr>, live2))"

fun regions_init :: "(nat \<Rightarrow> addr \<times> addr) \<Rightarrow> nat list \<Rightarrow> u64 \<Rightarrow> u64 \<Rightarrow> libc \<Rightarrow> (Region list \<times> libc) option" where
  "regions_init rs [] bsize n live = Some ([], live)"
| "regions_init rs (i # is) bsize n live =
     do { (r, live1) \<leftarrow> Region_init (rs i) bsize n live;
          (rest, live2) \<leftarrow> regions_init rs is bsize n live1;
          Some (r # rest, live2) }"

definition ThreadLocalBitmapAllocator_new ::
  "(nat \<Rightarrow> addr \<times> addr) \<Rightarrow> libc \<Rightarrow> u64 \<Rightarrow> u64 \<Rightarrow> u64 \<Rightarrow> (ThreadLocalBitmapAllocator \<times> libc) option" where
  "ThreadLocalBitmapAllocator_new rs live bsz blocks_per_thread max_threads =
     (let bsize = ((bsz + 63) div 64) * 64
      in do { (regions, live') \<leftarrow> regions_init rs [0..<unat max_threads] bsize blocks_per_thread live;
              Some (\<lparr>tb_block_size = bsize, tb_blocks_per_thread = blocks_per_thread, tb_max_threads = max_threads,
                     m_regions = regions, m_thread_counter = 0\<rparr>, live') })"

definition ThreadLocalBitmapAllocator_delete :: "ThreadLocalBitmapAllocator \<Rightarrow> libc \<Rightarrow> libc" where
  "ThreadLocalBitmapAllocator_delete a live =
     foldl (\<lambda>live r. libc_free (memory r) (libc_free (bitmap_at r) live)) live (m_regions a)"

definition assign_region :: "ThreadLocalBitmapAllocator \<Rightarrow> (u64 \<times> ThreadLocalBitmapAllocator) option" where
  "assign_region a =
     (if tb_max_threads a = 0 then None
      else Some (m_thread_counter a mod tb_max_threads a, a\<lparr>m_thread_counter := m_thread_counter a + 1\<rparr>))"

definition region_index_to_ptr :: "u64 \<Rightarrow> Region \<Rightarrow> u64 \<Rightarrow> addr" where
  "region_index_to_ptr bsize r index = memory r + index * bsize"

definition region_ptr_to_index :: "u64 \<Rightarrow> Region \<Rightarrow> addr \<Rightarrow> u64 option" where
  "region_ptr_to_index bsize r p = (if bsize = 0 then None else Some ((p - memory r) div bsize))"

text \<open>The search of \<^verbatim>\<open>alloc\<close> in the thread's region; the loops are those of \<open>Bitmap_Core\<close>.\<close>

definition region_alloc :: "bool list \<Rightarrow> u64 \<Rightarrow> Region \<Rightarrow> (addr \<times> Region) option" where
  "region_alloc sps bsize r =
     do { (res, word_index, bm) \<leftarrow> probe_loop sps (block_count r) (word_count r) (bitmap r) (hint r) 0;
          case res of
            Claimed global_index \<Rightarrow>
              Some (region_index_to_ptr bsize r global_index, r\<lparr>bitmap := bm, hint := word_index\<rparr>)
          | _ \<Rightarrow> Some (nullptr, r\<lparr>bitmap := bm\<rparr>) }"

definition tb_alloc_with :: "bool list \<Rightarrow> tid \<Rightarrow> tb_state \<Rightarrow> (addr \<times> tb_state) option" where
  "tb_alloc_with sps t = (\<lambda>(a, idx).
     do { (i, a1) \<leftarrow> (if idx t = SIZE_MAX then assign_region a else Some (idx t, a));
          let idx1 = idx(t := i);
          if unat i < length (m_regions a1)
          then do { (p, r) \<leftarrow> region_alloc sps (tb_block_size a1) (m_regions a1 ! unat i);
                    Some (p, a1\<lparr>m_regions := (m_regions a1)[unat i := r]\<rparr>, idx1) }
          else None })"

definition tb_alloc :: "tid \<Rightarrow> tb_state \<Rightarrow> (addr \<times> tb_state) option" where
  "tb_alloc = tb_alloc_with [False]"

text \<open>The body of the loop of \<^verbatim>\<open>dealloc\<close> on the region that contains the pointer.\<close>

definition region_dealloc :: "u64 \<Rightarrow> Region \<Rightarrow> addr \<Rightarrow> Region option" where
  "region_dealloc bsize r p =
     do { index \<leftarrow> region_ptr_to_index bsize r p;
          let word_index = index div WORD_BITS;
          let bit_index = index mod WORD_BITS;
          bm \<leftarrow> fetch_and (bitmap r) word_index (NOT (push_bit (unat bit_index) 1));
          Some (r\<lparr>bitmap := bm, hint := word_index\<rparr>) }"

fun dealloc_loop :: "u64 \<Rightarrow> addr \<Rightarrow> Region list \<Rightarrow> Region list option" where
  "dealloc_loop bsize p [] = Some []"
| "dealloc_loop bsize p (r # rs) =
     (if memory r \<le> p \<and> p < memory r + block_count r * bsize
      then map_option (\<lambda>r'. r' # rs) (region_dealloc bsize r p)
      else map_option ((#) r) (dealloc_loop bsize p rs))"

text \<open>The region the loop of \<^verbatim>\<open>dealloc\<close> stops at: the first whose address range contains the pointer.\<close>

fun find_region :: "u64 \<Rightarrow> addr \<Rightarrow> Region list \<Rightarrow> nat option" where
  "find_region bsize p [] = None"
| "find_region bsize p (r # rs) =
     (if memory r \<le> p \<and> p < memory r + block_count r * bsize then Some 0
      else map_option Suc (find_region bsize p rs))"

definition tb_dealloc :: "tb_state \<Rightarrow> addr \<Rightarrow> tb_state option" where
  "tb_dealloc = (\<lambda>(a, idx) p.
     do { rs \<leftarrow> dealloc_loop (tb_block_size a) p (m_regions a); Some (a\<lparr>m_regions := rs\<rparr>, idx) })"

section \<open>A region is a bitmap allocator\<close>

definition as_bitmap :: "u64 \<Rightarrow> Region \<Rightarrow> BitmapAllocator" where
  "as_bitmap bsize r = \<lparr>m_block_size = bsize, m_block_count = block_count r, m_word_count = word_count r,
     m_memory = memory r, m_bitmap_at = bitmap_at r, m_bitmap = bitmap r, m_hint = hint r\<rparr>"

definition of_bitmap :: "BitmapAllocator \<Rightarrow> Region \<Rightarrow> Region" where
  "of_bitmap b r = r\<lparr>bitmap := m_bitmap b, hint := m_hint b\<rparr>"

lemma region_alloc_bitmap:
  "region_alloc sps bsize r = map_option (\<lambda>(p, b). (p, of_bitmap b r)) (alloc_with sps (as_bitmap bsize r))"
proof -
  define pl where "pl = probe_loop sps (block_count r) (word_count r) (bitmap r) (hint r) 0"
  have "probe_loop sps (m_block_count (as_bitmap bsize r)) (m_word_count (as_bitmap bsize r)) (m_bitmap (as_bitmap bsize r))
      (m_hint (as_bitmap bsize r)) 0 = pl" by (simp add: pl_def as_bitmap_def)
  then show ?thesis unfolding region_alloc_def alloc_with_def pl_def [symmetric]
    by (cases pl) (auto simp: as_bitmap_def of_bitmap_def region_index_to_ptr_def index_to_ptr_def split: claim.splits)
qed

lemma region_dealloc_bitmap:
  "region_dealloc bsize r p = map_option (\<lambda>b. of_bitmap b r) (dealloc (as_bitmap bsize r) p)"
proof (cases "bsize = 0")
  case True
  then show ?thesis by (simp add: region_dealloc_def dealloc_def as_bitmap_def region_ptr_to_index_def ptr_to_index_def)
next
  case False
  define i where "i = (p - memory r) div bsize"
  define f where "f = fetch_and (bitmap r) (i div WORD_BITS) (NOT (2 ^ unat (i mod WORD_BITS)))"
  have "region_ptr_to_index bsize r p = Some i" "ptr_to_index (as_bitmap bsize r) p = Some i" "m_bitmap (as_bitmap bsize r) = bitmap r"
    using False by (simp_all add: region_ptr_to_index_def ptr_to_index_def as_bitmap_def i_def)
  then show ?thesis unfolding region_dealloc_def dealloc_def
    by (simp add: Let_def f_def [symmetric]) (cases f; simp add: of_bitmap_def)
qed

lemma alloc_with_frame:
  "alloc_with sps b = Some (p, b') \<Longrightarrow> \<exists>bm k. b' = b\<lparr>m_bitmap := bm, m_hint := k\<rparr>"
proof -
  assume "alloc_with sps b = Some (p, b')"
  then obtain res wi bm where "(case res of Claimed g \<Rightarrow> Some (index_to_ptr b g, b\<lparr>m_bitmap := bm, m_hint := wi\<rparr>)
      | _ \<Rightarrow> Some (nullptr, b\<lparr>m_bitmap := bm\<rparr>)) = Some (p, b')" by (auto simp: alloc_with_def)
  then have "b' = b\<lparr>m_bitmap := bm, m_hint := wi\<rparr> \<or> b' = b\<lparr>m_bitmap := bm\<rparr>" by (cases res) auto
  moreover have "b\<lparr>m_bitmap := bm\<rparr> = b\<lparr>m_bitmap := bm, m_hint := m_hint b\<rparr>" by simp
  ultimately show ?thesis by metis
qed

lemma as_of_bitmap: "as_bitmap bsize (of_bitmap ((as_bitmap bsize r)\<lparr>m_bitmap := bm, m_hint := k\<rparr>) r)
    = (as_bitmap bsize r)\<lparr>m_bitmap := bm, m_hint := k\<rparr>"
  by (simp add: as_bitmap_def of_bitmap_def)

lemma of_bitmap_fields [simp]:
  "memory (of_bitmap b r) = memory r" "block_count (of_bitmap b r) = block_count r"
  "word_count (of_bitmap b r) = word_count r" "bitmap_at (of_bitmap b r) = bitmap_at r"
  by (simp_all add: of_bitmap_def)

section \<open>The allocator invariant\<close>

definition region_end :: "u64 \<Rightarrow> Region \<Rightarrow> nat" where
  "region_end bsize r = unat (memory r) + unat (block_count r) * unat bsize"

definition regions_apart :: "u64 \<Rightarrow> Region \<Rightarrow> Region \<Rightarrow> bool" where
  "regions_apart bsize r r' = (region_end bsize r \<le> unat (memory r') \<or> region_end bsize r' \<le> unat (memory r))"

definition tb_invar :: "tb_state \<Rightarrow> bool" where
  "tb_invar = (\<lambda>(a, idx).
     0 < unat (tb_max_threads a) \<and> length (m_regions a) = unat (tb_max_threads a)
     \<and> (\<forall>r \<in> set (m_regions a). bm_invar (as_bitmap (tb_block_size a) r))
     \<and> sorted_wrt (regions_apart (tb_block_size a)) (m_regions a)
     \<and> (\<forall>t. idx t = SIZE_MAX \<or> unat (idx t) < length (m_regions a)))"

definition tb_blocks :: "tb_state \<Rightarrow> addr set" where
  "tb_blocks = (\<lambda>(a, idx). \<Union>r \<in> set (m_regions a). bm_blocks (as_bitmap (tb_block_size a) r))"

definition tb_free :: "tb_state \<Rightarrow> addr set" where
  "tb_free = (\<lambda>(a, idx). \<Union>r \<in> set (m_regions a). bm_free (as_bitmap (tb_block_size a) r))"


lemma region_range:
  assumes "bm_invar (as_bitmap bsize r)"
  shows "unat (memory r + block_count r * bsize) = region_end bsize r"
    "p \<in> bm_blocks (as_bitmap bsize r) \<Longrightarrow> unat (memory r) \<le> unat p \<and> unat p < region_end bsize r"
proof -
  have fits: "array_fits (memory r) bsize (unat (block_count r))"
    using bm_invar_simps(5) [OF assms] by (simp add: as_bitmap_def)
  then have lt: "unat (memory r) + unat (block_count r) * unat bsize < 2 ^ 64" and sz: "0 < unat bsize" by (auto simp: array_fits_def)
  then have "unat (block_count r * bsize) = unat (block_count r) * unat bsize" by (intro unat_times_64) simp
  with lt show "unat (memory r + block_count r * bsize) = region_end bsize r"
    using unat_plus_64 [of "memory r" "block_count r * bsize"] by (simp add: region_end_def)
  show "unat (memory r) \<le> unat p \<and> unat p < region_end bsize r" if "p \<in> bm_blocks (as_bitmap bsize r)"
  proof -
    obtain g where g: "g < unat (block_count r)" "p = block_at (memory r) bsize g"
      using \<open>p \<in> bm_blocks (as_bitmap bsize r)\<close> by (auto simp: bm_blocks_def bm_block_def as_bitmap_def)
    then show ?thesis using unat_block_at [OF fits g(1)] sz by (simp add: region_end_def)
  qed
qed

lemma dealloc_loop_find:
  "dealloc_loop bsize p rs = (case find_region bsize p rs of
      None \<Rightarrow> Some rs | Some j \<Rightarrow> map_option (\<lambda>r. rs[j := r]) (region_dealloc bsize (rs ! j) p))"
  by (induction rs) (auto simp: map_option_case split: option.splits)

lemma find_region_at:
  assumes "sorted_wrt (regions_apart bsize) rs" "\<forall>r \<in> set rs. bm_invar (as_bitmap bsize r)"
    "i < length rs" "p \<in> bm_blocks (as_bitmap bsize (rs ! i))"
  shows "find_region bsize p rs = Some i"
  using assms
proof (induction rs arbitrary: i)
  case (Cons r rs)
  have r: "bm_invar (as_bitmap bsize r)" using Cons.prems(2) by simp
  have inr: "memory r \<le> p \<and> p < memory r + block_count r * bsize \<longleftrightarrow> unat (memory r) \<le> unat p \<and> unat p < region_end bsize r"
    using region_range(1) [OF r] by (simp add: word_le_nat_alt word_less_nat_alt)
  show ?case
  proof (cases i)
    case 0
    then show ?thesis using region_range(2) [OF r] inr Cons.prems(4) by simp
  next
    case (Suc j)
    have q: "bm_invar (as_bitmap bsize (rs ! j))" "regions_apart bsize r (rs ! j)" "p \<in> bm_blocks (as_bitmap bsize (rs ! j))" "j < length rs"
      using Cons.prems Suc by auto
    then have "\<not> (unat (memory r) \<le> unat p \<and> unat p < region_end bsize r)"
      using region_range(2) [OF q(1,3)] by (auto simp: regions_apart_def)
    then show ?thesis using Cons.IH [OF _ _ q(4,3)] Cons.prems(1,2) Suc inr by simp
  qed
qed simp

lemma dealloc_loop_at:
  assumes "sorted_wrt (regions_apart bsize) rs" "\<forall>r \<in> set rs. bm_invar (as_bitmap bsize r)"
    "i < length rs" "p \<in> bm_blocks (as_bitmap bsize (rs ! i))"
  shows "dealloc_loop bsize p rs = map_option (\<lambda>r'. rs[i := r']) (region_dealloc bsize (rs ! i) p)"
  by (simp add: dealloc_loop_find find_region_at [OF assms])

lemma sorted_apart_update:
  assumes "sorted_wrt (regions_apart bsize) rs" "memory r' = memory (rs ! i)" "block_count r' = block_count (rs ! i)"
  shows "sorted_wrt (regions_apart bsize) (rs[i := r'])"
proof (cases "i < length rs")
  case True
  have "memory (rs[i := r'] ! k) = memory (rs ! k) \<and> block_count (rs[i := r'] ! k) = block_count (rs ! k)" if "k < length rs" for k
    using that assms(2,3) by (cases "k = i") auto
  then show ?thesis using assms(1) unfolding sorted_wrt_iff_nth_less regions_apart_def region_end_def by simp
qed (use assms in \<open>simp add: list_update_beyond\<close>)

text \<open>Replacing one region by a region with the same blocks and fewer or more of them free.\<close>

lemma UN_update:
  assumes "i < length xs" "\<And>j. j < length xs \<Longrightarrow> j \<noteq> i \<Longrightarrow> f (xs ! j) \<inter> D = {}" "f y = f (xs ! i) - D \<union> A"
  shows "(\<Union>x \<in> set (xs[i := y]). f x) = (\<Union>x \<in> set xs. f x) - D \<union> A"
proof -
  have s: "(\<Union>x \<in> set ys. f x) = (\<Union>j \<in> {..<length ys}. f (ys ! j))" for ys :: "'a list"
    by (auto simp: set_conv_nth)
  have "(\<Union>j \<in> {..<length xs}. f (xs[i := y] ! j)) = f y \<union> (\<Union>j \<in> {..<length xs} - {i}. f (xs ! j))"
    using assms(1) by (auto simp: nth_list_update split: if_splits)
  moreover have "(\<Union>j \<in> {..<length xs}. f (xs ! j)) = f (xs ! i) \<union> (\<Union>j \<in> {..<length xs} - {i}. f (xs ! j))"
    using assms(1) by auto
  moreover have "(\<Union>j \<in> {..<length xs} - {i}. f (xs ! j)) \<inter> D = {}" using assms(2) by auto
  ultimately show ?thesis unfolding s length_list_update assms(3) by blast
qed

lemma region_blocks_disjoint:
  assumes "tb_invar (a, idx)" "i < length (m_regions a)" "j < length (m_regions a)" "i \<noteq> j"
  shows "bm_blocks (as_bitmap (tb_block_size a) (m_regions a ! i)) \<inter> bm_blocks (as_bitmap (tb_block_size a) (m_regions a ! j)) = {}"
proof -
  have ok: "bm_invar (as_bitmap (tb_block_size a) (m_regions a ! k))" if "k < length (m_regions a)" for k
    using assms(1) that by (simp add: tb_invar_def)
  have "regions_apart (tb_block_size a) (m_regions a ! i) (m_regions a ! j) \<or> regions_apart (tb_block_size a) (m_regions a ! j) (m_regions a ! i)"
    using assms unfolding tb_invar_def sorted_wrt_iff_nth_less by (metis (no_types, lifting) case_prodD linorder_neqE_nat)
  then show ?thesis
    using region_range(2) [OF ok [OF assms(2)]] region_range(2) [OF ok [OF assms(3)]] by (fastforce simp: regions_apart_def)
qed


section \<open>The operations on the whole allocator\<close>

text \<open>The region a call of \<^verbatim>\<open>alloc\<close> by thread \<open>t\<close> uses.\<close>

definition slot :: "tb_state \<Rightarrow> tid \<Rightarrow> nat" where
  "slot = (\<lambda>(a, idx) t. if idx t = SIZE_MAX then unat (m_thread_counter a) mod unat (tb_max_threads a) else unat (idx t))"

definition slot_bitmap :: "tb_state \<Rightarrow> tid \<Rightarrow> BitmapAllocator" where
  "slot_bitmap s t = as_bitmap (tb_block_size (fst s)) (m_regions (fst s) ! slot s t)"

lemma slot_less: "tb_invar s \<Longrightarrow> slot s t < length (m_regions (fst s))"
  by (auto simp: slot_def tb_invar_def split: prod.splits)

lemma alloc_with_spurious: "bm_invar b \<Longrightarrow> alloc_with (replicate n True @ False # sps) b = alloc b"
  by (simp add: alloc_scan alloc_scan')

lemma region_alloc_ok:
  assumes "bm_invar (as_bitmap bsize r)"
  obtains p r' where "region_alloc (replicate n True @ False # sps) bsize r = Some (p, r')"
    "alloc (as_bitmap bsize r) = Some (p, as_bitmap bsize r')" "memory r' = memory r" "block_count r' = block_count r"
proof -
  obtain p b where al: "alloc (as_bitmap bsize r) = Some (p, b)" using bm.alloc_returns [OF assms] by blast
  then obtain bm k where "b = (as_bitmap bsize r)\<lparr>m_bitmap := bm, m_hint := k\<rparr>"
    using alloc_with_frame unfolding alloc_def by blast
  then have b: "as_bitmap bsize (of_bitmap b r) = b" using as_of_bitmap by simp
  have "region_alloc (replicate n True @ False # sps) bsize r = Some (p, of_bitmap b r)"
    using al by (simp add: region_alloc_bitmap alloc_with_spurious [OF assms])
  with that [of p "of_bitmap b r"] al b show thesis by simp
qed

lemma region_dealloc_ok:
  assumes "bm_invar (as_bitmap bsize r)" "p \<in> bm_blocks (as_bitmap bsize r) - bm_free (as_bitmap bsize r)"
  obtains r' where "region_dealloc bsize r p = Some r'" "dealloc (as_bitmap bsize r) p = Some (as_bitmap bsize r')"
    "memory r' = memory r" "block_count r' = block_count r"
proof -
  obtain b where al: "dealloc (as_bitmap bsize r) p = Some b" using bm.dealloc_used [OF assms] by blast
  then obtain bm k where "b = (as_bitmap bsize r)\<lparr>m_bitmap := bm, m_hint := k\<rparr>" by (auto simp: dealloc_def Let_def)
  then have b: "as_bitmap bsize (of_bitmap b r) = b" using as_of_bitmap by simp
  from that [of "of_bitmap b r"] al b show thesis by (simp add: region_dealloc_bitmap)
qed

lemma tb_invar_update:
  assumes "tb_invar (a, idx)" "i < length (m_regions a)" "bm_invar (as_bitmap (tb_block_size a) r')"
    "memory r' = memory (m_regions a ! i)" "block_count r' = block_count (m_regions a ! i)"
    "\<forall>t. idx' t = SIZE_MAX \<or> unat (idx' t) < length (m_regions a)"
  shows "tb_invar (a\<lparr>m_regions := (m_regions a)[i := r'], m_thread_counter := k\<rparr>, idx')"
  using assms sorted_apart_update [of "tb_block_size a" "m_regions a" r' i] set_update_subset_insert [of "m_regions a" i r']
  by (auto simp: tb_invar_def)

lemma tb_sets_update:
  assumes inv: "tb_invar (a, idx)" and i: "i < length (m_regions a)"
    and r: "bm_blocks (as_bitmap (tb_block_size a) r') = bm_blocks (as_bitmap (tb_block_size a) (m_regions a ! i))"
      "bm_free (as_bitmap (tb_block_size a) r') = bm_free (as_bitmap (tb_block_size a) (m_regions a ! i)) - D \<union> A"
      "D \<subseteq> bm_blocks (as_bitmap (tb_block_size a) (m_regions a ! i))"
  shows "tb_blocks (a\<lparr>m_regions := (m_regions a)[i := r'], m_thread_counter := k\<rparr>, idx') = tb_blocks (a, idx)"
    "tb_free (a\<lparr>m_regions := (m_regions a)[i := r'], m_thread_counter := k\<rparr>, idx') = tb_free (a, idx) - D \<union> A"
proof -
  let ?b = "as_bitmap (tb_block_size a)"
  show "tb_blocks (a\<lparr>m_regions := (m_regions a)[i := r'], m_thread_counter := k\<rparr>, idx') = tb_blocks (a, idx)"
    using UN_update [OF i, of "\<lambda>r. bm_blocks (?b r)" "{}" r' "{}"] r(1) by (simp add: tb_blocks_def)
  have "bm_free (?b (m_regions a ! j)) \<inter> D = {}" if j: "j < length (m_regions a)" "j \<noteq> i" for j
  proof -
    have "bm_invar (?b (m_regions a ! j))" using inv j(1) by (simp add: tb_invar_def)
    from bm.free_blocks [OF this] show ?thesis using region_blocks_disjoint [OF inv j(1) i j(2)] r(3) by blast
  qed
  from UN_update [OF i this r(2)]
  show "tb_free (a\<lparr>m_regions := (m_regions a)[i := r'], m_thread_counter := k\<rparr>, idx') = tb_free (a, idx) - D \<union> A"
    by (simp add: tb_free_def)
qed

text \<open>Taking a slot: the index is the slot, fits in a word and is not the marker \<^verbatim>\<open>SIZE_MAX\<close>.\<close>

lemma slot_word:
  assumes "tb_invar (a, idx)"
  shows "unat (of_nat (slot (a, idx) t) :: u64) = slot (a, idx) t" "(of_nat (slot (a, idx) t) :: u64) \<noteq> SIZE_MAX"
proof -
  have lt: "slot (a, idx) t < unat (tb_max_threads a)" using slot_less [OF assms, of t] assms by (simp add: tb_invar_def)
  then show u: "unat (of_nat (slot (a, idx) t) :: u64) = slot (a, idx) t"
    using unat_lt_2p64 [of "tb_max_threads a"] by (intro unat_of_nat_64) simp
  show "(of_nat (slot (a, idx) t) :: u64) \<noteq> SIZE_MAX"
  proof
    assume "(of_nat (slot (a, idx) t) :: u64) = SIZE_MAX"
    then have "unat SIZE_MAX < unat (tb_max_threads a)" using u lt by simp
    then show False using word_order.extremum [of "tb_max_threads a"] by (simp add: word_le_nat_alt)
  qed
qed

lemma take_slot:
  assumes "tb_invar (a, idx)"
  shows "(if idx t = SIZE_MAX then assign_region a else Some (idx t, a)) =
    Some (of_nat (slot (a, idx) t), a\<lparr>m_thread_counter := m_thread_counter a + (if idx t = SIZE_MAX then 1 else 0)\<rparr>)"
proof (cases "idx t = SIZE_MAX")
  case True
  have "unat (m_thread_counter a mod tb_max_threads a) = slot (a, idx) t" using True by (simp add: slot_def unat_mod)
  then have "m_thread_counter a mod tb_max_threads a = of_nat (slot (a, idx) t)" by (metis of_nat_unat_64)
  then show ?thesis using True assms by (auto simp: assign_region_def tb_invar_def)
qed (simp add: slot_def of_nat_unat_64)

lemma tb_null_not_free: "tb_invar s \<Longrightarrow> nullptr \<notin> tb_free s"
  using bm.null_no_block bm.free_blocks by (fastforce simp: tb_free_def tb_invar_def split: prod.splits)

text \<open>
  What allocating in one region does to it.
\<close>

lemma region_alloc_free:
  assumes b: "bm_invar b" and al: "alloc b = Some (p, b')"
  shows "p \<noteq> nullptr \<longrightarrow> p \<in> bm_free b" "bm_free b' = bm_free b - ({p} - {nullptr}) \<union> {}" "{p} - {nullptr} \<subseteq> bm_blocks b"
  using bm.alloc_some [OF b al] bm.alloc_null [OF b, of b'] al bm.free_blocks [OF b] by (cases "p = nullptr"; auto)+

text \<open>
  One call of \<^verbatim>\<open>alloc\<close>, with any number of spurious failures of its compare-exchange: it is a call of the
  bitmap allocator of the thread's region.
\<close>

lemma tb_alloc_ok:
  assumes inv: "tb_invar s"
  shows "\<exists>p s'. tb_alloc_with (replicate n True @ False # sps) t s = Some (p, s') \<and> tb_invar s' \<and> tb_blocks s' = tb_blocks s
    \<and> tb_free s' = tb_free s - {p} \<and> (p \<noteq> nullptr \<longrightarrow> p \<in> bm_free (slot_bitmap s t))
    \<and> alloc (slot_bitmap s t) = Some (p, slot_bitmap s' t) \<and> slot s' t = slot s t \<and> snd s' t \<noteq> SIZE_MAX
    \<and> (\<forall>u. u \<noteq> t \<longrightarrow> snd s' u = snd s u) \<and> tb_max_threads (fst s') = tb_max_threads (fst s)
    \<and> m_thread_counter (fst s') = m_thread_counter (fst s) + (if snd s t = SIZE_MAX then 1 else 0)"
proof -
  obtain a idx where s: "s = (a, idx)" by (cases s)
  define i where "i = slot s t"
  define a' where "a' r = a\<lparr>m_regions := (m_regions a)[i := r], m_thread_counter := m_thread_counter a + (if idx t = SIZE_MAX then 1 else 0)\<rparr>" for r
  let ?r = "m_regions a ! i" and ?idx = "idx(t := of_nat i)"
  note inv' = inv [unfolded s]
  note word = slot_word [OF inv', of t, folded s, folded i_def]
  have il: "i < length (m_regions a)" using slot_less [OF inv] unfolding i_def s by simp
  have b: "bm_invar (as_bitmap (tb_block_size a) ?r)" using inv' il by (simp add: tb_invar_def)
  obtain p r' where r': "region_alloc (replicate n True @ False # sps) (tb_block_size a) ?r = Some (p, r')"
    "alloc (as_bitmap (tb_block_size a) ?r) = Some (p, as_bitmap (tb_block_size a) r')" "memory r' = memory ?r" "block_count r' = block_count ?r"
    by (rule region_alloc_ok [OF b])
  note fr = region_alloc_free [OF b r'(2)]
  have "tb_alloc_with (replicate n True @ False # sps) t s = Some (p, a' r', ?idx)"
    using take_slot [OF inv', of t, folded s, folded i_def] il word r'(1) unfolding s a'_def tb_alloc_with_def by simp
  moreover have "tb_invar (a' r', ?idx)"
    unfolding a'_def by (rule tb_invar_update [OF inv' il bm.alloc_invar [OF b r'(2)] r'(3,4)])
      (use inv' il word in \<open>auto simp: tb_invar_def\<close>)
  moreover note sets = tb_sets_update [OF inv' il bm.alloc_blocks [OF b r'(2)] fr(2,3), of _ ?idx, folded s a'_def]
  have "tb_free (a' r', ?idx) = tb_free s - {p}" using sets(2) tb_null_not_free [OF inv] by (auto simp: a'_def)
  moreover have "tb_blocks (a' r', ?idx) = tb_blocks s" using sets(1) by (simp add: a'_def)
  moreover have "slot_bitmap s t = as_bitmap (tb_block_size a) ?r" by (simp add: slot_bitmap_def s i_def)
  moreover have sl: "slot (a' r', ?idx) t = i" using word by (simp add: slot_def)
  moreover from sl have "slot_bitmap (a' r', ?idx) t = as_bitmap (tb_block_size a) r'"
    using il by (simp add: slot_bitmap_def a'_def)
  moreover have "tb_max_threads (a' r') = tb_max_threads a"
    "m_thread_counter (a' r') = m_thread_counter a + (if idx t = SIZE_MAX then 1 else 0)" by (simp_all add: a'_def)
  ultimately show ?thesis
    using fr(1) r'(2) word i_def by (intro exI [of _ p] exI [of _ "(a' r', ?idx)"]) (simp add: s)
qed

lemma tb_dealloc_ok:
  assumes inv: "tb_invar s" and p: "p \<in> tb_blocks s - tb_free s"
  shows "\<exists>s'. tb_dealloc s p = Some s' \<and> tb_invar s' \<and> tb_blocks s' = tb_blocks s \<and> tb_free s' = insert p (tb_free s)
     \<and> snd s' = snd s"
proof -
  obtain a idx where s: "s = (a, idx)" by (cases s)
  obtain i where i: "i < length (m_regions a)" "p \<in> bm_blocks (as_bitmap (tb_block_size a) (m_regions a ! i))"
    using p unfolding s tb_blocks_def by (auto simp: in_set_conv_nth)
  let ?r = "m_regions a ! i"
  have b: "bm_invar (as_bitmap (tb_block_size a) ?r)" using inv i(1) unfolding s by (simp add: tb_invar_def)
  have "p \<in> bm_blocks (as_bitmap (tb_block_size a) ?r) - bm_free (as_bitmap (tb_block_size a) ?r)"
    using i p unfolding s tb_free_def by auto
  then obtain r' where r': "region_dealloc (tb_block_size a) ?r p = Some r'"
    "dealloc (as_bitmap (tb_block_size a) ?r) p = Some (as_bitmap (tb_block_size a) r')" "memory r' = memory ?r" "block_count r' = block_count ?r"
    and used: "p \<in> bm_blocks (as_bitmap (tb_block_size a) ?r) - bm_free (as_bitmap (tb_block_size a) ?r)"
    by (metis region_dealloc_ok [OF b])
  have d: "bm_invar (as_bitmap (tb_block_size a) r')"
    "bm_blocks (as_bitmap (tb_block_size a) r') = bm_blocks (as_bitmap (tb_block_size a) ?r)"
    "bm_free (as_bitmap (tb_block_size a) r') = bm_free (as_bitmap (tb_block_size a) ?r) - {} \<union> {p}"
    using bm.dealloc_used [OF b used] r'(2) by auto
  let ?a = "a\<lparr>m_regions := (m_regions a)[i := r'], m_thread_counter := m_thread_counter a\<rparr>"
  have "dealloc_loop (tb_block_size a) p (m_regions a) = Some ((m_regions a)[i := r'])"
    using dealloc_loop_at [OF _ _ i] r'(1) inv unfolding s by (simp add: tb_invar_def)
  then have "tb_dealloc s p = Some (?a, idx)" unfolding s tb_dealloc_def by simp
  moreover have "tb_invar (?a, idx)"
    by (rule tb_invar_update [OF inv [unfolded s] i(1) d(1) r'(3,4)]) (use inv in \<open>auto simp: s tb_invar_def\<close>)
  ultimately show ?thesis
    using tb_sets_update [OF inv [unfolded s] i(1) d(2,3), of "m_thread_counter a" idx] unfolding s by auto
qed

interpretation tb: block_pool "tb_alloc t" tb_dealloc tb_invar tb_blocks tb_free for t
proof
  note ok = tb_alloc_ok [of _ 0 "[]", simplified, folded tb_alloc_def]
  fix s assume inv: "tb_invar s"
  show "tb_free s \<subseteq> tb_blocks s"
    using inv bm.free_blocks by (fastforce simp: tb_invar_def tb_free_def tb_blocks_def split: prod.splits)
  show "nullptr \<notin> tb_blocks s"
    using inv bm.null_no_block by (fastforce simp: tb_invar_def tb_blocks_def split: prod.splits)
  show "\<exists>p s'. tb_alloc t s = Some (p, s')" using ok [OF inv] by blast
  show "\<exists>s'. tb_dealloc s p = Some s' \<and> tb_invar s' \<and> tb_blocks s' = tb_blocks s \<and> tb_free s' = insert p (tb_free s)"
    if "p \<in> tb_blocks s - tb_free s" for p using tb_dealloc_ok [OF inv that] by blast
  show "tb_free s' = tb_free s" if al: "tb_alloc t s = Some (nullptr, s')" for s'
  proof -
    have "nullptr \<notin> tb_free s" using \<open>tb_free s \<subseteq> tb_blocks s\<close> \<open>nullptr \<notin> tb_blocks s\<close> by blast
    then show ?thesis using ok [OF inv, of t] al by auto
  qed
  fix p s' assume al: "tb_alloc t s = Some (p, s')"
  show "tb_invar s'" "tb_blocks s' = tb_blocks s" using ok [OF inv, of t] al by auto
  show "p \<in> tb_free s \<and> tb_free s' = tb_free s - {p}" if "p \<noteq> nullptr"
  proof -
    have "bm_free (slot_bitmap s t) \<subseteq> tb_free s"
      using slot_less [OF inv, of t] by (cases s) (auto simp: tb_free_def slot_bitmap_def intro!: bexI [OF _ nth_mem])
    then show ?thesis using ok [OF inv, of t] al that by auto
  qed
qed


section \<open>Properties\<close>

text \<open>C26. The allocator across threads: whatever weak compare-exchange failures occur, \<^verbatim>\<open>alloc\<close> by any
  thread returns null and frees or takes nothing, or hands out a free block of that thread's region;
  \<^verbatim>\<open>dealloc\<close> (by any thread) finds the region a block belongs to and makes exactly that block free again.
  With a multiple of 64 blocks per region, null means that the thread's own region has no free block.\<close>

theorem tb_pool_across_threads:
  assumes "tb_invar s"
  shows "\<exists>p s'. tb_alloc_with (replicate n True @ False # sps) t s = Some (p, s') \<and> tb_invar s' \<and> tb_free s' = tb_free s - {p}
     \<and> (p \<noteq> nullptr \<longrightarrow> p \<in> bm_free (slot_bitmap s t)
          \<and> (\<exists>s''. tb_dealloc s' p = Some s'' \<and> tb_invar s'' \<and> tb_free s'' = tb_free s))
     \<and> (64 dvd unat (m_block_count (slot_bitmap s t)) \<longrightarrow> (p = nullptr \<longleftrightarrow> bm_free (slot_bitmap s t) = {}))"
proof -
  obtain p s' where a: "tb_alloc_with (replicate n True @ False # sps) t s = Some (p, s')" "tb_invar s'" "tb_blocks s' = tb_blocks s"
    "tb_free s' = tb_free s - {p}" "p \<noteq> nullptr \<longrightarrow> p \<in> bm_free (slot_bitmap s t)" "alloc (slot_bitmap s t) = Some (p, slot_bitmap s' t)"
    using tb_alloc_ok [OF assms, of n sps t] by blast
  have b: "bm_invar (slot_bitmap s t)" "bm_free (slot_bitmap s t) \<subseteq> tb_free s"
    using slot_less [OF assms, of t] assms
    by (cases s; auto simp: tb_free_def slot_bitmap_def tb_invar_def intro!: bexI [OF _ nth_mem])+
  have "\<exists>s''. tb_dealloc s' p = Some s'' \<and> tb_invar s'' \<and> tb_free s'' = tb_free s" if "p \<noteq> nullptr"
  proof -
    have "p \<in> tb_free s" using a(5) b(2) that by blast
    moreover from this have "p \<in> tb_blocks s' - tb_free s'" using tb.free_blocks [OF assms] a(3,4) by auto
    ultimately show ?thesis using tb_dealloc_ok [OF a(2)] a(4) by (metis insert_Diff)
  qed
  moreover have "p = nullptr \<longleftrightarrow> bm_free (slot_bitmap s t) = {}" if "64 dvd unat (m_block_count (slot_bitmap s t))"
    using bm64.null_iff_exhausted [OF _ a(6)] b(1) that by (simp add: bm_invar64_def)
  ultimately show ?thesis using a by blast
qed

text \<open>The first allocations of a list of threads, one after the other.\<close>

fun first_allocs :: "tid list \<Rightarrow> tb_state \<Rightarrow> tb_state option" where
  "first_allocs [] s = Some s"
| "first_allocs (t # ts) s = do { (p, s') \<leftarrow> tb_alloc t s; first_allocs ts s' }"

lemma first_allocs_slots:
  assumes "tb_invar s" "distinct ts" "\<forall>t \<in> set ts. snd s t = SIZE_MAX" "unat (m_thread_counter (fst s)) + length ts < 2 ^ 64"
  shows "\<exists>s'. first_allocs ts s = Some s' \<and> tb_invar s' \<and> (\<forall>u. u \<notin> set ts \<longrightarrow> snd s' u = snd s u)
    \<and> tb_max_threads (fst s') = tb_max_threads (fst s)
    \<and> (\<forall>k < length ts. snd s' (ts ! k) \<noteq> SIZE_MAX
         \<and> slot s' (ts ! k) = (unat (m_thread_counter (fst s)) + k) mod unat (tb_max_threads (fst s)))"
  using assms
proof (induction ts arbitrary: s)
  case (Cons t ts)
  obtain p s1 where a: "tb_alloc t s = Some (p, s1)" "tb_invar s1" "slot s1 t = slot s t" "snd s1 t \<noteq> SIZE_MAX"
    "\<forall>u. u \<noteq> t \<longrightarrow> snd s1 u = snd s u" "tb_max_threads (fst s1) = tb_max_threads (fst s)"
    "m_thread_counter (fst s1) = m_thread_counter (fst s) + 1"
    using tb_alloc_ok [OF Cons.prems(1), of 0 "[]" t] Cons.prems(3) by (auto simp: tb_alloc_def)
  have c: "unat (m_thread_counter (fst s1)) = unat (m_thread_counter (fst s)) + 1"
    using a(7) Cons.prems(4) unat_plus_64 [of "m_thread_counter (fst s)" 1] by simp
  obtain s' where s': "first_allocs ts s1 = Some s'" "tb_invar s'" "\<forall>u. u \<notin> set ts \<longrightarrow> snd s' u = snd s1 u"
    "tb_max_threads (fst s') = tb_max_threads (fst s)"
    "\<forall>k < length ts. snd s' (ts ! k) \<noteq> SIZE_MAX \<and> slot s' (ts ! k) = (unat (m_thread_counter (fst s1)) + k) mod unat (tb_max_threads (fst s))"
  proof -
    have "\<forall>u \<in> set ts. snd s1 u = SIZE_MAX" using a(5) Cons.prems(2,3) by auto
    moreover have "unat (m_thread_counter (fst s1)) + length ts < 2 ^ 64" using c Cons.prems(4) by simp
    ultimately show thesis using Cons.IH [OF a(2)] Cons.prems(2) a(6) that by auto
  qed
  have "snd s' t = snd s1 t" using s'(3) Cons.prems(2) by simp
  then have t: "snd s' t \<noteq> SIZE_MAX" "slot s' t = slot s1 t" using a(4) by (auto simp: slot_def split: prod.splits)
  have st: "slot s t = unat (m_thread_counter (fst s)) mod unat (tb_max_threads (fst s))"
    using Cons.prems(3) by (auto simp: slot_def split: prod.splits)
  have "snd s' ((t # ts) ! k) \<noteq> SIZE_MAX \<and> slot s' ((t # ts) ! k) = (unat (m_thread_counter (fst s)) + k) mod unat (tb_max_threads (fst s))"
    if "k < length (t # ts)" for k using that t st a(3) s'(5) c by (cases k) auto
  moreover have "\<forall>u. u \<notin> set (t # ts) \<longrightarrow> snd s' u = snd s u" using s'(3) a(5) by simp
  ultimately show ?case using a(1) s'(1,2,4) by auto
qed simp

text \<open>Slots are handed out in turn: the \<open>k\<close>-th thread to make its first allocation from a new
  allocator gets region \<open>k\<close> modulo \<^verbatim>\<open>max_threads\<close>, so up to \<^verbatim>\<open>max_threads\<close> threads each have a
  region of their own, and thread \<open>k + max_threads\<close> shares the region of thread \<open>k\<close>.\<close>

theorem tb_round_robin_regions:
  assumes "tb_invar (a, t_region_index_init)" "m_thread_counter a = 0" "distinct ts" "length ts < 2 ^ 64"
  shows "\<exists>s'. first_allocs ts (a, t_region_index_init) = Some s' \<and> tb_invar s'
    \<and> (\<forall>k < length ts. slot s' (ts ! k) = k mod unat (tb_max_threads a))
    \<and> (\<forall>k < length ts. \<forall>l < k. k < unat (tb_max_threads a) \<longrightarrow> slot s' (ts ! l) \<noteq> slot s' (ts ! k))"
  using first_allocs_slots [OF assms(1,3)] assms(2,4) by (fastforce simp: t_region_index_init_def)

section \<open>A concrete allocator\<close>

definition demo_tb :: ThreadLocalBitmapAllocator where
  "demo_tb = (let r = \<lparr>memory = 4096, bitmap_at = 64, bitmap = [0], block_count = 64, word_count = 1, hint = 0\<rparr>
     in \<lparr>tb_block_size = 64, tb_blocks_per_thread = 64, tb_max_threads = 2,
         m_regions = [r, r\<lparr>memory := 8192, bitmap_at := 128\<rparr>], m_thread_counter = 0\<rparr>)"

lemma demo_tb_new:
  "map_option fst (ThreadLocalBitmapAllocator_new (\<lambda>i. if i = 0 then (4096, 64) else (8192, 128)) Map.empty 40 64 2) = Some demo_tb"
  by (simp add: ThreadLocalBitmapAllocator_new_def Region_init_def demo_tb_def Let_def WORD_BITS_def upt_rec)

lemma demo_tb_invar: "tb_invar (demo_tb, t_region_index_init)"
  by (simp add: tb_invar_def demo_tb_def t_region_index_init_def bm_invar_def as_bitmap_def array_fits_def
      regions_apart_def region_end_def Let_def)

theorem tb_pool_across_threads_witness:
  "\<exists>p s'. tb_alloc_with [True, False] 3 (demo_tb, t_region_index_init) = Some (p, s') \<and> p \<noteq> nullptr
     \<and> (\<exists>s''. tb_dealloc s' p = Some s'' \<and> tb_free s'' = tb_free (demo_tb, t_region_index_init))"
proof -
  have b: "slot_bitmap (demo_tb, t_region_index_init) 3 = as_bitmap 64 (m_regions demo_tb ! 0)"
    by (simp add: slot_bitmap_def slot_def t_region_index_init_def demo_tb_def Let_def)
  have "m_block_count (slot_bitmap (demo_tb, t_region_index_init) 3) = 64"
    unfolding b by (simp add: as_bitmap_def demo_tb_def Let_def)
  moreover have "bm_free (slot_bitmap (demo_tb, t_region_index_init) 3) \<noteq> {}"
    unfolding b by (auto simp: bm_free_def as_bitmap_def demo_tb_def Let_def used_def intro: exI [of _ 0])
  ultimately show ?thesis
    using tb_pool_across_threads [OF demo_tb_invar, of 1 "[]" 3] by auto
qed

theorem tb_round_robin_regions_witness:
  "\<exists>s'. first_allocs [7, 8, 9] (demo_tb, t_region_index_init) = Some s' \<and> slot s' 7 = 0 \<and> slot s' 8 = 1 \<and> slot s' 9 = 0"
proof -
  have "m_thread_counter demo_tb = 0" "distinct [7, 8, 9 :: nat]" "length [7, 8, 9 :: nat] < 2 ^ 64" "tb_max_threads demo_tb = 2"
    by (simp_all add: demo_tb_def Let_def)
  from tb_round_robin_regions [OF demo_tb_invar this(1-3)] this(4) obtain s' where
    s': "first_allocs [7, 8, 9] (demo_tb, t_region_index_init) = Some s'"
    "\<forall>k < 3. slot s' ([7, 8, 9] ! k) = k mod 2" by (auto simp: numeral_3_eq_3)
  from s'(2) [rule_format, of 0] s'(2) [rule_format, of 1] s'(2) [rule_format, of 2] s'(1) show ?thesis by auto
qed

end
