(* ===== verification/Bitmap_Conc.thy ===== *)
theory Bitmap_Conc
  imports Bitmap
begin

text \<open>
  Interleaved executions of \<^verbatim>\<open>BitmapAllocator::alloc\<close> and \<^verbatim>\<open>dealloc\<close> by any number of
  threads. A step is one atomic access of a thread: the load or store of \<^verbatim>\<open>m_hint\<close>, the load of a
  bitmap word, a \<^verbatim>\<open>compare_exchange_weak\<close>, which may fail spuriously, or a
  \<^verbatim>\<open>fetch_and\<close>; the local computation between two accesses belongs to the first of them.
  Accesses are sequentially consistent. A thread gives back only blocks it owns, and may hand a block
  it owns to another thread.
\<close>

section \<open>The transition system\<close>

text \<open>The points of \<^verbatim>\<open>alloc\<close> and \<^verbatim>\<open>dealloc\<close> between two atomic accesses, with the local variables
  that are live there.\<close>

datatype bpc =
    BIdle
  | A_load
  | A_probe u64 u64
  | A_try u64 u64 u64
  | A_undo u64 u64
  | A_hint u64 u64
  | D_clear addr
  | D_hint u64

record bm_state =
  bma :: BitmapAllocator
  bpcs :: "tid \<Rightarrow> bpc"
  bowned :: "tid \<Rightarrow> addr set"

datatype bm_event = BTau | BTake tid addr | BGive tid addr | BNull tid

definition bgoto :: "tid \<Rightarrow> bpc \<Rightarrow> bm_state \<Rightarrow> bm_state" where
  [state_defs]: "bgoto t l s = s\<lparr>bpcs := (bpcs s)(t := l)\<rparr>"

definition bown :: "tid \<Rightarrow> addr set \<Rightarrow> bm_state \<Rightarrow> bm_state" where
  [state_defs]: "bown t B s = s\<lparr>bowned := (bowned s)(t := B)\<rparr>"

definition set_bitmap :: "u64 list \<Rightarrow> bm_state \<Rightarrow> bm_state" where
  [state_defs]: "set_bitmap bm s = s\<lparr>bma := (bma s)\<lparr>m_bitmap := bm\<rparr>\<rparr>"

definition set_hint :: "u64 \<Rightarrow> bm_state \<Rightarrow> bm_state" where
  [state_defs]: "set_hint h s = s\<lparr>bma := (bma s)\<lparr>m_hint := h\<rparr>\<rparr>"

text \<open>The word a probe looks at, and what a load of it sees.\<close>

definition probe_word :: "bm_state \<Rightarrow> u64 \<Rightarrow> u64 \<Rightarrow> u64" where
  "probe_word s start probe = (start + probe) mod m_word_count (bma s)"

definition word_at :: "bm_state \<Rightarrow> u64 \<Rightarrow> u64 option" where
  "word_at s i = load (m_bitmap (bma s)) i"

definition install :: "u64 \<Rightarrow> u64 \<Rightarrow> u64 \<Rightarrow> bm_state \<Rightarrow> bm_state" where
  [state_defs]: "install i word free_bit s =
     set_bitmap ((m_bitmap (bma s))[unat i := word OR push_bit (unat free_bit) 1]) s"

inductive bm_step :: "tid \<Rightarrow> bm_state \<Rightarrow> bm_event \<Rightarrow> bm_state \<Rightarrow> bool" where
  call_alloc: "bpcs s t = BIdle \<Longrightarrow> bm_step t s BTau (bgoto t A_load s)"
| load_hint: "bpcs s t = A_load \<Longrightarrow> bm_step t s BTau (bgoto t (A_probe (m_hint (bma s)) 0) s)"
| probe_end: "bpcs s t = A_probe start probe \<Longrightarrow> \<not> probe < m_word_count (bma s) \<Longrightarrow>
     bm_step t s (BNull t) (bgoto t BIdle s)"
| probe_full: "bpcs s t = A_probe start probe \<Longrightarrow> probe < m_word_count (bma s) \<Longrightarrow>
     word_at s (probe_word s start probe) = Some FULL \<Longrightarrow>
     bm_step t s BTau (bgoto t (A_probe start (probe + 1)) s)"
| probe_open: "bpcs s t = A_probe start probe \<Longrightarrow> probe < m_word_count (bma s) \<Longrightarrow>
     word_at s (probe_word s start probe) = Some word \<Longrightarrow> word \<noteq> FULL \<Longrightarrow>
     bm_step t s BTau (bgoto t (A_try start probe word) s)"
| claim: "bpcs s t = A_try start probe word \<Longrightarrow> i = probe_word s start probe \<Longrightarrow>
     word_at s i = Some word \<Longrightarrow> find_free_bit word = Some free_bit \<Longrightarrow>
     g = i * WORD_BITS + free_bit \<Longrightarrow> \<not> m_block_count (bma s) \<le> g \<Longrightarrow>
     bm_step t s (BTake t (index_to_ptr (bma s) g)) (bgoto t (A_hint i g) (install i word free_bit s))"
| claim_beyond: "bpcs s t = A_try start probe word \<Longrightarrow> i = probe_word s start probe \<Longrightarrow>
     word_at s i = Some word \<Longrightarrow> find_free_bit word = Some free_bit \<Longrightarrow>
     m_block_count (bma s) \<le> i * WORD_BITS + free_bit \<Longrightarrow>
     bm_step t s BTau (bgoto t (A_undo i free_bit) (install i word free_bit s))"
| cas_fail_full: "bpcs s t = A_try start probe word \<Longrightarrow>
     word_at s (probe_word s start probe) = Some FULL \<Longrightarrow>
     bm_step t s BTau (bgoto t (A_probe start (probe + 1)) s)"
| cas_fail_open: "bpcs s t = A_try start probe word \<Longrightarrow>
     word_at s (probe_word s start probe) = Some word' \<Longrightarrow> word' \<noteq> FULL \<Longrightarrow>
     bm_step t s BTau (bgoto t (A_try start probe word') s)"
| undo: "bpcs s t = A_undo i free_bit \<Longrightarrow>
     fetch_and (m_bitmap (bma s)) i (NOT (push_bit (unat free_bit) 1)) = Some bm \<Longrightarrow>
     bm_step t s (BNull t) (bgoto t BIdle (set_bitmap bm s))"
| store_hint: "bpcs s t = A_hint i g \<Longrightarrow>
     bm_step t s BTau (bgoto t BIdle (bown t (insert (index_to_ptr (bma s) g) (bowned s t)) (set_hint i s)))"
| call_dealloc: "bpcs s t = BIdle \<Longrightarrow> p \<in> bowned s t \<Longrightarrow>
     bm_step t s BTau (bgoto t (D_clear p) (bown t (bowned s t - {p}) s))"
| clear: "bpcs s t = D_clear p \<Longrightarrow> ptr_to_index (bma s) p = Some index \<Longrightarrow>
     fetch_and (m_bitmap (bma s)) (index div WORD_BITS)
       (NOT (push_bit (unat (index mod WORD_BITS)) 1)) = Some bm \<Longrightarrow>
     bm_step t s (BGive t p) (bgoto t (D_hint (index div WORD_BITS)) (set_bitmap bm s))"
| store_hint_dealloc: "bpcs s t = D_hint i \<Longrightarrow> bm_step t s BTau (bgoto t BIdle (set_hint i s))"
| hand_over: "bpcs s t = BIdle \<Longrightarrow> p \<in> bowned s t \<Longrightarrow> t \<noteq> u \<Longrightarrow>
     bm_step t s BTau (bown u (insert p (bowned s u)) (bown t (bowned s t - {p}) s))"

definition bm_move :: "tid \<Rightarrow> bm_state \<Rightarrow> bm_state \<Rightarrow> bool" where
  "bm_move t s s' = (\<exists>e. bm_step t s e s')"

definition bm_tick :: "bm_state \<Rightarrow> bm_state \<Rightarrow> bool" where
  "bm_tick s s' = (\<exists>t. bm_move t s s')"

text \<open>Initially no block is used and no thread is inside a call.\<close>

definition bm_init :: "bm_state \<Rightarrow> bool" where
  "bm_init s = (bm_invar (bma s) \<and> (\<forall>g < 64 * length (m_bitmap (bma s)). \<not> used (m_bitmap (bma s)) g)
     \<and> (\<forall>t. bpcs s t = BIdle \<and> bowned s t = {}))"

section \<open>The invariant\<close>

text \<open>Bits of the bitmap are counted from 0; \<open>num\<close> is the number of a block.\<close>

definition num :: "BitmapAllocator \<Rightarrow> addr \<Rightarrow> nat" where
  "num b p = unat ((p - m_memory b) div m_block_size b)"

text \<open>The bits a call has set and not yet handed out, or is about to clear.\<close>

fun bcarried :: "BitmapAllocator \<Rightarrow> bpc \<Rightarrow> nat set" where
  "bcarried b (A_undo i k) = {64 * unat i + unat k}"
| "bcarried b (A_hint i g) = {unat g}"
| "bcarried b (D_clear p) = {num b p}"
| "bcarried b _ = {}"

definition holds :: "bm_state \<Rightarrow> tid \<Rightarrow> nat set" where
  "holds s t = num (bma s) ` bowned s t \<union> bcarried (bma s) (bpcs s t)"

fun bpc_ok :: "BitmapAllocator \<Rightarrow> bpc \<Rightarrow> bool" where
  "bpc_ok b (A_probe start probe) = (start < m_word_count b \<or> m_word_count b = 0)"
| "bpc_ok b (A_try start probe word) = (start < m_word_count b \<and> probe < m_word_count b \<and> word \<noteq> FULL)"
| "bpc_ok b (A_undo i k) = (i < m_word_count b \<and> unat k < 64 \<and> unat (m_block_count b) \<le> 64 * unat i + unat k)"
| "bpc_ok b (A_hint i g) = (unat i = unat g div 64 \<and> g < m_block_count b)"
| "bpc_ok b (D_clear p) = (p \<in> bm_blocks b)"
| "bpc_ok b (D_hint i) = (i < m_word_count b)"
| "bpc_ok b _ = True"

definition bits_ok :: "bm_state \<Rightarrow> bool" where
  "bits_ok s = ((\<forall>t. num (bma s) ` bowned s t \<inter> bcarried (bma s) (bpcs s t) = {})
     \<and> (\<forall>t u. t \<noteq> u \<longrightarrow> holds s t \<inter> holds s u = {})
     \<and> (\<forall>g < 64 * length (m_bitmap (bma s)). used (m_bitmap (bma s)) g = (\<exists>t. g \<in> holds s t)))"

definition bm_inv :: "bm_state \<Rightarrow> bool" where
  "bm_inv s = (bm_invar (bma s) \<and> (\<forall>t. bowned s t \<subseteq> bm_blocks (bma s))
     \<and> (\<forall>t. bpc_ok (bma s) (bpcs s t)) \<and> bits_ok s)"

text \<open>The abstract set of free blocks and the effect of a step on it.\<close>

fun free_step :: "addr set \<Rightarrow> bm_event \<Rightarrow> addr set \<Rightarrow> bool" where
  "free_step F (BTake t p) F' = (p \<in> F \<and> F' = F - {p})"
| "free_step F (BGive t p) F' = (p \<notin> F \<and> F' = insert p F)"
| "free_step F e F' = (F' = F)"

lemma bm_init_inv: "bm_init s \<Longrightarrow> bm_inv s"
  by (auto simp: bm_init_def bm_inv_def bits_ok_def holds_def)

section \<open>Every step keeps the invariant\<close>

lemma num_block: "bm_invar b \<Longrightarrow> g < unat (m_block_count b) \<Longrightarrow> num b (bm_block b g) = g"
  unfolding num_def bm_block_def by (rule block_index [OF bm_invar_simps(5)])

lemma index_to_ptr_unat: "index_to_ptr b g = bm_block b (unat g)"
  using index_to_ptr_block [of b "unat g"] by simp

lemma num_inj: "bm_invar b \<Longrightarrow> inj_on (num b) (bm_blocks b)"
  by (auto simp: inj_on_def bm_blocks_def num_block)

lemma bgeom [simp]:
  "num (b\<lparr>m_bitmap := bm, m_hint := h\<rparr>) = num b"
  "bcarried (b\<lparr>m_bitmap := bm, m_hint := h\<rparr>) = bcarried b"
  "bpc_ok (b\<lparr>m_bitmap := bm, m_hint := h\<rparr>) = bpc_ok b"
proof -
  show n: "num (b\<lparr>m_bitmap := bm, m_hint := h\<rparr>) = num b" by (simp add: num_def fun_eq_iff)
  show "bcarried (b\<lparr>m_bitmap := bm, m_hint := h\<rparr>) = bcarried b"
  proof
    fix l show "bcarried (b\<lparr>m_bitmap := bm, m_hint := h\<rparr>) l = bcarried b l" by (cases l) (simp_all add: n)
  qed
  show "bpc_ok (b\<lparr>m_bitmap := bm, m_hint := h\<rparr>) = bpc_ok b"
  proof
    fix l show "bpc_ok (b\<lparr>m_bitmap := bm, m_hint := h\<rparr>) l = bpc_ok b l" by (cases l) simp_all
  qed
qed

text \<open>
  The step of one thread: its new point and possessions determine its new bits \<open>H\<close>; bits it gains were
  clear, and the new bitmap differs from the old one exactly in the bits gained and lost.
\<close>

lemma inv_local:
  assumes inv: "bm_inv s"
    and eqs: "bma s' = (bma s)\<lparr>m_bitmap := bm, m_hint := h\<rparr>" "bpcs s' = (bpcs s)(t := l)" "bowned s' = (bowned s)(t := B)"
    and b': "bm_invar (bma s')" and l: "bpc_ok (bma s) l" and B: "B \<subseteq> bm_blocks (bma s)" "num (bma s) ` B \<inter> bcarried (bma s) l = {}"
    and H: "H = num (bma s) ` B \<union> bcarried (bma s) l"
    and gain: "\<And>g. g \<in> H \<Longrightarrow> g \<in> holds s t \<or> g < 64 * length (m_bitmap (bma s)) \<and> \<not> used (m_bitmap (bma s)) g"
    and len: "length bm = length (m_bitmap (bma s))"
    and bits: "\<And>g. g < 64 * length (m_bitmap (bma s)) \<Longrightarrow>
        used bm g = (g \<in> H \<or> used (m_bitmap (bma s)) g \<and> g \<notin> holds s t)"
  shows "bm_inv s'"
proof -
  have bo: "bits_ok s" using inv by (simp add: bm_inv_def)
  have h: "holds s' u = (if u = t then H else holds s u)" for u by (simp add: holds_def eqs H)
  have apart: "holds s u \<inter> H = {}" if "u \<noteq> t" for u
    using gain bo that unfolding bits_ok_def by blast
  have "holds s' u \<inter> holds s' v = {}" if "u \<noteq> v" for u v
    using apart [of u] apart [of v] bo that unfolding h bits_ok_def by auto
  moreover have "used bm g = (\<exists>u. g \<in> holds s' u)" if g: "g < 64 * length (m_bitmap (bma s))" for g
  proof -
    have "used (m_bitmap (bma s)) g = (\<exists>u. g \<in> holds s u)" using bo g by (simp add: bits_ok_def)
    moreover have "g \<in> holds s u \<Longrightarrow> u \<noteq> t \<Longrightarrow> g \<notin> holds s t" for u using bo unfolding bits_ok_def by blast
    ultimately show ?thesis unfolding bits [OF g] h by auto
  qed
  moreover have "num (bma s) ` bowned s u \<inter> bcarried (bma s) (bpcs s u) = {}" for u using bo by (simp add: bits_ok_def)
  ultimately have "bits_ok s'" using B(2) len by (simp add: bits_ok_def eqs)
  then show ?thesis using inv b' l B(1) by (simp add: bm_inv_def eqs)
qed

text \<open>A step that keeps the bitmap and the bits of the thread.\<close>

lemma inv_keep:
  assumes inv: "bm_inv s" and l: "bpc_ok (bma s) l" and h: "h < m_word_count (bma s) \<or> h = m_hint (bma s)"
    and B: "B \<subseteq> bm_blocks (bma s)" "num (bma s) ` B \<inter> bcarried (bma s) l = {}"
    and H: "num (bma s) ` B \<union> bcarried (bma s) l = holds s t"
  shows "bm_inv (bgoto t l (bown t B (set_hint h s)))" (is "bm_inv ?s'")
proof (rule inv_local [OF inv, where bm = "m_bitmap (bma s)" and h = h and t = t and l = l and B = B])
  show "bm_invar (bma ?s')"
    using inv h by (auto simp: bm_inv_def bm_invar_def state_defs word_less_nat_alt)
  show "used (m_bitmap (bma s)) g = (g \<in> holds s t \<or> used (m_bitmap (bma s)) g \<and> g \<notin> holds s t)"
    if "g < 64 * length (m_bitmap (bma s))" for g
    using inv that by (auto simp: bm_inv_def bits_ok_def)
qed (use l B H in \<open>simp_all add: state_defs\<close>)

lemma inv_bgoto:
  assumes "bm_inv s" "bpc_ok (bma s) l" "bcarried (bma s) l = bcarried (bma s) (bpcs s t)"
  shows "bm_inv (bgoto t l s)"
proof -
  have "bm_inv (bgoto t l (bown t (bowned s t) (set_hint (m_hint (bma s)) s)))"
    by (rule inv_keep) (use assms in \<open>auto simp: bm_inv_def bits_ok_def holds_def\<close>)
  then show ?thesis by (simp add: state_defs)
qed

text \<open>The word a probe looks at exists, and the two bitmap updates set and clear one bit.\<close>

lemma inv_pc: "bm_inv s \<Longrightarrow> bpcs s t = l \<Longrightarrow> bpc_ok (bma s) l"
  by (auto simp: bm_inv_def)

lemma probe_word_less:
  assumes "bm_inv s" "m_word_count (bma s) \<noteq> 0"
  shows "probe_word s start probe < m_word_count (bma s)"
    "unat (probe_word s start probe) < length (m_bitmap (bma s))"
proof -
  have "unat (probe_word s start probe) < unat (m_word_count (bma s))"
    using assms(2) by (simp add: probe_word_def unat_mod unat_gt_0)
  then show "probe_word s start probe < m_word_count (bma s)"
    "unat (probe_word s start probe) < length (m_bitmap (bma s))"
    using assms(1) by (simp_all add: word_less_nat_alt bm_inv_def bm_invar_def)
qed

lemma set_bit_of_word:
  assumes "load bm i = Some word" "find_free_bit word = Some k"
  shows "bm[unat i := word OR push_bit (unat k) 1] = set_used bm (64 * unat i + unat k)"
    "\<not> used bm (64 * unat i + unat k)" "64 * unat i + unat k < 64 * length bm" "unat k < 64"
proof -
  have i: "unat i < length bm" "word = bm ! unat i" using assms(1) by (auto simp: load_def split: if_splits)
  have w: "word \<noteq> FULL" using assms(2) find_free_bit_FULL by auto
  then have k: "unat k = low_zero word" "unat k < 64"
    using find_free_bit_low_zero unat_low_zero low_zero_less assms(2) by auto
  then show "unat k < 64" "64 * unat i + unat k < 64 * length bm" using i(1) by simp_all
  show "bm[unat i := word OR push_bit (unat k) 1] = set_used bm (64 * unat i + unat k)"
    using k(2) i by (simp add: set_used_def)
  show "\<not> used bm (64 * unat i + unat k)"
    using k i low_zero_clear [OF w] by (simp add: used_def)
qed

lemma clear_bit_of_word:
  assumes "unat k < 64"
  shows "fetch_and bm i (NOT (push_bit (unat k) 1)) =
     (if unat i < length bm then Some (clear_used bm (64 * unat i + unat k)) else None)"
  using assms by (simp add: fetch_and_def load_def clear_used_def)

lemma bm_invar_bits:
  "bm_invar b \<Longrightarrow> length bm = length (m_bitmap b) \<Longrightarrow> bm_invar (b\<lparr>m_bitmap := bm, m_hint := m_hint b\<rparr>)"
  unfolding bm_invar_def by (elim conjE, intro conjI) simp_all

text \<open>A successful exchange: a clear bit becomes set and is carried.\<close>

lemma inv_install:
  assumes inv: "bm_inv s" and t: "bpcs s t = A_try start probe word" and ld: "word_at s i = Some word"
    and k: "find_free_bit word = Some free_bit" and l: "bpc_ok (bma s) l" "bcarried (bma s) l = {64 * unat i + unat free_bit}"
  shows "bm_inv (bgoto t l (install i word free_bit s))" (is "bm_inv ?s'")
proof -
  let ?bm = "m_bitmap (bma s)" and ?g = "64 * unat i + unat free_bit"
  note set = set_bit_of_word [OF ld [unfolded word_at_def] k]
  have "\<not> (\<exists>u. ?g \<in> holds s u)" using inv set(2,3) by (auto simp: bm_inv_def bits_ok_def)
  then have g: "?g \<notin> num (bma s) ` bowned s t" by (auto simp: holds_def)
  have eqs: "bma ?s' = (bma s)\<lparr>m_bitmap := set_used ?bm ?g, m_hint := m_hint (bma s)\<rparr>"
    using set(1) by (simp add: state_defs)
  show ?thesis
  proof (rule inv_local [OF inv eqs, where t = t and l = l and B = "bowned s t"])
    show "bm_invar (bma ?s')" unfolding eqs by (rule bm_invar_bits) (use inv in \<open>simp_all add: bm_inv_def\<close>)
    show "used (set_used ?bm ?g) j = (j \<in> num (bma s) ` bowned s t \<union> bcarried (bma s) l \<or> used ?bm j \<and> j \<notin> holds s t)"
      if "j < 64 * length ?bm" for j
    proof -
      have "j \<in> holds s t \<Longrightarrow> used ?bm j" using inv that by (auto simp: bm_inv_def bits_ok_def)
      then show ?thesis using used_set_used [OF set(3)] l(2) t by (auto simp: holds_def)
    qed
  qed (use inv l t g set(2,3) in \<open>auto simp: state_defs bm_inv_def holds_def\<close>)
qed

text \<open>A \<^verbatim>\<open>fetch_and\<close>: a carried bit is cleared.\<close>

lemma inv_clear:
  assumes inv: "bm_inv s" and t: "bcarried (bma s) (bpcs s t) = {g}" and g: "g < 64 * length (m_bitmap (bma s))"
    and l: "bpc_ok (bma s) l" "bcarried (bma s) l = {}"
  shows "bm_inv (bgoto t l (set_bitmap (clear_used (m_bitmap (bma s)) g) s))" (is "bm_inv ?s'")
proof -
  let ?bm = "m_bitmap (bma s)"
  have eqs: "bma ?s' = (bma s)\<lparr>m_bitmap := clear_used ?bm g, m_hint := m_hint (bma s)\<rparr>" by (simp add: state_defs)
  have out: "g \<notin> num (bma s) ` bowned s t" using inv t unfolding bm_inv_def bits_ok_def by blast
  show ?thesis
  proof (rule inv_local [OF inv eqs, where t = t and l = l and B = "bowned s t"])
    show "bm_invar (bma ?s')" unfolding eqs by (rule bm_invar_bits) (use inv in \<open>simp_all add: bm_inv_def\<close>)
    show "used (clear_used ?bm g) j = (j \<in> num (bma s) ` bowned s t \<union> bcarried (bma s) l \<or> used ?bm j \<and> j \<notin> holds s t)"
      if "j < 64 * length ?bm" for j
    proof -
      have "j \<in> holds s t \<Longrightarrow> used ?bm j" using inv that by (auto simp: bm_inv_def bits_ok_def)
      then show ?thesis using used_clear_used [OF g] l(2) t out by (auto simp: holds_def)
    qed
  qed (use inv l in \<open>auto simp: state_defs bm_inv_def holds_def\<close>)
qed

subsection \<open>The steps\<close>

lemma claim_index:
  assumes "bm_inv s" "word_at s i = Some word" "find_free_bit word = Some k"
  shows "unat (i * WORD_BITS + k) = 64 * unat i + unat k"
proof -
  have w: "unat k < 64" "unat i < length (m_bitmap (bma s))"
    using set_bit_of_word(3,4) [OF assms(2) [unfolded word_at_def] assms(3)] by auto
  have "unat i < 2 ^ 58" using w(2) assms(1) bm_invar_simps(1,2) [of "bma s"] by (simp add: bm_inv_def)
  then have g: "(of_nat (unat i) * WORD_BITS + of_nat (unat k) :: u64) = of_nat (64 * unat i + unat k)"
    "64 * unat i + unat k < 2 ^ 64" using global_index_unat [OF _ w(1)] by blast+
  from g(1) have "i * WORD_BITS + k = of_nat (64 * unat i + unat k)" by simp
  then show ?thesis using unat_of_nat_64 [OF g(2)] by simp
qed

lemma bm_free_beyond:
  assumes "unat (m_block_count b) \<le> g" "g < 64 * length (m_bitmap b)"
  shows "bm_free (b\<lparr>m_bitmap := set_used (m_bitmap b) g\<rparr>) = bm_free b"
    "bm_free (b\<lparr>m_bitmap := clear_used (m_bitmap b) g\<rparr>) = bm_free b"
  using assms(1) unfolding bm_free_def bm_block_def
  by (auto simp: used_set_used [OF assms(2)] used_clear_used [OF assms(2)] intro!: arg_cong [where f = "image _"])

lemma block_numE:
  assumes "bm_invar b" "p \<in> bm_blocks b"
  obtains "p = bm_block b (num b p)" "num b p < unat (m_block_count b)" "ptr_to_index b p = Some (of_nat (num b p))"
    "unat (of_nat (num b p) :: u64) = num b p"
proof -
  obtain g where g: "p = bm_block b g" "g < unat (m_block_count b)" using assms(2) by (auto simp: bm_blocks_def)
  then have "num b p = g" using num_block [OF assms(1)] by simp
  moreover have "unat (of_nat g :: u64) = g" using g(2) unat_lt_2p64 [of "m_block_count b"] by (intro unat_of_nat_64) simp
  ultimately show thesis using that g ptr_to_index_block [OF assms(1) g(2)] by simp
qed

lemma free_keep [simp]:
  "bm_free (bma (bgoto t l s)) = bm_free (bma s)" "bm_free (bma (bown t B s)) = bm_free (bma s)"
  "bm_free (bma (set_hint h s)) = bm_free (bma s)"
  by (simp_all add: state_defs bm_free_def bm_block_def)

text \<open>One step: the invariant is kept, and the set of free blocks changes as the event says.\<close>

definition good_step :: "bm_state \<Rightarrow> bm_event \<Rightarrow> bm_state \<Rightarrow> bool" where
  "good_step s e s' = (bm_inv s' \<and> free_step (bm_free (bma s)) e (bm_free (bma s')))"

lemma good_goto:
  assumes "bm_inv s" "bpc_ok (bma s) l" "bcarried (bma s) l = bcarried (bma s) (bpcs s t)" "e = BTau \<or> e = BNull t"
  shows "good_step s e (bgoto t l s)"
  using inv_bgoto [OF assms(1-3)] assms(4) by (auto simp: good_step_def)

lemma claim_good:
  assumes inv: "bm_inv s" and t: "bpcs s t = A_try start probe word" and i: "i = probe_word s start probe"
    and ld: "word_at s i = Some word" and k: "find_free_bit word = Some k"
    and g: "g = i * WORD_BITS + k" "\<not> m_block_count (bma s) \<le> g"
  shows "good_step s (BTake t (index_to_ptr (bma s) g)) (bgoto t (A_hint i g) (install i word k s))"
proof -
  let ?b = "bma s"
  note set = set_bit_of_word [OF ld [unfolded word_at_def] k]
  have b: "bm_invar ?b" using inv by (simp add: bm_inv_def)
  have ug: "unat g = 64 * unat i + unat k" unfolding g(1) by (rule claim_index [OF inv ld k])
  then have lt: "unat g < unat (m_block_count ?b)" using g(2) by (simp add: word_le_nat_alt)
  have p: "index_to_ptr ?b g = bm_block ?b (unat g)" by (rule index_to_ptr_unat)
  have "bm_inv (bgoto t (A_hint i g) (install i word k s))"
    by (rule inv_install [OF inv t ld k]) (use ug set(4) lt in \<open>simp_all add: word_less_nat_alt\<close>)
  moreover have "index_to_ptr ?b g \<in> bm_free ?b"
    unfolding p using bm_free_mem [OF b lt] set(2) ug by simp
  moreover have "bm_free (bma (install i word k s)) = bm_free ?b - {index_to_ptr ?b g}"
    unfolding p using bm_free_set [OF b lt, of "m_hint ?b"] set(1) ug by (simp add: state_defs)
  ultimately show ?thesis by (simp add: good_step_def)
qed

lemma claim_beyond_good:
  assumes inv: "bm_inv s" and t: "bpcs s t = A_try start probe word" and i: "i = probe_word s start probe"
    and ld: "word_at s i = Some word" and k: "find_free_bit word = Some k" and g: "m_block_count (bma s) \<le> i * WORD_BITS + k"
  shows "good_step s BTau (bgoto t (A_undo i k) (install i word k s))"
proof -
  note set = set_bit_of_word [OF ld [unfolded word_at_def] k]
  have ge: "unat (m_block_count (bma s)) \<le> 64 * unat i + unat k"
    using g claim_index [OF inv ld k] by (simp add: word_le_nat_alt)
  have "m_word_count (bma s) \<noteq> 0" using inv_pc [OF inv t] by auto
  then have "i < m_word_count (bma s)" unfolding i by (rule probe_word_less [OF inv])
  then have "bm_inv (bgoto t (A_undo i k) (install i word k s))"
    using ge set(4) by (intro inv_install [OF inv t ld k]) simp_all
  moreover have "bm_free (bma (install i word k s)) = bm_free (bma s)"
    using bm_free_beyond(1) [OF ge set(3)] set(1) by (simp add: state_defs)
  ultimately show ?thesis by (simp add: good_step_def)
qed

lemma undo_good:
  assumes inv: "bm_inv s" and t: "bpcs s t = A_undo i k"
    and bm: "fetch_and (m_bitmap (bma s)) i (NOT (push_bit (unat k) 1)) = Some bm"
  shows "good_step s (BNull t) (bgoto t BIdle (set_bitmap bm s))"
proof -
  have ok: "i < m_word_count (bma s)" "unat k < 64" "unat (m_block_count (bma s)) \<le> 64 * unat i + unat k"
    using inv_pc [OF inv t] by simp_all
  have "unat i < length (m_bitmap (bma s))" using inv ok(1) by (simp add: bm_inv_def bm_invar_def word_less_nat_alt)
  then have g: "64 * unat i + unat k < 64 * length (m_bitmap (bma s))"
    and "bm = clear_used (m_bitmap (bma s)) (64 * unat i + unat k)"
    using bm ok(2) clear_bit_of_word [OF ok(2)] by (simp_all del: push_bit_of_1)
  with inv_clear [OF inv _ g, of t BIdle] bm_free_beyond(2) [OF ok(3) g] t show ?thesis
    by (simp add: good_step_def set_bitmap_def)
qed

lemma clear_good:
  assumes inv: "bm_inv s" and t: "bpcs s t = D_clear p" and x: "ptr_to_index (bma s) p = Some x"
    and bm: "fetch_and (m_bitmap (bma s)) (x div WORD_BITS) (NOT (push_bit (unat (x mod WORD_BITS)) 1)) = Some bm"
  shows "good_step s (BGive t p) (bgoto t (D_hint (x div WORD_BITS)) (set_bitmap bm s))"
proof -
  let ?b = "bma s"
  let ?n = "num ?b p"
  have b: "bm_invar ?b" "p \<in> bm_blocks ?b" using inv inv_pc [OF inv t] by (simp_all add: bm_inv_def)
  obtain n: "p = bm_block ?b ?n" "?n < unat (m_block_count ?b)" "x = of_nat ?n" "unat x = ?n"
    using block_numE [OF b] x by (metis option.inject)
  have wb: "unat (x div WORD_BITS) = ?n div 64" "unat (x mod WORD_BITS) = ?n mod 64"
    using n(4) by (simp_all add: WORD_BITS_def unat_div unat_mod)
  have g: "?n < 64 * length (m_bitmap ?b)" by (rule bm_invar_simps(3) [OF b(1) n(2)])
  then have d: "?n div 64 < length (m_bitmap ?b)" by linarith
  have bm: "bm = clear_used (m_bitmap ?b) ?n"
    using bm clear_bit_of_word [of "x mod WORD_BITS" "m_bitmap ?b" "x div WORD_BITS"] wb d by (simp del: push_bit_of_1)
  have "bm_inv (bgoto t (D_hint (x div WORD_BITS)) (set_bitmap bm s))"
    unfolding bm using t g d b(1) wb(1) by (intro inv_clear [OF inv]) (simp_all add: word_less_nat_alt bm_invar_def)
  moreover have "used (m_bitmap ?b) ?n"
    using inv g t by (auto simp: bm_inv_def bits_ok_def holds_def intro!: exI [of _ t])
  then have "p \<notin> bm_free ?b" using bm_free_mem [OF b(1) n(2)] n(1) by simp
  moreover have "bm_free (bma (set_bitmap bm s)) = insert p (bm_free ?b)"
    using bm_free_clear [OF b(1) n(2), of "m_hint ?b"] n(1) bm by (simp add: set_bitmap_def)
  ultimately show ?thesis by (simp add: good_step_def)
qed

lemma store_hint_good:
  assumes inv: "bm_inv s" and t: "bpcs s t = A_hint i g"
  shows "good_step s BTau (bgoto t BIdle (bown t (insert (index_to_ptr (bma s) g) (bowned s t)) (set_hint i s)))"
proof -
  have b: "bm_invar (bma s)" and g: "unat i = unat g div 64" "unat g < unat (m_block_count (bma s))"
    using inv inv_pc [OF inv t] by (simp_all add: bm_inv_def word_less_nat_alt)
  have p: "index_to_ptr (bma s) g = bm_block (bma s) (unat g)" by (rule index_to_ptr_unat)
  have "unat i < length (m_bitmap (bma s))" using bm_invar_simps(3) [OF b g(2)] g(1) by linarith
  then have i: "i < m_word_count (bma s)" using b by (simp add: bm_invar_def word_less_nat_alt)
  have "bm_inv (bgoto t BIdle (bown t (insert (index_to_ptr (bma s) g) (bowned s t)) (set_hint i s)))"
    by (rule inv_keep [OF inv]) (use inv t i g p num_block [OF b g(2)] in \<open>auto simp: bm_inv_def holds_def bm_blocks_def\<close>)
  then show ?thesis by (simp add: good_step_def)
qed

lemma call_dealloc_good:
  assumes inv: "bm_inv s" and t: "bpcs s t = BIdle" "p \<in> bowned s t"
  shows "good_step s BTau (bgoto t (D_clear p) (bown t (bowned s t - {p}) s))"
proof -
  have b: "bm_invar (bma s)" and o: "bowned s t \<subseteq> bm_blocks (bma s)" using inv by (simp_all add: bm_inv_def)
  have "num (bma s) ` (bowned s t - {p}) = num (bma s) ` bowned s t - {num (bma s) p}"
    using inj_on_image_set_diff [OF num_inj [OF b], of "bowned s t" "{p}"] o t(2) by auto
  then have "bm_inv (bgoto t (D_clear p) (bown t (bowned s t - {p}) (set_hint (m_hint (bma s)) s)))"
    by (intro inv_keep [OF inv]) (use o t in \<open>auto simp: holds_def\<close>)
  then have "bm_inv (bgoto t (D_clear p) (bown t (bowned s t - {p}) s))" by (simp add: state_defs)
  then show ?thesis by (simp add: good_step_def)
qed

lemma store_hint_dealloc_good:
  assumes inv: "bm_inv s" and t: "bpcs s t = D_hint i"
  shows "good_step s BTau (bgoto t BIdle (set_hint i s))"
proof -
  have "i < m_word_count (bma s)" using inv_pc [OF inv t] by simp
  then have "bm_inv (bgoto t BIdle (bown t (bowned s t) (set_hint i s)))"
    by (intro inv_keep [OF inv]) (use inv t in \<open>auto simp: bm_inv_def holds_def\<close>)
  then have "bm_inv (bgoto t BIdle (set_hint i s))" by (simp add: state_defs)
  then show ?thesis by (simp add: good_step_def)
qed

lemma hand_over_good:
  assumes inv: "bm_inv s" and t: "bpcs s t = BIdle" "p \<in> bowned s t" "t \<noteq> u"
  shows "good_step s BTau (bown u (insert p (bowned s u)) (bown t (bowned s t - {p}) s))" (is "good_step s BTau ?s'")
proof -
  let ?n = "num (bma s)"
  have b: "bm_invar (bma s)" and o: "\<And>v. bowned s v \<subseteq> bm_blocks (bma s)" and bits: "bits_ok s"
    using inv by (simp_all add: bm_inv_def)
  have d: "?n ` (bowned s t - {p}) = ?n ` bowned s t - {?n p}"
    using inj_on_image_set_diff [OF num_inj [OF b], of "bowned s t" "{p}"] o t(2) by auto
  have pt: "?n p \<in> holds s t" using t(2) by (simp add: holds_def)
  have h: "holds ?s' v = (if v = u then insert (?n p) (holds s u) else if v = t then holds s t - {?n p} else holds s v)" for v
    using t d by (auto simp: holds_def bown_def)
  have disj: "v \<noteq> w \<Longrightarrow> holds s v \<inter> holds s w = {}" for v w using bits by (simp add: bits_ok_def)
  have "v \<noteq> w \<Longrightarrow> holds ?s' v \<inter> holds ?s' w = {}" for v w
    using disj [of v w] disj [of v t] disj [of t w] pt t(3) unfolding h by auto
  moreover have "?n ` bowned ?s' v \<inter> bcarried (bma s) (bpcs s v) = {}" for v
  proof -
    have "?n p \<notin> bcarried (bma s) (bpcs s u)" using disj [of t u] pt t(3) by (auto simp: holds_def)
    moreover have "?n ` bowned s v \<inter> bcarried (bma s) (bpcs s v) = {}" using bits by (simp add: bits_ok_def)
    ultimately show ?thesis using d by (auto simp: bown_def split: if_splits)
  qed
  moreover have "(\<exists>v. g \<in> holds ?s' v) = (\<exists>v. g \<in> holds s v)" for g
    using pt t(3) unfolding h by (metis Diff_iff insert_iff singletonD)
  ultimately have "bits_ok ?s'" using bits by (simp add: bits_ok_def) (simp add: bown_def)
  moreover have "bowned ?s' v \<subseteq> bm_blocks (bma s)" for v using o t(2) by (auto simp: bown_def split: if_splits)
  ultimately show ?thesis using inv by (simp add: good_step_def bm_inv_def bown_def)
qed

lemma step_good: "bm_step t s e s' \<Longrightarrow> bm_inv s \<Longrightarrow> good_step s e s'"
proof (induction rule: bm_step.induct)
  case (load_hint s t)
  then have "bm_invar (bma s)" by (simp add: bm_inv_def)
  from bm_invar_simps(4) [OF this] load_hint show ?case by (intro good_goto) (simp_all add: word_less_nat_alt)
next
  case (probe_open s t start probe word)
  with inv_pc [OF probe_open(5,1)] show ?case by (intro good_goto) auto
next
  case (probe_full s t start probe)
  with inv_pc [OF probe_full(4,1)] show ?case by (intro good_goto) auto
next
  case (cas_fail_full s t start probe word)
  with inv_pc [OF cas_fail_full(3,1)] show ?case by (intro good_goto) auto
next
  case (cas_fail_open s t start probe word word')
  with inv_pc [OF cas_fail_open(4,1)] show ?case by (intro good_goto) auto
qed (auto intro: good_goto claim_good claim_beyond_good undo_good clear_good store_hint_good call_dealloc_good
    store_hint_dealloc_good hand_over_good simp del: push_bit_of_1)

section \<open>Reachable states\<close>

lemma move_inv: "bm_move t s s' \<Longrightarrow> bm_inv s \<Longrightarrow> bm_inv s'"
  by (auto simp: bm_move_def good_step_def dest: step_good)

interpretation bc: interleaving bm_init bm_tick bm_inv
proof unfold_locales
  show "bm_inv s" if "bm_init s" for s using that by (rule bm_init_inv)
  show "bm_inv s'" if "bm_tick s s'" "bm_inv s" for s s'
    using that move_inv by (auto simp: bm_tick_def)
qed

text \<open>The blocks a thread has: those it owns and the one its current call carries.\<close>

fun in_flight :: "BitmapAllocator \<Rightarrow> bpc \<Rightarrow> addr set" where
  "in_flight b (A_hint i g) = {index_to_ptr b g}"
| "in_flight b (D_clear p) = {p}"
| "in_flight b _ = {}"

definition possession :: "bm_state \<Rightarrow> tid \<Rightarrow> addr set" where
  "possession s t = bowned s t \<union> in_flight (bma s) (bpcs s t)"

lemma possession_blocks:
  assumes "bm_inv s" "p \<in> possession s t"
  shows "p \<in> bm_blocks (bma s) \<and> num (bma s) p \<in> holds s t"
proof (cases "p \<in> bowned s t")
  case True
  then show ?thesis using assms(1) by (auto simp: bm_inv_def holds_def)
next
  case False
  then have "p \<in> in_flight (bma s) (bpcs s t)" using assms(2) by (simp add: possession_def)
  moreover have "bm_invar (bma s)" using assms(1) by (simp add: bm_inv_def)
  ultimately show ?thesis
    using inv_pc [OF assms(1) refl, of t] num_block [of "bma s"]
    by (cases "bpcs s t") (auto simp: holds_def bm_blocks_def word_less_nat_alt index_to_ptr_unat)
qed

lemma holds_possession:
  assumes "bm_inv s" "g \<in> holds s t" "g < unat (m_block_count (bma s))"
  shows "bm_block (bma s) g \<in> possession s t"
proof -
  have b: "bm_invar (bma s)" "bowned s t \<subseteq> bm_blocks (bma s)" using assms(1) by (simp_all add: bm_inv_def)
  have blk: "num (bma s) p = g \<Longrightarrow> p \<in> bm_blocks (bma s) \<Longrightarrow> bm_block (bma s) g = p" for p
    using block_numE [OF b(1)] by metis
  from assms(2) consider p where "p \<in> bowned s t" "num (bma s) p = g" | "g \<in> bcarried (bma s) (bpcs s t)"
    by (auto simp: holds_def)
  then show ?thesis
  proof cases
    case 1
    then show ?thesis using blk b(2) by (auto simp: possession_def)
  next
    case 2
    then show ?thesis
      using inv_pc [OF assms(1) refl, of t] blk assms(3) index_to_ptr_unat
      by (cases "bpcs s t") (auto simp: possession_def)
  qed
qed

lemma possession_partition:
  assumes inv: "bm_inv s"
  shows "t \<noteq> u \<Longrightarrow> possession s t \<inter> possession s u = {}"
    "(\<Union>t. possession s t) = bm_blocks (bma s) - bm_free (bma s)"
proof -
  have b: "bm_invar (bma s)" and bits: "bits_ok s" using inv by (simp_all add: bm_inv_def)
  show "possession s t \<inter> possession s u = {}" if "t \<noteq> u"
    using possession_blocks [OF inv, of _ t] possession_blocks [OF inv, of _ u] bits that
    by (fastforce simp: bits_ok_def)
  have used: "p \<in> bm_blocks (bma s) - bm_free (bma s)" if p: "p \<in> possession s t" for p t
  proof -
    have n: "p \<in> bm_blocks (bma s)" "num (bma s) p \<in> holds s t" using possession_blocks [OF inv p] by auto
    obtain g: "p = bm_block (bma s) (num (bma s) p)" "num (bma s) p < unat (m_block_count (bma s))"
      by (rule block_numE [OF b n(1)])
    have "used (m_bitmap (bma s)) (num (bma s) p)"
      using bits bm_invar_simps(3) [OF b g(2)] n(2) by (auto simp: bits_ok_def)
    then have "p \<notin> bm_free (bma s)" using bm_free_mem [OF b g(2)] g(1) by simp
    with n(1) show ?thesis by blast
  qed
  have held: "\<exists>t. p \<in> possession s t" if "p \<in> bm_blocks (bma s) - bm_free (bma s)" for p
  proof -
    from that obtain g where g: "p = bm_block (bma s) g" "g < unat (m_block_count (bma s))" "used (m_bitmap (bma s)) g"
      using bm_free_mem [OF b] by (auto simp: bm_blocks_def)
    then obtain t where "g \<in> holds s t" using bits bm_invar_simps(3) [OF b g(2)] by (auto simp: bits_ok_def)
    with holds_possession [OF inv _ g(2)] g(1) show ?thesis by blast
  qed
  show "(\<Union>t. possession s t) = bm_blocks (bma s) - bm_free (bma s)"
  proof (intro equalityI subsetI)
    show "p \<in> bm_blocks (bma s) - bm_free (bma s)" if "p \<in> (\<Union>t. possession s t)" for p using that by (elim UN_E) (rule used)
    show "p \<in> (\<Union>t. possession s t)" if "p \<in> bm_blocks (bma s) - bm_free (bma s)" for p using held [OF that] by simp
  qed
qed

section \<open>Runs of a single thread\<close>

text \<open>Where a thread stands after the inner loop and after the outer loop.\<close>

definition claim_pc :: "u64 \<Rightarrow> u64 \<Rightarrow> u64 \<Rightarrow> claim \<Rightarrow> bpc" where
  "claim_pc start probe i r =
     (case r of Next_word \<Rightarrow> A_probe start (probe + 1) | Return_null \<Rightarrow> BIdle | Claimed g \<Rightarrow> A_hint i g)"

lemma bgoto_bgoto [simp]: "bgoto t l (bgoto t k s) = bgoto t l s"
  "bgoto t l (set_bitmap bm (bgoto t k s)) = bgoto t l (set_bitmap bm s)"
  "set_bitmap bm (set_bitmap bm' s) = set_bitmap bm s"
  "set_bitmap (m_bitmap (bma s)) s = s"
  "bpcs (bgoto t l s) t = l" "bma (bgoto t l s) = bma s" "bma (set_bitmap bm s) = (bma s)\<lparr>m_bitmap := bm\<rparr>"
  by (simp_all add: state_defs)

text \<open>A step of a thread inside a call.\<close>

definition busy :: "tid \<Rightarrow> bm_state \<Rightarrow> bm_state \<Rightarrow> bool" where
  "busy t s s' = (bm_move t s s' \<and> bpcs s t \<noteq> BIdle)"

lemma busyI: "bm_step t s e s' \<Longrightarrow> (busy t)\<^sup>*\<^sup>* s' s'' \<Longrightarrow> bpcs s t \<noteq> BIdle \<Longrightarrow> (busy t)\<^sup>*\<^sup>* s s''"
  by (rule converse_rtranclp_into_rtranclp [of "busy t"]) (auto simp: busy_def bm_move_def)

lemma busy1: "bm_step t s e s' \<Longrightarrow> bpcs s t \<noteq> BIdle \<Longrightarrow> (busy t)\<^sup>*\<^sup>* s s'"
  by (rule busyI [OF _ rtranclp.rtrancl_refl])

lemma busy_moves: "(busy t)\<^sup>*\<^sup>* s s' \<Longrightarrow> (bm_move t)\<^sup>*\<^sup>* s s'"
  using mono_rtranclp [of "busy t" "bm_move t"] by (auto simp: busy_def)

lemma busy_inv: "(busy t)\<^sup>*\<^sup>* s s' \<Longrightarrow> bm_inv s \<Longrightarrow> bm_inv s'"
  by (induction rule: rtranclp_induct) (auto simp: busy_def intro: move_inv)

lemma claim_loopE:
  assumes "claim_loop sps bc bm i word = Some (r, bm')" "word \<noteq> FULL"
  obtains (beyond) k where "find_free_bit word = Some k" "load bm i = Some word" "bc \<le> i * WORD_BITS + k"
      "r = Return_null" "fetch_and (bm[unat i := word OR push_bit (unat k) 1]) i (NOT (push_bit (unat k) 1)) = Some bm'"
  | (claimed) k where "find_free_bit word = Some k" "load bm i = Some word" "\<not> bc \<le> i * WORD_BITS + k"
      "r = Claimed (i * WORD_BITS + k)" "bm' = bm[unat i := word OR push_bit (unat k) 1]"
  | (retry) cur sp sps' where "sps = sp # sps'" "load bm i = Some cur" "claim_loop sps' bc bm i cur = Some (r, bm')"
proof -
  obtain sp sps' where sps: "sps = sp # sps'" using assms by (cases sps) (simp_all add: claim_loop.simps)
  obtain k where k: "find_free_bit word = Some k" using find_free_bit_low_zero [OF assms(2)] by blast
  note step = assms(1) [unfolded sps, simplified claim_loop.simps [of "sp # sps'"] assms(2) if_False list.case k]
  obtain cur where cur: "load bm i = Some cur" using step by (cases "load bm i") (simp_all add: Let_def)
  then have "bm[unat i := cur] = bm" by (auto simp: load_def split: if_splits)
  with step cur that k sps show thesis
    by (cases "\<not> sp \<and> cur = word"; cases "bc \<le> i * WORD_BITS + k")
      (simp_all add: cas_weak_def Let_def del: push_bit_of_1 split: if_splits)
qed

lemma beyond_run:
  assumes pc: "bpcs s t = A_try start probe word" "i = probe_word s start probe" and ld: "word_at s i = Some word"
    and k: "find_free_bit word = Some k" "m_block_count (bma s) \<le> i * WORD_BITS + k"
    and bm: "fetch_and ((m_bitmap (bma s))[unat i := word OR push_bit (unat k) 1]) i (NOT (push_bit (unat k) 1)) = Some bm"
  shows "(busy t)\<^sup>*\<^sup>* s (bgoto t BIdle (set_bitmap bm s))"
proof -
  let ?s1 = "bgoto t (A_undo i k) (install i word k s)"
  have "bm_step t s BTau ?s1" by (rule claim_beyond [OF pc ld k])
  moreover have "bm_step t ?s1 (BNull t) (bgoto t BIdle (set_bitmap bm ?s1))"
    by (rule undo) (use bm in \<open>simp_all add: install_def set_bitmap_def\<close>)
  then have "(busy t)\<^sup>*\<^sup>* ?s1 (bgoto t BIdle (set_bitmap bm s))" using busy1 by (simp add: install_def)
  ultimately show ?thesis by (rule busyI) (use pc(1) in simp)
qed

lemma claim_run:
  assumes "claim_loop sps (m_block_count (bma s)) (m_bitmap (bma s)) i word = Some (r, bm)"
    and "bpcs s t = A_try start probe word" "i = probe_word s start probe" "word \<noteq> FULL"
  shows "(busy t)\<^sup>*\<^sup>* s (bgoto t (claim_pc start probe i r) (set_bitmap bm s))"
  using assms
proof (induction sps arbitrary: s word)
  case Nil
  then show ?case by (simp add: claim_loop.simps)
next
  case (Cons sp sps)
  note pc = Cons.prems(2) and i = Cons.prems(3)
  from Cons.prems(1,4) show ?case
  proof (cases rule: claim_loopE)
    case (beyond k)
    show ?thesis unfolding beyond(4) claim_pc_def
      using beyond_run [OF pc i _ beyond(1,3,5)] beyond(2) by (simp add: word_at_def)
  next
    case (claimed k)
    have "bm_step t s (BTake t (index_to_ptr (bma s) (i * WORD_BITS + k)))
        (bgoto t (A_hint i (i * WORD_BITS + k)) (install i word k s))"
      using claim [OF pc i _ claimed(1) refl claimed(3)] claimed(2) by (simp add: word_at_def)
    then show ?thesis unfolding claimed(4,5) claim_pc_def using pc by (simp add: busy1 install_def)
  next
    case (retry cur)
    then have rec: "claim_loop sps (m_block_count (bma s)) (m_bitmap (bma s)) i cur = Some (r, bm)"
      and cur: "word_at s i = Some cur" by (simp_all add: word_at_def)
    show ?thesis
    proof (cases "cur = FULL")
      case True
      then have r: "r = Next_word" "bm = m_bitmap (bma s)" using rec by (simp_all add: claim_loop.simps)
      have "bm_step t s BTau (bgoto t (A_probe start (probe + 1)) s)"
        by (rule cas_fail_full [OF pc]) (use i cur True in simp)
      then show ?thesis unfolding r claim_pc_def using pc by (simp add: busy1)
    next
      case False
      have "bm_step t s BTau (bgoto t (A_try start probe cur) s)"
        by (rule cas_fail_open [OF pc _ False]) (use i cur in simp)
      moreover have "(busy t)\<^sup>*\<^sup>* (bgoto t (A_try start probe cur) s) (bgoto t (claim_pc start probe i r) (set_bitmap bm s))"
        using Cons.IH [of "bgoto t (A_try start probe cur) s" cur] rec i False by (simp add: probe_word_def)
      ultimately show ?thesis by (rule busyI) (use pc in simp)
    qed
  qed
qed

lemma probe_loopE:
  assumes "probe_loop sps bc wc bm start probe = Some (r, wi, bm')"
  obtains (over) "\<not> probe < wc" "r = Return_null" "bm' = bm"
  | (full) "probe < wc" "load bm ((start + probe) mod wc) = Some FULL"
      "probe_loop sps bc wc bm start (probe + 1) = Some (r, wi, bm')"
  | (next_word) word bm1 where "probe < wc" "load bm ((start + probe) mod wc) = Some word" "word \<noteq> FULL"
      "claim_loop sps bc bm ((start + probe) mod wc) word = Some (Next_word, bm1)"
      "probe_loop sps bc wc bm1 start (probe + 1) = Some (r, wi, bm')"
  | (result) word where "probe < wc" "load bm ((start + probe) mod wc) = Some word" "word \<noteq> FULL"
      "claim_loop sps bc bm ((start + probe) mod wc) word = Some (r, bm')" "r \<noteq> Next_word" "wi = (start + probe) mod wc"
  using assms that by (subst (asm) probe_loop.simps) (auto simp: Let_def split: if_splits)

text \<open>The part of a run up to the point where a probed word that is not full has been dealt with.\<close>

lemma open_run:
  assumes "claim_loop sps (m_block_count (bma s)) (m_bitmap (bma s)) (probe_word s start probe) word = Some (r, bm)"
    and "bpcs s t = A_probe start probe" "probe < m_word_count (bma s)"
    and "word_at s (probe_word s start probe) = Some word" "word \<noteq> FULL"
  shows "(busy t)\<^sup>*\<^sup>* s (bgoto t (claim_pc start probe (probe_word s start probe) r) (set_bitmap bm s))"
proof -
  let ?s1 = "bgoto t (A_try start probe word) s"
  have "bm_step t s BTau ?s1" by (rule probe_open [OF assms(2-5)])
  moreover have "(busy t)\<^sup>*\<^sup>* ?s1 (bgoto t (claim_pc start probe (probe_word s start probe) r) (set_bitmap bm s))"
    using claim_run [of sps ?s1 "probe_word s start probe" word r bm t start probe] assms(1,5) by (simp add: probe_word_def)
  ultimately show ?thesis by (rule busyI) (use assms(2) in simp)
qed

lemma probe_run:
  assumes "probe_loop sps bc wc bm start probe = Some (r, wi, bm')" "bpcs s t = A_probe start probe"
    and "bc = m_block_count (bma s)" "wc = m_word_count (bma s)" "bm = m_bitmap (bma s)"
  shows "(busy t)\<^sup>*\<^sup>* s (bgoto t (case r of Claimed g \<Rightarrow> A_hint wi g | _ \<Rightarrow> BIdle) (set_bitmap bm' s))"
  using assms
proof (induction sps bc wc bm start probe arbitrary: s rule: probe_loop.induct)
  case (1 sps bc wc bm start probe)
  let ?goal = "\<lambda>s0. (busy t)\<^sup>*\<^sup>* s0 (bgoto t (case r of Claimed g \<Rightarrow> A_hint wi g | _ \<Rightarrow> BIdle) (set_bitmap bm' s))"
  let ?s1 = "bgoto t (A_probe start (probe + 1)) s"
  have i: "probe_word s start probe = (start + probe) mod wc" using 1(6) by (simp add: probe_word_def)
  have at: "word_at s = load bm" using 1(7) by (simp add: word_at_def fun_eq_iff)
  from 1(3) show ?case
  proof (cases rule: probe_loopE)
    case over
    have "bm_step t s (BNull t) (bgoto t BIdle s)" by (rule probe_end [OF 1(4)]) (use over 1(6) in simp)
    then show ?thesis using over 1(4,7) by (simp add: busy1)
  next
    case full
    have "bm_step t s BTau ?s1" by (rule probe_full [OF 1(4)]) (use full at i 1(6) in simp_all)
    moreover have "?goal ?s1" using 1(1) [OF full(1) refl full(2) refl full(3), of ?s1] 1(5-7) by simp
    ultimately show ?thesis by (rule busyI) (use 1(4) in simp)
  next
    case (next_word word bm1)
    let ?s2 = "bgoto t (A_probe start (probe + 1)) (set_bitmap bm1 s)"
    have "(busy t)\<^sup>*\<^sup>* s ?s2"
      using open_run [of sps s start probe word Next_word bm1 t] next_word 1(4-7) i at by (simp add: claim_pc_def)
    moreover have "?goal ?s2"
      using 1(2) [OF next_word(1) refl next_word(2,3,4) refl refl next_word(5), of ?s2] 1(5-7) by simp
    ultimately show ?thesis by (rule rtranclp_trans)
  next
    case (result word)
    have "(busy t)\<^sup>*\<^sup>* s (bgoto t (claim_pc start probe wi r) (set_bitmap bm' s))"
      using open_run [of sps s start probe word r bm' t] result 1(4-7) i at by simp
    then show ?thesis using result(5) by (cases r) (simp_all add: claim_pc_def)
  qed
qed

text \<open>A whole call of \<^verbatim>\<open>alloc\<close> or \<^verbatim>\<open>dealloc\<close>, from its first access on.\<close>

lemma alloc_run:
  assumes a: "alloc_with sps (bma s) = Some (p, b')" and t: "bpcs s t = BIdle" and nn: "bm_inv s"
  shows "(busy t)\<^sup>*\<^sup>* (bgoto t A_load s) (s\<lparr>bma := b', bowned := (bowned s)(t := bowned s t \<union> ({p} - {nullptr}))\<rparr>)"
proof -
  let ?b = "bma s" and ?s0 = "bgoto t A_load s" and ?s1 = "bgoto t (A_probe (m_hint (bma s)) 0) s"
  have s1: "(busy t)\<^sup>*\<^sup>* ?s0 ?s1" using busy1 [OF load_hint [of ?s0 t]] by simp
  from a obtain r wi bm where
    pr: "probe_loop sps (m_block_count ?b) (m_word_count ?b) (m_bitmap ?b) (m_hint ?b) 0 = Some (r, wi, bm)"
    by (auto simp: alloc_with_def)
  let ?s2 = "bgoto t (case r of Claimed g \<Rightarrow> A_hint wi g | _ \<Rightarrow> BIdle) (set_bitmap bm s)"
  have s2: "(busy t)\<^sup>*\<^sup>* ?s0 ?s2"
    using probe_run [OF pr, of ?s1 t] by (simp add: rtranclp_trans [OF s1])
  show ?thesis
  proof (cases r)
    case (Claimed g)
    then have p: "p = index_to_ptr ?b g" "b' = ?b\<lparr>m_bitmap := bm, m_hint := wi\<rparr>" using a pr by (simp_all add: alloc_with_def)
    have "bm_inv ?s0" by (rule move_inv [OF _ nn]) (use call_alloc [OF t] in \<open>auto simp: bm_move_def\<close>)
    then have i2: "bm_inv ?s2" by (rule busy_inv [OF s2])
    then have "g < m_block_count ?b" using inv_pc [OF i2 refl, of t] Claimed by (simp add: set_bitmap_def)
    then have "p \<noteq> nullptr" unfolding p(1) index_to_ptr_unat
      using bm_block_nonnull nn by (simp add: bm_inv_def word_less_nat_alt)
    moreover have "bm_step t ?s2 BTau (bgoto t BIdle (bown t (insert (index_to_ptr (bma ?s2) g) (bowned ?s2 t)) (set_hint wi ?s2)))"
      by (rule store_hint) (use Claimed in simp)
    from busy1 [OF this] have "(busy t)\<^sup>*\<^sup>* ?s2 (s\<lparr>bma := b', bowned := (bowned s)(t := insert p (bowned s t))\<rparr>)"
      using Claimed t p by (simp add: state_defs index_to_ptr_def fun_upd_idem)
    ultimately show ?thesis using rtranclp_trans [OF s2] by simp
  qed (use a pr s2 t in \<open>simp_all add: alloc_with_def state_defs fun_upd_idem\<close>)
qed

lemma dealloc_run:
  assumes d: "dealloc (bma s) p = Some b'" and t: "bpcs s t = BIdle"
  shows "(busy t)\<^sup>*\<^sup>* (bgoto t (D_clear p) (bown t (bowned s t - {p}) s))
           (s\<lparr>bma := b', bowned := (bowned s)(t := bowned s t - {p})\<rparr>)"
proof -
  let ?b = "bma s" and ?s1 = "bgoto t (D_clear p) (bown t (bowned s t - {p}) s)"
  obtain x bm where x: "ptr_to_index ?b p = Some x"
    "fetch_and (m_bitmap ?b) (x div WORD_BITS) (NOT (push_bit (unat (x mod WORD_BITS)) 1)) = Some bm"
    "b' = ?b\<lparr>m_bitmap := bm, m_hint := x div WORD_BITS\<rparr>"
    using d by (auto simp: dealloc_def Let_def simp del: push_bit_of_1)
  let ?s2 = "bgoto t (D_hint (x div WORD_BITS)) (set_bitmap bm ?s1)"
  have "bm_step t ?s1 (BGive t p) ?s2"
    by (rule clear) (use x(1,2) in \<open>simp_all add: bown_def\<close>)
  moreover have "bm_step t ?s2 BTau (bgoto t BIdle (set_hint (x div WORD_BITS) ?s2))" by (rule store_hint_dealloc) simp
  ultimately have "(busy t)\<^sup>*\<^sup>* ?s1 (bgoto t BIdle (set_hint (x div WORD_BITS) ?s2))"
    using busyI [OF _ busy1] by simp
  moreover have "bgoto t BIdle (set_hint (x div WORD_BITS) ?s2) = s\<lparr>bma := b', bowned := (bowned s)(t := bowned s t - {p})\<rparr>"
    using t x(3) by (simp add: state_defs fun_upd_idem)
  ultimately show ?thesis by simp
qed

text \<open>
  A thread that runs alone has no choice, except that a weak exchange may fail spuriously and leave the
  state as it is. \<open>busy_next\<close> is the other successor; so all complete runs of a thread alone from a
  state end in the same state.
\<close>

definition try_next :: "tid \<Rightarrow> bm_state \<Rightarrow> u64 \<Rightarrow> u64 \<Rightarrow> u64 \<Rightarrow> bm_state" where
  "try_next t s start probe word =
     (let i = probe_word s start probe; k = the (find_free_bit word); g = i * WORD_BITS + k in
      if word_at s i = Some FULL then bgoto t (A_probe start (probe + 1)) s
      else if word_at s i \<noteq> Some word then bgoto t (A_try start probe (the (word_at s i))) s
      else if m_block_count (bma s) \<le> g then bgoto t (A_undo i k) (install i word k s)
      else bgoto t (A_hint i g) (install i word k s))"

definition busy_next :: "tid \<Rightarrow> bm_state \<Rightarrow> bm_state" where
  "busy_next t s = (case bpcs s t of
       BIdle \<Rightarrow> s
     | A_load \<Rightarrow> bgoto t (A_probe (m_hint (bma s)) 0) s
     | A_probe start probe \<Rightarrow>
         (if \<not> probe < m_word_count (bma s) then bgoto t BIdle s
          else if word_at s (probe_word s start probe) = Some FULL then bgoto t (A_probe start (probe + 1)) s
          else bgoto t (A_try start probe (the (word_at s (probe_word s start probe)))) s)
     | A_try start probe word \<Rightarrow> try_next t s start probe word
     | A_undo i k \<Rightarrow> bgoto t BIdle (set_bitmap (the (fetch_and (m_bitmap (bma s)) i (NOT (push_bit (unat k) 1)))) s)
     | A_hint i g \<Rightarrow> bgoto t BIdle (bown t (insert (index_to_ptr (bma s) g) (bowned s t)) (set_hint i s))
     | D_clear p \<Rightarrow> (let index = the (ptr_to_index (bma s) p) in
         bgoto t (D_hint (index div WORD_BITS)) (set_bitmap (the (fetch_and (m_bitmap (bma s)) (index div WORD_BITS)
           (NOT (push_bit (unat (index mod WORD_BITS)) 1)))) s))
     | D_hint i \<Rightarrow> bgoto t BIdle (set_hint i s))"

lemma bgoto_same: "bpcs s t = l \<Longrightarrow> bgoto t l s = s"
  by (auto simp: bgoto_def)

lemma step_next: "bm_step t s e s' \<Longrightarrow> bpcs s t \<noteq> BIdle \<Longrightarrow> s' = s \<or> s' = busy_next t s"
proof (induction rule: bm_step.induct)
  case (claim s t start probe word i free_bit g)
  then have "word \<noteq> FULL" using find_free_bit_FULL by auto
  with claim show ?case by (simp add: busy_next_def try_next_def Let_def)
next
  case (claim_beyond s t start probe word i free_bit)
  then have "word \<noteq> FULL" using find_free_bit_FULL by auto
  with claim_beyond show ?case by (simp add: busy_next_def try_next_def Let_def)
next
  case (cas_fail_open s t start probe word word')
  then show ?case by (cases "word' = word") (simp_all add: bgoto_same busy_next_def try_next_def Let_def)
qed (simp_all add: busy_next_def try_next_def Let_def del: push_bit_of_1)

lemma busy_unique: "busy t s a \<Longrightarrow> busy t s b \<Longrightarrow> a = b \<or> a = s \<or> b = s"
  unfolding busy_def bm_move_def using step_next by blast

lemma busy_result:
  assumes "(busy t)\<^sup>*\<^sup>* s a" "bpcs a t = BIdle" "busy t s b"
  shows "(busy t)\<^sup>*\<^sup>* b a"
  using assms
proof (induction rule: converse_rtranclp_induct)
  case base
  then show ?case by (simp add: busy_def)
next
  case (step s s1)
  then consider "s1 = b" | "s1 = s" | "b = s" using busy_unique by blast
  then show ?case using step by cases (auto intro: converse_rtranclp_into_rtranclp [of "busy t"])
qed

lemma busy_end_unique:
  assumes "(busy t)\<^sup>*\<^sup>* s b" "bpcs b t = BIdle" "(busy t)\<^sup>*\<^sup>* s a" "bpcs a t = BIdle"
  shows "a = b"
proof -
  have "(busy t)\<^sup>*\<^sup>* b a" using assms(1,3)
    by (induction rule: rtranclp_induct) (auto intro: busy_result [OF _ assms(4)])
  then show ?thesis using assms(2) by (cases rule: converse_rtranclpE) (auto simp: busy_def)
qed

lemma busy_ends:
  assumes "(busy t)\<^sup>*\<^sup>* s s1" "bpcs s1 t = BIdle"
  shows "(busy t)\<^sup>*\<^sup>* s s' \<and> bpcs s' t = BIdle \<longleftrightarrow> s' = s1"
  using assms busy_end_unique by blast

lemma bm_move_ticks: "(bm_move t)\<^sup>*\<^sup>* s s' \<Longrightarrow> bm_tick\<^sup>*\<^sup>* s s'"
  using mono_rtranclp [of "bm_move t" bm_tick] by (auto simp: bm_tick_def)

text \<open>How many more state-changing steps a thread can take alone inside its call.\<close>

fun bm_rank :: "bm_state \<Rightarrow> bpc \<Rightarrow> nat" where
  "bm_rank s A_load = 3 * unat (m_word_count (bma s)) + 3"
| "bm_rank s (A_probe start probe) = 3 * (unat (m_word_count (bma s)) - unat probe) + 2"
| "bm_rank s (A_try start probe word) = 3 * (unat (m_word_count (bma s)) - unat probe)
     + (if word_at s (probe_word s start probe) = Some word then 0 else 1)"
| "bm_rank s (D_clear p) = 2"
| "bm_rank s BIdle = 0"
| "bm_rank s _ = 1"

definition solo :: "tid \<Rightarrow> bm_state \<Rightarrow> bm_state \<Rightarrow> bool" where
  "solo t s s' = (busy t s s' \<and> s' \<noteq> s)"

lemma probe_rank:
  assumes "probe < m_word_count (bma s)"
  shows "3 * (unat (m_word_count (bma s)) - unat probe) = 3 * (unat (m_word_count (bma s)) - unat (probe + 1)) + 3"
  using assms unat_plus1_64 [OF assms] by (simp add: word_less_nat_alt)

lemma step_rank:
  assumes "bm_step t s e s'" "bpcs s t \<noteq> BIdle" "s' \<noteq> s" "bm_inv s"
  shows "bm_rank s' (bpcs s' t) < bm_rank s (bpcs s t)"
  using assms
proof (induction rule: bm_step.induct)
  case (probe_full s t start probe)
  then show ?case using probe_rank [of probe s] by simp
next
  case (probe_open s t start probe word)
  then show ?case by (simp add: word_at_def probe_word_def)
next
  case (claim s t start probe word i free_bit g)
  then show ?case using inv_pc [OF claim.prems(3) claim.hyps(1)] probe_rank [of probe s] by simp
next
  case (claim_beyond s t start probe word i free_bit)
  then show ?case using inv_pc [OF claim_beyond.prems(3) claim_beyond.hyps(1)] probe_rank [of probe s] by simp
next
  case (cas_fail_full s t start probe word)
  then show ?case using inv_pc [OF cas_fail_full.prems(3) cas_fail_full.hyps(1)] probe_rank [of probe s] by simp
next
  case (cas_fail_open s t start probe word word')
  then show ?case by (cases "word' = word") (simp_all add: bgoto_same word_at_def probe_word_def)
qed simp_all

lemma solo_run_rank:
  "(solo t ^^ n) s s' \<Longrightarrow> bm_inv s \<Longrightarrow> bm_inv s' \<and> n + bm_rank s' (bpcs s' t) \<le> bm_rank s (bpcs s t)"
proof (induction n arbitrary: s')
  case (Suc n)
  then obtain s1 where s1: "(solo t ^^ n) s s1" "solo t s1 s'" by auto
  then obtain e where e: "bm_step t s1 e s'" "bpcs s1 t \<noteq> BIdle" "s' \<noteq> s1" by (auto simp: solo_def busy_def bm_move_def)
  have IH: "bm_inv s1" "n + bm_rank s1 (bpcs s1 t) \<le> bm_rank s (bpcs s t)" using Suc.IH [OF s1(1) Suc.prems(2)] by auto
  have "bm_inv s'" using move_inv [OF _ IH(1)] e(1) by (auto simp: bm_move_def)
  with IH(2) step_rank [OF e IH(1)] show ?case by simp
qed simp

lemma bm_rank_le: "bm_rank s l \<le> 3 * unat (m_word_count (bma s)) + 3"
  by (cases l) auto

section \<open>An execution\<close>

text \<open>Two threads on a pool of 65 blocks. Thread 0 allocates block 0; thread 1 probes the same word with
  the value it loaded before that and is about to exchange it.\<close>

definition bex0 :: bm_state where
  "bex0 = \<lparr>bma = demo_bm\<lparr>m_bitmap := [0, 0], m_hint := 0\<rparr>, bpcs = (\<lambda>_. BIdle), bowned = (\<lambda>_. {})\<rparr>"

definition bex1 :: bm_state where
  "bex1 = bex0\<lparr>bpcs := (\<lambda>_. BIdle)(1 := A_try 0 0 0)\<rparr>"

definition bex2 :: bm_state where
  "bex2 = bex1\<lparr>bma := demo_bm\<lparr>m_bitmap := [1, 0], m_hint := 0\<rparr>, bowned := (\<lambda>_. {})(0 := {4096})\<rparr>"

lemmas bex_defs = bex0_def bex1_def bex2_def demo_bm_def

lemma bex0_reach: "reach bm_init bm_tick bex0"
proof (rule reach_init)
  have "\<not> used [0, 0] g" if "g < 128" for g
  proof -
    have "g div 64 = 0 \<or> g div 64 = 1" using that by linarith
    then show ?thesis by (auto simp: used_def)
  qed
  then show "bm_init bex0" by (simp add: bm_init_def bm_invar_def bex_defs array_fits_def)
qed

lemma bex1_reach: "reach bm_init bm_tick bex1"
proof -
  let ?a = "bgoto 1 A_load bex0"
  let ?b = "bgoto 1 (A_probe 0 0) ?a"
  let ?c = "bgoto 1 (A_try 0 0 0) ?b"
  have "bm_step 1 bex0 BTau ?a" by (rule call_alloc) (simp add: bex_defs)
  moreover have "bm_step 1 ?a BTau ?b" using load_hint [of ?a 1] by (simp add: bex_defs)
  moreover have "bm_step 1 ?b BTau ?c"
    by (rule probe_open) (simp_all add: bex_defs word_at_def probe_word_def load_def FULL_def)
  ultimately have "reach bm_init bm_tick ?c" using bex0_reach by (meson bm_tick_def bm_move_def reach_step)
  moreover have "?c = bex1" by (simp add: bex1_def bex0_def bgoto_def)
  ultimately show ?thesis by simp
qed

lemma bex2_reach: "reach bm_init bm_tick bex2"
proof -
  have inv: "bm_inv bex1" by (rule bc.reach_invariant [OF bex1_reach])
  have "scan 65 [0, 0] 0 = Some 0"
    by (simp add: scan_def first_open_def probe_order_Cons low_zero_0 FULL_def)
  moreover have "bm_invar (bma bex1)" using inv by (simp add: bm_inv_def)
  ultimately have "alloc_with [False] (bma bex1) = Some (4096, demo_bm\<lparr>m_bitmap := [1, 0], m_hint := 0\<rparr>)"
    using alloc_scan [of "bma bex1" 0 "[]"]
    by (simp add: bex_defs set_used_def bm_block_def block_at_def)
  from alloc_run [OF this, of 0] inv have "(busy 0)\<^sup>*\<^sup>* (bgoto 0 A_load bex1) bex2" by (simp add: bex1_def bex0_def bex2_def)
  moreover have "bm_tick bex1 (bgoto 0 A_load bex1)"
    using call_alloc [of bex1 0] by (auto simp: bm_tick_def bm_move_def bex1_def)
  then have "reach bm_init bm_tick (bgoto 0 A_load bex1)" by (rule reach_step [OF bex1_reach])
  ultimately show ?thesis using bc.reach_steps [OF bm_move_ticks [OF busy_moves]] by blast
qed

section \<open>Enabled steps\<close>

lemma moved:
  "bm_step t s e (bgoto t l s0) \<Longrightarrow> bpcs s t = k \<Longrightarrow> l \<noteq> k \<Longrightarrow> \<exists>e s'. bm_step t s e s' \<and> bpcs s' t \<noteq> bpcs s t"
  by (intro exI [of _ e] exI [of _ "bgoto t l s0"]) simp

lemma probe_sees:
  assumes "bm_inv s" "probe < m_word_count (bma s)"
  obtains w where "word_at s (probe_word s start probe) = Some w"
proof -
  have "m_word_count (bma s) \<noteq> 0" using assms(2) by auto
  then show thesis using probe_word_less(2) [OF assms(1), of start probe] that by (auto simp: word_at_def load_def)
qed

lemma probe_moves:
  assumes inv: "bm_inv s" and pc: "bpcs s t = A_probe start probe"
  shows "\<exists>e s'. bm_step t s e s' \<and> bpcs s' t \<noteq> bpcs s t"
proof (cases "probe < m_word_count (bma s)")
  case True
  obtain w where w: "word_at s (probe_word s start probe) = Some w" by (rule probe_sees [OF inv True])
  show ?thesis
  proof (cases "w = FULL")
    case full: True
    show ?thesis by (rule moved [OF probe_full [OF pc True] pc]) (use w full in simp_all)
  next
    case False
    show ?thesis by (rule moved [OF probe_open [OF pc True w False] pc]) simp
  qed
next
  case False
  show ?thesis by (rule moved [OF probe_end [OF pc False] pc]) simp
qed

lemma try_moves:
  assumes inv: "bm_inv s" and pc: "bpcs s t = A_try start probe word"
  shows "\<exists>e s'. bm_step t s e s' \<and> bpcs s' t \<noteq> bpcs s t"
proof -
  let ?i = "probe_word s start probe"
  have ok: "probe < m_word_count (bma s)" "word \<noteq> FULL" using inv_pc [OF inv pc] by auto
  obtain w where w: "word_at s ?i = Some w" by (rule probe_sees [OF inv ok(1)])
  obtain k where k: "find_free_bit word = Some k" using find_free_bit_low_zero [OF ok(2)] by blast
  consider "w = FULL" | "w \<noteq> FULL" "w \<noteq> word" | "w = word" "m_block_count (bma s) \<le> ?i * WORD_BITS + k"
    | "w = word" "\<not> m_block_count (bma s) \<le> ?i * WORD_BITS + k" by blast
  then show ?thesis
  proof cases
    case 1
    show ?thesis by (rule moved [OF cas_fail_full [OF pc] pc]) (use w 1 in simp_all)
  next
    case 2
    show ?thesis by (rule moved [OF cas_fail_open [OF pc w 2(1)] pc]) (use 2 in simp)
  next
    case 3
    show ?thesis by (rule moved [OF claim_beyond [OF pc refl w [unfolded 3(1)] k 3(2)] pc]) simp
  next
    case 4
    show ?thesis by (rule moved [OF claim [OF pc refl w [unfolded 4(1)] k refl 4(2)] pc]) simp
  qed
qed

lemma undo_moves:
  assumes inv: "bm_inv s" and pc: "bpcs s t = A_undo i k"
  shows "\<exists>e s'. bm_step t s e s' \<and> bpcs s' t \<noteq> bpcs s t"
proof -
  have "unat i < length (m_bitmap (bma s))" "unat k < 64"
    using inv inv_pc [OF inv pc] by (simp_all add: bm_inv_def bm_invar_def word_less_nat_alt)
  then obtain bm where "fetch_and (m_bitmap (bma s)) i (NOT (push_bit (unat k) 1)) = Some bm"
    using clear_bit_of_word by metis
  from moved [OF undo [OF pc this] pc] show ?thesis by simp
qed

lemma clear_moves:
  assumes inv: "bm_inv s" and pc: "bpcs s t = D_clear p"
  shows "\<exists>e s'. bm_step t s e s' \<and> bpcs s' t \<noteq> bpcs s t"
proof -
  have b: "bm_invar (bma s)" and p: "p \<in> bm_blocks (bma s)" using inv inv_pc [OF inv pc] by (simp_all add: bm_inv_def)
  obtain n: "p = bm_block (bma s) (num (bma s) p)" "num (bma s) p < unat (m_block_count (bma s))"
    by (rule block_numE [OF b p])
  have "dealloc (bma s) p \<noteq> None" using dealloc_block [OF b n(2)] n(1) by simp
  then obtain x bm where x: "ptr_to_index (bma s) p = Some x"
    "fetch_and (m_bitmap (bma s)) (x div WORD_BITS) (NOT (push_bit (unat (x mod WORD_BITS)) 1)) = Some bm"
    by (auto simp: dealloc_def Let_def simp del: push_bit_of_1)
  from moved [OF clear [OF pc x] pc] show ?thesis by simp
qed

lemma busy_moves_on:
  assumes inv: "bm_inv s" and t: "bpcs s t \<noteq> BIdle"
  shows "\<exists>e s'. bm_step t s e s' \<and> bpcs s' t \<noteq> bpcs s t"
proof (cases "bpcs s t")
  case A_load
  from moved [OF load_hint [OF A_load] A_load] show ?thesis by simp
next
  case (A_hint i g)
  from moved [OF store_hint [OF A_hint] A_hint] show ?thesis by simp
next
  case (D_hint i)
  from moved [OF store_hint_dealloc [OF D_hint] D_hint] show ?thesis by simp
qed (use t probe_moves [OF inv] try_moves [OF inv] undo_moves [OF inv] clear_moves [OF inv] in simp_all)

section \<open>Properties\<close>

text \<open>C4. Exclusive ownership under concurrency: in every state that any interleaving of
  \<^verbatim>\<open>alloc\<close> and \<^verbatim>\<open>dealloc\<close> calls reaches, no block is in the possession of two threads, and the
  blocks in somebody's possession are exactly the blocks of the pool whose bit is set: no block is handed
  out twice and none is lost, although a call may set a bit beyond the pool and clear it again.\<close>

theorem bitmap_conc_exclusive:
  assumes "reach bm_init bm_tick s"
  shows "(\<forall>t u. t \<noteq> u \<longrightarrow> possession s t \<inter> possession s u = {})
     \<and> (\<Union>t. possession s t) = bm_blocks (bma s) - bm_free (bma s)"
proof -
  have inv: "bm_inv s" by (rule bc.reach_invariant [OF assms])
  show ?thesis by (intro conjI allI impI possession_partition [OF inv])
qed

theorem bitmap_conc_exclusive_witness:
  "possession bex2 0 \<inter> possession bex2 1 = {} \<and> 4096 \<in> bm_blocks (bma bex2) - bm_free (bma bex2)"
proof -
  have "4096 \<in> possession bex2 0" by (simp add: possession_def bex2_def bex1_def)
  then show ?thesis using bitmap_conc_exclusive [OF bex2_reach] by (metis UN_I UNIV_I zero_neq_one)
qed

text \<open>C3. Linearizability of \<^verbatim>\<open>BitmapAllocator\<close> (a step-by-step simulation by an abstract set of free
  blocks): every atomic step from a reachable state leaves the set of free blocks alone, or is the
  successful exchange of an \<^verbatim>\<open>alloc\<close>, which removes exactly the block that call will return, or the
  \<^verbatim>\<open>fetch_and\<close> of a \<^verbatim>\<open>dealloc\<close>, which adds exactly the block given back, that was not free. The
  blocks of the pool stay the same.\<close>

theorem bitmap_conc_linearizable:
  assumes "reach bm_init bm_tick s" "bm_step t s e s'"
  shows "free_step (bm_free (bma s)) e (bm_free (bma s')) \<and> bm_blocks (bma s') = bm_blocks (bma s)"
proof -
  have "good_step s e s'" by (rule step_good [OF assms(2) bc.reach_invariant [OF assms(1)]])
  moreover have "bm_blocks (bma s') = bm_blocks (bma s)"
    using assms(2) by (cases rule: bm_step.cases) (simp_all add: state_defs bm_blocks_def bm_block_def)
  ultimately show ?thesis by (simp add: good_step_def)
qed

theorem bitmap_conc_linearizable_witness:
  "free_step (bm_free (bma bex1)) (BTake 1 4096) (bm_free (bma (bgoto 1 (A_hint 0 0) (install 0 0 0 bex1))))"
proof -
  have k: "find_free_bit 0 = Some 0" using find_free_bit_low_zero [of 0] by (simp add: low_zero_0 FULL_def)
  have "bm_step 1 bex1 (BTake 1 (index_to_ptr (bma bex1) 0)) (bgoto 1 (A_hint 0 0) (install 0 0 0 bex1))"
    by (rule claim [where start = 0 and probe = 0, OF _ _ _ k])
      (simp_all add: bex_defs word_at_def load_def probe_word_def WORD_BITS_def)
  moreover have "index_to_ptr (bma bex1) 0 = 4096" by (simp add: bex_defs index_to_ptr_def)
  ultimately show ?thesis using bitmap_conc_linearizable [OF bex1_reach] by metis
qed

text \<open>C10. No thread faults or blocks inside \<^verbatim>\<open>alloc\<close> or \<^verbatim>\<open>dealloc\<close>: from every reachable state each
  thread inside a call has a step that moves it on. In particular every bitmap access is inside the array
  and \<^verbatim>\<open>find_free_bit\<close> is never applied to a full word.\<close>

theorem bitmap_conc_never_stuck:
  assumes "reach bm_init bm_tick s" "bpcs s t \<noteq> BIdle"
  shows "\<exists>e s'. bm_step t s e s' \<and> bpcs s' t \<noteq> bpcs s t"
  by (rule busy_moves_on [OF bc.reach_invariant [OF assms(1)] assms(2)])

theorem bitmap_conc_never_stuck_witness: "\<exists>e s'. bm_step 1 bex2 e s' \<and> bpcs s' 1 \<noteq> A_try 0 0 0"
  using bitmap_conc_never_stuck [OF bex2_reach, of 1] by (simp add: bex2_def bex1_def)

text \<open>C11. The interleaved model and the sequential one agree on calls that run alone. From every
  reachable state with the calling thread outside a call, once that thread has called \<^verbatim>\<open>alloc\<close> (or
  \<^verbatim>\<open>dealloc\<close> of a block it owns) and takes its steps undisturbed, the states in which the call has
  returned are exactly one: the allocator is as the sequential function computes it, and the thread owns the
  returned block in addition (or the given block no more). Such a state is reached, and no run,
  whatever spurious failures it has, ends in another one.\<close>

theorem bitmap_conc_solo_runs:
  assumes "reach bm_init bm_tick s" "bpcs s t = BIdle"
  shows "(\<exists>p b'. alloc (bma s) = Some (p, b') \<and> (\<forall>s'.
           (busy t)\<^sup>*\<^sup>* (bgoto t A_load s) s' \<and> bpcs s' t = BIdle
             \<longleftrightarrow> s' = s\<lparr>bma := b', bowned := (bowned s)(t := bowned s t \<union> ({p} - {nullptr}))\<rparr>))
     \<and> (\<forall>p \<in> bowned s t. \<exists>b'. dealloc (bma s) p = Some b' \<and> (\<forall>s'.
           (busy t)\<^sup>*\<^sup>* (bgoto t (D_clear p) (bown t (bowned s t - {p}) s)) s' \<and> bpcs s' t = BIdle
             \<longleftrightarrow> s' = s\<lparr>bma := b', bowned := (bowned s)(t := bowned s t - {p})\<rparr>))"
proof -
  have inv: "bm_inv s" by (rule bc.reach_invariant [OF assms(1)])
  then have b: "bm_invar (bma s)" and o: "bowned s t \<subseteq> bm_blocks (bma s)" by (simp_all add: bm_inv_def)
  obtain p b' where a: "alloc (bma s) = Some (p, b')"
    using alloc_scan [OF b, of 0 "[]"] unfolding alloc_def
    by (cases "scan (unat (m_block_count (bma s))) (m_bitmap (bma s)) (unat (m_hint (bma s)))") auto
  have "\<exists>b'. dealloc (bma s) p = Some b'" if "p \<in> bowned s t" for p
    using that o dealloc_block [OF b] by (auto simp: bm_blocks_def)
  moreover note busy_ends [OF dealloc_run [OF _ assms(2)]]
  ultimately show ?thesis
    using a busy_ends [OF alloc_run [OF a [unfolded alloc_def] assms(2) inv]] assms(2) by simp blast
qed

theorem bitmap_conc_solo_runs_witness:
  "(\<exists>p b'. alloc (bma bex2) = Some (p, b'))
   \<and> (\<exists>b'. dealloc (bma bex2) 4096 = Some b' \<and>
       (\<forall>s'. (busy 0)\<^sup>*\<^sup>* (bgoto 0 (D_clear 4096) (bown 0 {} bex2)) s' \<and> bpcs s' 0 = BIdle
          \<longleftrightarrow> s' = bex2\<lparr>bma := b', bowned := (\<lambda>_. {})\<rparr>))"
proof -
  have 0: "bpcs bex2 0 = BIdle" "bowned bex2 0 = {4096}" "(bowned bex2)(0 := {}) = (\<lambda>_. {})"
    by (simp_all add: bex2_def bex1_def fun_eq_iff)
  show ?thesis using bitmap_conc_solo_runs [OF bex2_reach 0(1)] by (simp add: 0(2,3)) blast
qed

text \<open>C12. Obstruction freedom with a bound: from any reachable state, also in the middle of a call and
  with a stale view of the bitmap, a thread that runs alone can take at most
  \<open>3 * word_count + 3\<close> steps that change the state (a spurious failure does not), and as long as it is
  inside its call it has such a step; so it returns within that many.\<close>

theorem bitmap_conc_obstruction_free:
  assumes "reach bm_init bm_tick s" "(solo t ^^ n) s s'"
  shows "n \<le> 3 * unat (m_word_count (bma s)) + 3 \<and> (bpcs s' t = BIdle \<longleftrightarrow> (\<nexists>s''. solo t s' s''))"
proof -
  note run = solo_run_rank [OF assms(2) bc.reach_invariant [OF assms(1)]]
  have "\<exists>s''. solo t s' s''" if t: "bpcs s' t \<noteq> BIdle"
  proof -
    obtain e s'' where "bm_step t s' e s''" "bpcs s'' t \<noteq> bpcs s' t" using busy_moves_on [OF _ t] run by blast
    then show ?thesis using t by (auto simp: solo_def busy_def bm_move_def)
  qed
  moreover have "\<not> solo t s' s''" if "bpcs s' t = BIdle" for s'' using that by (simp add: solo_def busy_def)
  ultimately show ?thesis using run bm_rank_le [of s "bpcs s t"] by (meson add_leE order_trans)
qed

theorem bitmap_conc_obstruction_free_witness:
  "(solo 1 ^^ 1) bex2 (bgoto 1 (A_try 0 0 1) bex2)
   \<and> 1 \<le> 3 * unat (m_word_count (bma bex2)) + 3 \<and> (\<exists>s''. solo 1 (bgoto 1 (A_try 0 0 1) bex2) s'')"
proof -
  have "bm_step 1 bex2 BTau (bgoto 1 (A_try 0 0 1) bex2)"
    by (rule cas_fail_open [where word = 0])
      (simp_all add: bex_defs word_at_def probe_word_def load_def FULL_def)
  moreover have pc: "bpcs bex2 1 = A_try 0 0 0" by (simp add: bex_defs)
  moreover have "bgoto 1 (A_try 0 0 1) bex2 \<noteq> bex2" by (metis bgoto_bgoto(5) bpc.inject(2) pc zero_neq_one)
  ultimately have "solo 1 bex2 (bgoto 1 (A_try 0 0 1) bex2)" by (auto simp: solo_def busy_def bm_move_def)
  then have run: "(solo 1 ^^ 1) bex2 (bgoto 1 (A_try 0 0 1) bex2)" by (simp only: relpowp_1)
  from bitmap_conc_obstruction_free [OF bex2_reach run] run show ?thesis by simp
qed

end
