(* ===== verification/TL_Bitmap_Conc.thy ===== *)
theory TL_Bitmap_Conc
  imports TL_Bitmap Bitmap_Conc
begin

text \<open>
  Interleaved executions of \<^verbatim>\<open>ThreadLocalBitmapAllocator::alloc\<close> and \<^verbatim>\<open>dealloc\<close>. Inside a region the code is the
  code of \<^verbatim>\<open>BitmapAllocator\<close>, so a thread at work in a region takes the steps of \<open>Bitmap_Conc\<close> there; around them are
  the choice of the region by \<^verbatim>\<open>assign_region\<close> (one \<^verbatim>\<open>fetch_add\<close>) and the search of \<^verbatim>\<open>dealloc\<close> for the region of
  the pointer, which reads only fields that never change. With the parameter \<open>x\<close> a thread may hand a block to
  another thread, which can then free it.

  One field differs: \<^verbatim>\<open>Region::hint\<close> is a plain \<^verbatim>\<open>size_t\<close>, so two threads must not access it at the same time.
\<close>

section \<open>The transition system\<close>

datatype tbpc = T_idle | T_assign | T_in nat bpc

record tb_conc =
  tca :: ThreadLocalBitmapAllocator
  tci :: "tid \<Rightarrow> u64"
  tcp :: "tid \<Rightarrow> tbpc"
  tco :: "tid \<Rightarrow> addr set"

definition reg :: "ThreadLocalBitmapAllocator \<Rightarrow> nat \<Rightarrow> BitmapAllocator" where
  "reg a j = as_bitmap (tb_block_size a) (m_regions a ! j)"

text \<open>A region as a shared bitmap allocator: where each thread stands in it and which of its blocks it owns.\<close>

fun region_pc :: "nat \<Rightarrow> tbpc \<Rightarrow> bpc" where
  "region_pc j (T_in k l) = (if k = j then l else BIdle)"
| "region_pc j _ = BIdle"

definition view :: "tb_conc \<Rightarrow> nat \<Rightarrow> bm_state" where
  "view s j = \<lparr>bma = reg (tca s) j, bpcs = (\<lambda>t. region_pc j (tcp s t)), bowned = (\<lambda>t. tco s t \<inter> bm_blocks (reg (tca s) j))\<rparr>"

text \<open>The state after thread \<open>t\<close> took a step in region \<open>j\<close> that led to \<open>v\<close>.\<close>

definition put_region :: "tb_conc \<Rightarrow> nat \<Rightarrow> tid \<Rightarrow> bm_state \<Rightarrow> tb_conc" where
  "put_region s j t v =
     s\<lparr>tca := (tca s)\<lparr>m_regions := (m_regions (tca s))[j := of_bitmap (bma v) (m_regions (tca s) ! j)]\<rparr>,
       tcp := (tcp s)(t := if bpcs v t = BIdle then T_idle else T_in j (bpcs v t)),
       tco := (tco s)(t := tco s t - bm_blocks (reg (tca s) j) \<union> bowned v t)\<rparr>"

inductive tb_step :: "bool \<Rightarrow> tid \<Rightarrow> tb_conc \<Rightarrow> tb_conc \<Rightarrow> bool" for x :: bool where
  start_alloc: "tcp s t = T_idle \<Longrightarrow> tci s t \<noteq> SIZE_MAX \<Longrightarrow> unat (tci s t) < length (m_regions (tca s)) \<Longrightarrow>
     tb_step x t s (s\<lparr>tcp := (tcp s)(t := T_in (unat (tci s t)) A_load)\<rparr>)"
| start_assign: "tcp s t = T_idle \<Longrightarrow> tci s t = SIZE_MAX \<Longrightarrow> tb_step x t s (s\<lparr>tcp := (tcp s)(t := T_assign)\<rparr>)"
| assign: "tcp s t = T_assign \<Longrightarrow> assign_region (tca s) = Some (i, a) \<Longrightarrow> unat i < length (m_regions a) \<Longrightarrow>
     tb_step x t s (s\<lparr>tca := a, tci := (tci s)(t := i), tcp := (tcp s)(t := T_in (unat i) A_load)\<rparr>)"
| inside: "tcp s t = T_in j l \<Longrightarrow> bm_step t (view s j) e v \<Longrightarrow> tb_step x t s (put_region s j t v)"
| start_dealloc: "tcp s t = T_idle \<Longrightarrow> p \<in> tco s t \<Longrightarrow>
     find_region (tb_block_size (tca s)) p (m_regions (tca s)) = Some j \<Longrightarrow>
     tb_step x t s (s\<lparr>tcp := (tcp s)(t := T_in j (D_clear p)), tco := (tco s)(t := tco s t - {p})\<rparr>)"
| dealloc_foreign: "tcp s t = T_idle \<Longrightarrow> find_region (tb_block_size (tca s)) p (m_regions (tca s)) = None \<Longrightarrow>
     tb_step x t s s"
| give: "x \<Longrightarrow> tcp s t = T_idle \<Longrightarrow> p \<in> tco s t \<Longrightarrow> t \<noteq> u \<Longrightarrow>
     tb_step x t s (s\<lparr>tco := (tco s)(t := tco s t - {p}, u := insert p (tco s u))\<rparr>)"

definition tb_tick :: "bool \<Rightarrow> tb_conc \<Rightarrow> tb_conc \<Rightarrow> bool" where
  "tb_tick x s s' = (\<exists>t. tb_step x t s s')"

definition tb_conc_init :: "tb_conc \<Rightarrow> bool" where
  "tb_conc_init s = (tb_invar (tca s, tci s) \<and> tci s = t_region_index_init \<and> m_thread_counter (tca s) = 0
     \<and> (\<forall>r \<in> set (m_regions (tca s)). \<forall>g < 64 * length (bitmap r). \<not> used (bitmap r) g)
     \<and> (\<forall>t. tcp s t = T_idle \<and> tco s t = {}))"

section \<open>Every region runs as a bitmap allocator\<close>

text \<open>What a step of \<open>Bitmap_Conc\<close> by a thread inside a call can change.\<close>

lemma bm_step_frame:
  assumes "bm_step t v e v'" "bpcs v t \<noteq> BIdle"
  shows "\<exists>bm h. bma v' = (bma v)\<lparr>m_bitmap := bm, m_hint := h\<rparr>" "u \<noteq> t \<Longrightarrow> bpcs v' u = bpcs v u \<and> bowned v' u = bowned v u"
proof -
  show "\<exists>bm h. bma v' = (bma v)\<lparr>m_bitmap := bm, m_hint := h\<rparr>"
  proof (intro exI [of _ "m_bitmap (bma v')"] exI [of _ "m_hint (bma v')"])
    show "bma v' = (bma v)\<lparr>m_bitmap := m_bitmap (bma v'), m_hint := m_hint (bma v')\<rparr>"
      using assms by (cases rule: bm_step.cases) (simp_all add: state_defs)
  qed
  show "u \<noteq> t \<Longrightarrow> bpcs v' u = bpcs v u \<and> bowned v' u = bowned v u"
    using assms by (cases rule: bm_step.cases) (simp_all add: state_defs)
qed

definition tbc_inv :: "tb_conc \<Rightarrow> bool" where
  "tbc_inv s = (tb_invar (tca s, tci s) \<and> (\<forall>t. tco s t \<subseteq> tb_blocks (tca s, tci s))
     \<and> (\<forall>t j l. tcp s t = T_in j l \<longrightarrow> j < length (m_regions (tca s)) \<and> l \<noteq> BIdle)
     \<and> (\<forall>j < length (m_regions (tca s)). reach bm_init bm_tick (view s j)))"

lemma tbc_invD:
  assumes "tbc_inv s"
  shows "tb_invar (tca s, tci s)" "tco s t \<subseteq> tb_blocks (tca s, tci s)"
    "tcp s t = T_in j l \<Longrightarrow> j < length (m_regions (tca s)) \<and> l \<noteq> BIdle"
    "j < length (m_regions (tca s)) \<Longrightarrow> reach bm_init bm_tick (view s j)"
  using assms by (auto simp: tbc_inv_def)

lemma tb_blocks_reg: "tb_blocks (a, idx) = (\<Union>j < length (m_regions a). bm_blocks (reg a j))"
  by (auto simp: tb_blocks_def reg_def set_conv_nth)

lemma reg_apart:
  assumes "tb_invar (a, idx)" "i < length (m_regions a)" "j < length (m_regions a)" "i \<noteq> j"
  shows "bm_blocks (reg a i) \<inter> bm_blocks (reg a j) = {}"
  using region_blocks_disjoint [OF assms] by (simp add: reg_def)

lemma block_regionE:
  assumes "tbc_inv s" "p \<in> tco s t"
  obtains j where "j < length (m_regions (tca s))" "p \<in> bm_blocks (reg (tca s) j)"
    "find_region (tb_block_size (tca s)) p (m_regions (tca s)) = Some j"
proof -
  obtain j where j: "j < length (m_regions (tca s))" "p \<in> bm_blocks (reg (tca s) j)"
    using tbc_invD(2) [OF assms(1), of t] assms(2) unfolding tb_blocks_reg by auto
  moreover have "find_region (tb_block_size (tca s)) p (m_regions (tca s)) = Some j"
    by (rule find_region_at) (use tbc_invD(1) [OF assms(1)] j in \<open>simp_all add: tb_invar_def reg_def\<close>)
  ultimately show thesis by (rule that)
qed

lemma tb_conc_init_inv: "tb_conc_init s \<Longrightarrow> tbc_inv s"
proof -
  assume i: "tb_conc_init s"
  have "bm_init (view s j)" if "j < length (m_regions (tca s))" for j
    using i that nth_mem [OF that] by (auto simp: tb_conc_init_def bm_init_def view_def reg_def tb_invar_def as_bitmap_def)
  then show ?thesis using i by (auto simp: tbc_inv_def tb_conc_init_def intro: reach_init)
qed

definition view_step :: "tb_conc \<Rightarrow> tb_conc \<Rightarrow> bool" where
  "view_step s s' = (length (m_regions (tca s')) = length (m_regions (tca s))
     \<and> (\<forall>j < length (m_regions (tca s)). view s' j = view s j \<or> bm_tick (view s j) (view s' j)))"

lemma tbc_stepI:
  assumes "tbc_inv s" "view_step s s'" "tb_invar (tca s', tci s')" "\<And>t. tco s' t \<subseteq> tb_blocks (tca s', tci s')"
    and "\<And>t j l. tcp s' t = T_in j l \<Longrightarrow> j < length (m_regions (tca s')) \<and> l \<noteq> BIdle"
  shows "tbc_inv s'"
proof -
  have "reach bm_init bm_tick (view s' j)" if "j < length (m_regions (tca s'))" for j
    using assms(1,2) that reach_step [of bm_init bm_tick "view s j" "view s' j"]
    by (auto simp: view_step_def tbc_inv_def)
  then show ?thesis using assms(3-5) by (simp add: tbc_inv_def)
qed

text \<open>A thread outside every region enters region \<open>k\<close>.\<close>

lemma view_enter:
  assumes r: "\<And>j. reg (tca s') j = reg (tca s) j" and p: "tcp s' = (tcp s)(t := T_in k l)" "tcp s t = T_idle \<or> tcp s t = T_assign"
    and o: "tco s' = (tco s)(t := B)" "\<And>j. j < n \<Longrightarrow> j \<noteq> k \<Longrightarrow> B \<inter> bm_blocks (reg (tca s) j) = tco s t \<inter> bm_blocks (reg (tca s) j)"
  shows "j < n \<Longrightarrow> j \<noteq> k \<Longrightarrow> view s' j = view s j"
    "view s' k = bgoto t l (bown t (B \<inter> bm_blocks (reg (tca s) k)) (view s k))" "bpcs (view s k) t = BIdle"
proof -
  have q: "region_pc j (tcp s t) = BIdle" for j using p(2) by auto
  show "view s' j = view s j" if "j < n" "j \<noteq> k"
    using that q [of j] o(2) [OF that] unfolding view_def r o(1) p(1) by (simp add: fun_eq_iff)
  show "view s' k = bgoto t l (bown t (B \<inter> bm_blocks (reg (tca s) k)) (view s k))"
    unfolding view_def r o(1) p(1) by (simp add: state_defs fun_eq_iff)
  show "bpcs (view s k) t = BIdle" using q by (simp add: view_def)
qed

lemma alloc_enters:
  assumes inv: "tbc_inv s" and r: "m_regions (tca s') = m_regions (tca s)" "tb_block_size (tca s') = tb_block_size (tca s)"
    and p: "tcp s' = (tcp s)(t := T_in k A_load)" "tcp s t = T_idle \<or> tcp s t = T_assign" and o: "tco s' = tco s"
  shows "view_step s s'"
proof -
  have rg: "reg (tca s') j = reg (tca s) j" for j by (simp add: reg_def r)
  have o': "tco s' = (tco s)(t := tco s t)" using o by simp
  note v = view_enter [where n = "length (m_regions (tca s))", OF rg p o' refl]
  have "bown t (tco s t \<inter> bm_blocks (reg (tca s) k)) (view s k) = view s k" by (simp add: bown_def view_def fun_upd_idem)
  then have "view s' k = bgoto t A_load (view s k)" using v(2) by simp
  then have "bm_tick (view s k) (view s' k)" using call_alloc [OF v(3)] by (auto simp: bm_tick_def bm_move_def)
  with v(1) r(1) show ?thesis unfolding view_step_def by metis
qed

lemma dealloc_enters:
  assumes inv: "tbc_inv s" and t: "tcp s t = T_idle" "p \<in> tco s t"
    and k: "find_region (tb_block_size (tca s)) p (m_regions (tca s)) = Some k"
  shows "view_step s (s\<lparr>tcp := (tcp s)(t := T_in k (D_clear p)), tco := (tco s)(t := tco s t - {p})\<rparr>)" (is "view_step s ?s'")
    and "k < length (m_regions (tca s))"
proof -
  obtain j where j: "j < length (m_regions (tca s))" "p \<in> bm_blocks (reg (tca s) j)" "k = j"
    using block_regionE [OF inv t(2)] k by (metis option.inject)
  then show "k < length (m_regions (tca s))" by simp
  have out: "p \<notin> bm_blocks (reg (tca s) i)" if "i < length (m_regions (tca s))" "i \<noteq> k" for i
    using reg_apart [OF tbc_invD(1) [OF inv] that(1) j(1)] that(2) j(2,3) by auto
  have idle: "tcp s t = T_idle \<or> tcp s t = T_assign" using t(1) by simp
  have sm: "(tco s t - {p}) \<inter> bm_blocks (reg (tca s) i) = tco s t \<inter> bm_blocks (reg (tca s) i)"
    if "i < length (m_regions (tca s))" "i \<noteq> k" for i using out [OF that] by auto
  note v = view_enter [where s = s and s' = ?s' and n = "length (m_regions (tca s))" and t = t and k = k
      and l = "D_clear p" and B = "tco s t - {p}", OF _ _ idle _ sm, simplified]
  have own: "p \<in> bowned (view s k) t" "bowned (view s k) t = tco s t \<inter> bm_blocks (reg (tca s) k)"
    using t(2) j by (simp_all add: view_def)
  have "(tco s t - {p}) \<inter> bm_blocks (reg (tca s) k) = bowned (view s k) t - {p}" unfolding own(2) by auto
  then have "bm_tick (view s k) (view ?s' k)"
    using call_dealloc [OF v(3) own(1)] v(2) by (auto simp: bm_tick_def bm_move_def)
  with v(1) show "view_step s ?s'" unfolding view_step_def by auto
qed

text \<open>A step inside region \<open>j\<close>.\<close>

lemma view_inside:
  assumes inv: "tbc_inv s" and t: "tcp s t = T_in j l" and st: "bm_step t (view s j) e v"
  shows "view (put_region s j t v) j = v" "i < length (m_regions (tca s)) \<Longrightarrow> i \<noteq> j \<Longrightarrow> view (put_region s j t v) i = view s i"
    "bowned v t \<subseteq> bm_blocks (reg (tca s) j)" "bm_invar (bma v)"
    "\<And>k. reg (tca (put_region s j t v)) k = (if k = j then bma v else reg (tca s) k)"
proof -
  let ?s' = "put_region s j t v"
  have j: "j < length (m_regions (tca s))" "l \<noteq> BIdle" using tbc_invD(3) [OF inv t] by auto
  have pc: "bpcs (view s j) t \<noteq> BIdle" using t j(2) by (simp add: view_def)
  note fr = bm_step_frame [OF st pc]
  have "bm_inv (view s j)" by (rule bc.reach_invariant [OF tbc_invD(4) [OF inv j(1)]])
  with step_good [OF st] have iv: "bm_inv v" by (simp add: good_step_def)
  obtain bm h where b: "bma v = (reg (tca s) j)\<lparr>m_bitmap := bm, m_hint := h\<rparr>" using fr(1) by (auto simp: view_def)
  then have blk: "bm_blocks (bma v) = bm_blocks (reg (tca s) j)" by simp
  show ow: "bowned v t \<subseteq> bm_blocks (reg (tca s) j)" and "bm_invar (bma v)" using iv blk by (simp_all add: bm_inv_def)
  have "as_bitmap (tb_block_size (tca s)) (of_bitmap (bma v) (m_regions (tca s) ! j)) = bma v"
    using as_of_bitmap b by (simp add: reg_def)
  then show rg: "reg (tca ?s') k = (if k = j then bma v else reg (tca s) k)" for k
    using j(1) by (simp add: reg_def put_region_def)
  have "bpcs (view ?s' j) = bpcs v"
  proof
    fix u show "bpcs (view ?s' j) u = bpcs v u"
      using fr(2) [of u] by (cases "u = t") (simp_all add: view_def put_region_def)
  qed
  moreover have "bowned (view ?s' j) = bowned v"
  proof
    fix u show "bowned (view ?s' j) u = bowned v u"
      using fr(2) [of u] ow blk rg [of j] by (cases "u = t") (auto simp: view_def put_region_def)
  qed
  ultimately show "view ?s' j = v" using rg [of j] by (simp add: view_def)
  show "view ?s' i = view s i" if i: "i < length (m_regions (tca s))" "i \<noteq> j"
  proof -
    have "bm_blocks (reg (tca s) i) \<inter> bm_blocks (reg (tca s) j) = {}" by (rule reg_apart [OF tbc_invD(1) [OF inv] i(1) j(1) i(2)])
    then have "(tco s t - bm_blocks (reg (tca s) j) \<union> bowned v t) \<inter> bm_blocks (reg (tca s) i) = tco s t \<inter> bm_blocks (reg (tca s) i)"
      using ow by blast
    then show ?thesis using i(2) t unfolding view_def rg by (auto simp: put_region_def fun_eq_iff)
  qed
qed

lemma put_region_invar:
  assumes inv: "tbc_inv s" and t: "tcp s t = T_in j l" and st: "bm_step t (view s j) e v"
  shows "tb_invar (tca (put_region s j t v), tci (put_region s j t v))"
proof -
  have j: "j < length (m_regions (tca s))" using tbc_invD(3) [OF inv t] by auto
  note i = tbc_invD(1) [OF inv]
  let ?r = "of_bitmap (bma v) (m_regions (tca s) ! j)"
  have b: "bm_invar (as_bitmap (tb_block_size (tca s)) ?r)"
    using view_inside(4) [OF inv t st] view_inside(5) [OF inv t st, of j] j by (simp add: reg_def put_region_def)
  have "tb_invar ((tca s)\<lparr>m_regions := (m_regions (tca s))[j := ?r], m_thread_counter := m_thread_counter (tca s)\<rparr>, tci s)"
    by (rule tb_invar_update [OF i j b]) (use i in \<open>auto simp: tb_invar_def\<close>)
  then show ?thesis by (simp add: put_region_def)
qed

lemma put_region_blocks:
  assumes inv: "tbc_inv s" and t: "tcp s t = T_in j l" and st: "bm_step t (view s j) e v"
  shows "tb_blocks (tca (put_region s j t v), idx) = tb_blocks (tca s, idx')"
proof -
  have pc: "bpcs (view s j) t \<noteq> BIdle" using t tbc_invD(3) [OF inv t] by (simp add: view_def)
  obtain bm h where b: "bma v = (reg (tca s) j)\<lparr>m_bitmap := bm, m_hint := h\<rparr>"
    using bm_step_frame(1) [OF st pc] by (auto simp: view_def)
  have "bm_blocks (if k = j then bma v else reg (tca s) k) = bm_blocks (reg (tca s) k)" for k using b by simp
  moreover have "length (m_regions (tca (put_region s j t v))) = length (m_regions (tca s))" by (simp add: put_region_def)
  ultimately show ?thesis unfolding tb_blocks_reg view_inside(5) [OF inv t st] by simp
qed

lemma inside_inv:
  assumes inv: "tbc_inv s" and t: "tcp s t = T_in j l" and st: "bm_step t (view s j) e v"
  shows "tbc_inv (put_region s j t v)" (is "tbc_inv ?s'")
proof (rule tbc_stepI [OF inv])
  have j: "j < length (m_regions (tca s))" using tbc_invD(3) [OF inv t] by auto
  note v = view_inside [OF inv t st]
  have "bm_tick (view s j) (view ?s' j)" unfolding v(1) using st by (auto simp: bm_tick_def bm_move_def)
  moreover have "length (m_regions (tca ?s')) = length (m_regions (tca s))" by (simp add: put_region_def)
  ultimately show "view_step s ?s'" unfolding view_step_def using v(2) by metis
  show "tb_invar (tca ?s', tci ?s')" by (rule put_region_invar [OF inv t st])
  have "bm_blocks (reg (tca s) j) \<subseteq> tb_blocks (tca s, tci s)" using j unfolding tb_blocks_reg by blast
  then have "tco ?s' u \<subseteq> tb_blocks (tca s, tci s)" for u
    using v(3) tbc_invD(2) [OF inv, of u] by (auto simp: put_region_def)
  then show "tco ?s' u \<subseteq> tb_blocks (tca ?s', tci ?s')" for u
    using put_region_blocks [OF inv t st, of "tci ?s'" "tci s"] by simp
  show "k < length (m_regions (tca ?s')) \<and> m \<noteq> BIdle" if "tcp ?s' u = T_in k m" for u k m
    using that tbc_invD(3) [OF inv, of u k m] j by (auto simp: put_region_def split: if_splits)
qed

lemma give_view:
  assumes inv: "tbc_inv s" and t: "tcp s t = T_idle" "p \<in> tco s t" "t \<noteq> u"
  shows "view_step s (s\<lparr>tco := (tco s)(t := tco s t - {p}, u := insert p (tco s u))\<rparr>)" (is "view_step s ?s'")
  unfolding view_step_def
proof (intro conjI allI impI)
  show "length (m_regions (tca ?s')) = length (m_regions (tca s))" by simp
  fix j assume "j < length (m_regions (tca s))"
  have r: "reg (tca ?s') j = reg (tca s) j" by simp
  show "view ?s' j = view s j \<or> bm_tick (view s j) (view ?s' j)"
  proof (cases "p \<in> bm_blocks (reg (tca s) j)")
    case True
    have p: "bpcs (view s j) t = BIdle" "p \<in> bowned (view s j) t" using t True by (simp_all add: view_def)
    have "view ?s' j = bown u (insert p (bowned (view s j) u)) (bown t (bowned (view s j) t - {p}) (view s j))"
      using True t(3) by (auto simp: view_def bown_def fun_eq_iff)
    then show ?thesis using hand_over [OF p t(3)] by (auto simp: bm_tick_def bm_move_def)
  next
    case False
    then have "view ?s' j = view s j" by (auto simp: view_def fun_eq_iff)
    then show ?thesis ..
  qed
qed

lemma tb_step_inv: "tb_step x t s s' \<Longrightarrow> tbc_inv s \<Longrightarrow> tbc_inv s'"
proof (induction rule: tb_step.induct)
  case (start_alloc s t)
  note i = tbc_invD(1) [OF start_alloc(4)]
  show ?case
    by (rule tbc_stepI [OF start_alloc(4) alloc_enters [OF start_alloc(4)]])
      (use start_alloc tbc_invD(1-3) [OF start_alloc(4)] in \<open>auto split: if_splits\<close>)
next
  case (start_assign s t)
  have "view (s\<lparr>tcp := (tcp s)(t := T_assign)\<rparr>) j = view s j" for j using start_assign(1) by (auto simp: view_def fun_eq_iff)
  then show ?case
    by (intro tbc_stepI [OF start_assign(3)])
      (use start_assign tbc_invD(1-3) [OF start_assign(3)] in \<open>auto simp: view_step_def split: if_splits\<close>)
next
  case (assign s t i a)
  have a: "m_regions a = m_regions (tca s)" "tb_block_size a = tb_block_size (tca s)" "tb_max_threads a = tb_max_threads (tca s)"
    using assign(2) by (auto simp: assign_region_def split: if_splits)
  have "tb_invar (a, (tci s)(t := i))" using tbc_invD(1) [OF assign(4)] a assign(3) by (auto simp: tb_invar_def)
  moreover have "tb_blocks (a, (tci s)(t := i)) = tb_blocks (tca s, tci s)" by (simp add: tb_blocks_def a)
  ultimately show ?case
    by (intro tbc_stepI [OF assign(4) alloc_enters [OF assign(4)]])
      (use assign a tbc_invD(2,3) [OF assign(4)] in \<open>auto split: if_splits\<close>)
next
  case (inside s t j l e v)
  then show ?case using inside_inv by blast
next
  case (start_dealloc s t p j)
  note d = dealloc_enters [OF start_dealloc(4,1-3)]
  show ?case
    by (rule tbc_stepI [OF start_dealloc(4) d(1)])
      (use d(2) start_dealloc tbc_invD(1-3) [OF start_dealloc(4)] in \<open>auto split: if_splits\<close>)
next
  case (give s t p u)
  show ?case
    by (rule tbc_stepI [OF give(5) give_view [OF give(5,2-4)]])
      (use give tbc_invD(1-3) [OF give(5)] in \<open>auto split: if_splits\<close>)
qed simp

interpretation tbc: interleaving tb_conc_init "tb_tick x" tbc_inv for x
proof unfold_locales
  show "tbc_inv s" if "tb_conc_init s" for s using that by (rule tb_conc_init_inv)
  show "tbc_inv s'" if "tb_tick x s s'" "tbc_inv s" for s s' using that tb_step_inv by (auto simp: tb_tick_def)
qed

section \<open>Possession\<close>

definition tb_possession :: "tb_conc \<Rightarrow> tid \<Rightarrow> addr set" where
  "tb_possession s t = tco s t \<union> (case tcp s t of T_in j l \<Rightarrow> in_flight (reg (tca s) j) l | _ \<Rightarrow> {})"

lemma tb_possession_views:
  assumes "tbc_inv s"
  shows "tb_possession s t = (\<Union>j < length (m_regions (tca s)). possession (view s j) t)"
proof -
  have "tco s t = (\<Union>j < length (m_regions (tca s)). tco s t \<inter> bm_blocks (reg (tca s) j))"
    using tbc_invD(2) [OF assms, of t] unfolding tb_blocks_reg by blast
  moreover have "(case tcp s t of T_in j l \<Rightarrow> in_flight (reg (tca s) j) l | _ \<Rightarrow> {})
      = (\<Union>j < length (m_regions (tca s)). in_flight (reg (tca s) j) (region_pc j (tcp s t)))"
    using tbc_invD(3) [OF assms, of t] by (cases "tcp s t") (auto split: if_splits)
  ultimately show ?thesis unfolding tb_possession_def possession_def view_def by (simp add: UN_Un_distrib)
qed

lemma tb_possession_partition:
  assumes inv: "tbc_inv s"
  shows "t \<noteq> u \<Longrightarrow> tb_possession s t \<inter> tb_possession s u = {}"
    "(\<Union>t. tb_possession s t) = tb_blocks (tca s, tci s) - tb_free (tca s, tci s)"
proof -
  let ?n = "length (m_regions (tca s))" and ?r = "\<lambda>j. reg (tca s) j"
  have vi: "bm_inv (view s j)" if "j < ?n" for j using bc.reach_invariant [OF tbc_invD(4) [OF inv that]] .
  have poss: "possession (view s j) v \<subseteq> bm_blocks (?r j) - bm_free (?r j)" if "j < ?n" for j v
    using possession_partition(2) [OF vi [OF that]] by (auto simp: view_def)
  have fr: "bm_free (?r j) \<subseteq> bm_blocks (?r j)" if "j < ?n" for j
    using bm.free_blocks vi [OF that] by (auto simp: bm_inv_def view_def)
  have apart: "bm_blocks (?r i) \<inter> bm_blocks (?r j) = {}" if "i < ?n" "j < ?n" "i \<noteq> j" for i j
    by (rule reg_apart [OF tbc_invD(1) [OF inv] that])
  show "tb_possession s t \<inter> tb_possession s u = {}" if tu: "t \<noteq> u"
  proof -
    have "possession (view s i) t \<inter> possession (view s j) u = {}" if "i < ?n" "j < ?n" for i j
      using possession_partition(1) [OF vi tu] poss that apart [OF that] by (cases "i = j") blast+
    then show ?thesis unfolding tb_possession_views [OF inv] by blast
  qed
  have free: "tb_free (tca s, tci s) = (\<Union>j < ?n. bm_free (?r j))" by (auto simp: tb_free_def reg_def set_conv_nth)
  have "(\<Union>t. tb_possession s t) = (\<Union>j < ?n. \<Union>t. possession (view s j) t)" unfolding tb_possession_views [OF inv] by blast
  also have "\<dots> = (\<Union>j < ?n. bm_blocks (?r j) - bm_free (?r j))"
    using possession_partition(2) [OF vi] by (intro SUP_cong) (simp_all add: view_def)
  also have "\<dots> = (\<Union>j < ?n. bm_blocks (?r j)) - (\<Union>j < ?n. bm_free (?r j))"
    using apart fr by blast
  finally show "(\<Union>t. tb_possession s t) = tb_blocks (tca s, tci s) - tb_free (tca s, tci s)" unfolding free tb_blocks_reg .
qed

section \<open>Accesses to \<^verbatim>\<open>Region::hint\<close>\<close>

text \<open>The points whose next step reads or writes the hint of the region.\<close>

fun reads_hint :: "bpc \<Rightarrow> bool" where
  "reads_hint A_load = True"
| "reads_hint _ = False"

fun writes_hint :: "bpc \<Rightarrow> bool" where
  "writes_hint (A_hint i g) = True"
| "writes_hint (D_hint i) = True"
| "writes_hint _ = False"

text \<open>Two threads are about to access the hint of the same region, and one of them writes.\<close>

definition hint_race :: "tb_conc \<Rightarrow> bool" where
  "hint_race s = (\<exists>j t u l m. t \<noteq> u \<and> tcp s t = T_in j l \<and> tcp s u = T_in j m
     \<and> (reads_hint l \<or> writes_hint l) \<and> writes_hint m)"

text \<open>The threads that have called \<^verbatim>\<open>alloc\<close>. As long as there are slots for all of them their slots are distinct.\<close>

definition users :: "tb_conc \<Rightarrow> tid set" where
  "users s = {t. tci s t \<noteq> SIZE_MAX}"

definition slots_ok :: "tb_conc \<Rightarrow> bool" where
  "slots_ok s = (finite (users s) \<and> (card (users s) \<le> unat (tb_max_threads (tca s)) \<longrightarrow>
     unat (m_thread_counter (tca s)) = card (users s) \<and> inj_on (tci s) (users s)
     \<and> (\<forall>t \<in> users s. unat (tci s t) < card (users s))))"

text \<open>Without handing over, every thread stays in its own region.\<close>

definition stays :: "tb_conc \<Rightarrow> bool" where
  "stays s = (\<forall>t. (\<forall>j l. tcp s t = T_in j l \<longrightarrow> t \<in> users s \<and> j = unat (tci s t))
     \<and> (tcp s t = T_assign \<longrightarrow> t \<notin> users s)
     \<and> (\<forall>p \<in> tco s t. t \<in> users s \<and> p \<in> bm_blocks (reg (tca s) (unat (tci s t)))))"

definition local_inv :: "tb_conc \<Rightarrow> bool" where
  "local_inv s = (tbc_inv s \<and> slots_ok s \<and> stays s)"

lemma local_init: "tb_conc_init s \<Longrightarrow> local_inv s"
  using tb_conc_init_inv [of s]
  by (auto simp: local_inv_def slots_ok_def stays_def users_def tb_conc_init_def t_region_index_init_def)

lemma slots_same:
  "slots_ok s \<Longrightarrow> tci s' = tci s \<Longrightarrow> m_thread_counter (tca s') = m_thread_counter (tca s) \<Longrightarrow>
     tb_max_threads (tca s') = tb_max_threads (tca s) \<Longrightarrow> slots_ok s'"
  by (simp add: slots_ok_def users_def)

lemma assign_slots:
  assumes inv: "tb_invar (tca s, tci s)" and ok: "slots_ok s" and t: "t \<notin> users s"
    and a: "assign_region (tca s) = Some (i, a)"
  shows "slots_ok (s\<lparr>tca := a, tci := (tci s)(t := i), tcp := P\<rparr>)" (is "slots_ok ?s'")
    and "i \<noteq> SIZE_MAX"
proof -
  let ?m = "tb_max_threads (tca s)" and ?c = "m_thread_counter (tca s)"
  have a': "i = ?c mod ?m" "a = (tca s)\<lparr>m_thread_counter := ?c + 1\<rparr>" "0 < unat ?m"
    using a inv by (auto simp: assign_region_def tb_invar_def split: if_splits)
  have "unat i < unat ?m" using a'(1,3) by (simp add: unat_mod)
  then show ne: "i \<noteq> SIZE_MAX" using word_order.extremum [of ?m] by (auto simp: word_le_nat_alt)
  have u: "users ?s' = insert t (users s)" using ne by (auto simp: users_def)
  have fin: "finite (users s)" using ok by (simp add: slots_ok_def)
  then have card: "card (users ?s') = Suc (card (users s))" using t u by simp
  have "unat (m_thread_counter a) = card (users ?s') \<and> inj_on ((tci s)(t := i)) (users ?s')
      \<and> (\<forall>v \<in> users ?s'. unat (((tci s)(t := i)) v) < card (users ?s'))" if le: "card (users ?s') \<le> unat ?m"
  proof -
    have o: "unat ?c = card (users s)" "inj_on (tci s) (users s)" "\<forall>v \<in> users s. unat (tci s v) < card (users s)"
      using ok le card by (simp_all add: slots_ok_def)
    have lt: "unat ?c < unat ?m" using o(1) le card by simp
    then have i: "unat i = card (users s)" using a'(1) o(1) by (simp add: unat_mod)
    have "unat (?c + 1) = Suc (unat ?c)" using unat_plus1_64 [of ?c ?m] lt by (simp add: word_less_nat_alt)
    moreover have "inj_on ((tci s)(t := i)) (insert t (users s))"
      using o(2,3) i t by (auto simp: inj_on_def)
    moreover have "unat (((tci s)(t := i)) v) < Suc (card (users s))" if "v \<in> insert t (users s)" for v
      using that o(3) i by (auto simp: less_Suc_eq)
    ultimately show ?thesis using o(1) card u a'(2) by simp
  qed
  then show "slots_ok ?s'" unfolding slots_ok_def using fin u a'(2) by simp
qed

lemma local_step: "tb_step False t s s' \<Longrightarrow> local_inv s \<Longrightarrow> local_inv s'"
proof -
  assume st: "tb_step False t s s'" and l: "local_inv s"
  then have inv: "tbc_inv s" and sl: "slots_ok s" and sy: "stays s" by (simp_all add: local_inv_def)
  have "slots_ok s' \<and> stays s'" using st
  proof (cases rule: tb_step.cases)
    case (assign i a)
    have t: "t \<notin> users s" using sy assign by (auto simp: stays_def)
    have "m_regions a = m_regions (tca s)" "tb_block_size a = tb_block_size (tca s)"
      using assign by (auto simp: assign_region_def split: if_splits)
    then have "reg a = reg (tca s)" by (simp add: reg_def fun_eq_iff)
    moreover note sl' = assign_slots [OF tbc_invD(1) [OF inv] sl t assign(3)]
    ultimately show ?thesis
      using sy t assign by (auto simp: stays_def users_def)
  next
    case (inside j l e v)
    have j: "j < length (m_regions (tca s))" "t \<in> users s" "j = unat (tci s t)"
      using tbc_invD(3) [OF inv inside(2)] sy inside(2) by (auto simp: stays_def)
    have pc: "bpcs (view s j) t \<noteq> BIdle" using tbc_invD(3) [OF inv inside(2)] inside(2) by (simp add: view_def)
    obtain bm h where "bma v = (reg (tca s) j)\<lparr>m_bitmap := bm, m_hint := h\<rparr>"
      using bm_step_frame(1) [OF inside(3) pc] by (auto simp: view_def)
    then have "bm_blocks (reg (tca s') k) = bm_blocks (reg (tca s) k)" for k
      unfolding inside(1) view_inside(5) [OF inv inside(2,3)] by simp
    moreover have "users s' = users s" "tci s' = tci s" by (simp_all add: users_def inside(1) put_region_def)
    ultimately have "stays s'"
      using sy j view_inside(3) [OF inv inside(2,3)] unfolding stays_def inside(1)
      by (auto simp: put_region_def split: if_splits)
    moreover have "slots_ok s'" by (rule slots_same [OF sl]) (simp_all add: inside(1) put_region_def)
    ultimately show ?thesis by simp
  next
    case (start_dealloc p j)
    have p: "t \<in> users s" "p \<in> bm_blocks (reg (tca s) (unat (tci s t)))" using sy start_dealloc(3) by (auto simp: stays_def)
    have "unat (tci s t) < length (m_regions (tca s))"
      using p(1) tbc_invD(1) [OF inv] by (auto simp: tb_invar_def users_def)
    then have "j = unat (tci s t)"
      using find_region_at [of "tb_block_size (tca s)" "m_regions (tca s)" "unat (tci s t)" p] tbc_invD(1) [OF inv] p(2) start_dealloc(4)
      by (simp add: tb_invar_def reg_def)
    then show ?thesis using sl sy p(1) unfolding start_dealloc(1)
      by (auto simp: slots_ok_def stays_def users_def split: if_splits)
  qed (use sl sy in \<open>auto simp: slots_ok_def stays_def users_def split: if_splits\<close>)
  then show ?thesis using tb_step_inv [OF st inv] by (simp add: local_inv_def)
qed

interpretation tbl: interleaving tb_conc_init "tb_tick False" local_inv
proof unfold_locales
  show "local_inv s" if "tb_conc_init s" for s using that by (rule local_init)
  show "local_inv s'" if "tb_tick False s s'" "local_inv s" for s s' using that local_step by (auto simp: tb_tick_def)
qed

section \<open>An execution\<close>

text \<open>Two threads on an allocator with two regions of 64 blocks. Thread 0 allocates block 4096 and hands it to
  thread 1, which gives it back; when thread 1 is about to store the hint, thread 0 calls \<^verbatim>\<open>alloc\<close> again.\<close>

lemma inside_goto:
  assumes "tcp s t = T_in j k" "bm_step t (view s j) e (bgoto t l (set_bitmap bm (view s j)))" "l \<noteq> BIdle"
  shows "tb_step x t s (s\<lparr>tca := (tca s)\<lparr>m_regions := (m_regions (tca s))[j := (m_regions (tca s) ! j)\<lparr>bitmap := bm\<rparr>]\<rparr>,
     tcp := (tcp s)(t := T_in j l)\<rparr>)"
proof -
  have "put_region s j t (bgoto t l (set_bitmap bm (view s j))) =
      s\<lparr>tca := (tca s)\<lparr>m_regions := (m_regions (tca s))[j := (m_regions (tca s) ! j)\<lparr>bitmap := bm\<rparr>]\<rparr>, tcp := (tcp s)(t := T_in j l)\<rparr>"
    using assms(3) by (simp add: put_region_def view_def of_bitmap_def as_bitmap_def reg_def state_defs Un_Diff_Int fun_upd_idem)
  then show ?thesis using inside [OF assms(1,2)] by simp
qed

definition tst :: "u64 \<Rightarrow> u64 \<Rightarrow> u64 \<Rightarrow> tbpc \<Rightarrow> tbpc \<Rightarrow> addr set \<Rightarrow> addr set \<Rightarrow> tb_conc" where
  "tst w c i l0 l1 o0 o1 = \<lparr>tca = demo_tb\<lparr>m_regions := [(m_regions demo_tb ! 0)\<lparr>bitmap := [w]\<rparr>, m_regions demo_tb ! 1], m_thread_counter := c\<rparr>,
     tci = t_region_index_init(0 := i), tcp = (\<lambda>_. T_idle)(0 := l0, 1 := l1), tco = (\<lambda>_. {})(0 := o0, 1 := o1)\<rparr>"

abbreviation tb_run :: "bool \<Rightarrow> tb_conc \<Rightarrow> bool" where
  "tb_run x \<equiv> reach tb_conc_init (tb_tick x)"

lemma tb_runI: "tb_step x t s s' \<Longrightarrow> s' = s'' \<Longrightarrow> tb_run x s \<Longrightarrow> tb_run x s''"
  using reach_step [of tb_conc_init "tb_tick x" s s'] by (auto simp: tb_tick_def)

lemma tb_run_inside:
  assumes "tb_run x s" "bm_step t (view s j) e (bgoto t l (set_bitmap bm (view s j)))" "tcp s t = T_in j k" "l \<noteq> BIdle"
    and "s\<lparr>tca := (tca s)\<lparr>m_regions := (m_regions (tca s))[j := (m_regions (tca s) ! j)\<lparr>bitmap := bm\<rparr>]\<rparr>,
      tcp := (tcp s)(t := T_in j l)\<rparr> = s'"
  shows "tb_run x s'"
  by (rule tb_runI [OF inside_goto [OF assms(3,2,4)] assms(5,1)])

lemmas tst_defs = tst_def demo_tb_def Let_def t_region_index_init_def

lemma tst_view:
  "bma (view (tst w c i l0 l1 o0 o1) 0) = \<lparr>m_block_size = 64, m_block_count = 64, m_word_count = 1, m_memory = 4096, m_bitmap_at = 64,
     m_bitmap = [w], m_hint = 0\<rparr>"
  "bpcs (view (tst w c i l0 l1 o0 o1) 0) 0 = region_pc 0 l0" "bpcs (view (tst w c i l0 l1 o0 o1) 0) 1 = region_pc 0 l1"
  by (simp_all add: view_def tst_defs reg_def as_bitmap_def)

lemma tst_same: "set_bitmap [w] (view (tst w c i l0 l1 o0 o1) 0) = view (tst w c i l0 l1 o0 o1) 0"
  by (simp add: set_bitmap_def view_def tst_defs reg_def as_bitmap_def)

lemma tst_block: "4096 \<in> bm_blocks (reg (tca (tst w c i l0 l1 o0 o1)) 0)"
  by (simp add: bm_blocks_def bm_block_def block_at_def reg_def tst_defs as_bitmap_def image_iff) (rule exI [of _ 0], simp)

lemma tst_start: "tb_conc_init (tst 0 0 SIZE_MAX T_idle T_idle {} {})"
proof -
  have e: "tst 0 0 SIZE_MAX T_idle T_idle {} {} = \<lparr>tca = demo_tb, tci = t_region_index_init, tcp = (\<lambda>_. T_idle), tco = (\<lambda>_. {})\<rparr>"
    by (simp add: tst_defs fun_eq_iff)
  have "\<not> used [0] g" if "g < 64" for g using that by (simp add: used_def)
  then show "tb_conc_init (tst 0 0 SIZE_MAX T_idle T_idle {} {})"
    unfolding e tb_conc_init_def using demo_tb_invar by (simp add: demo_tb_def Let_def)
qed

lemma tst_init: "tb_run x (tst 0 0 SIZE_MAX T_idle T_idle {} {})"
  by (rule reach_init) (rule tst_start)

lemma tst_alloc: "tb_run x (tst 1 1 0 (T_in 0 (A_hint 0 0)) T_idle {} {})"
proof -
  have "tb_run x (tst 0 0 SIZE_MAX T_assign T_idle {} {})"
    by (rule tb_runI [OF start_assign _ tst_init, of 0]) (auto simp: tst_defs fun_eq_iff)
  then have "tb_run x (tst 0 1 0 (T_in 0 A_load) T_idle {} {})"
    by (rule tb_runI [rotated 2, OF _ assign [of _ 0 0 "tca (tst 0 1 0 (T_in 0 A_load) T_idle {} {})"]])
      (auto simp: tst_defs assign_region_def fun_eq_iff)
  moreover have "bm_step 0 (view (tst 0 1 0 (T_in 0 A_load) T_idle {} {}) 0) BTau
      (bgoto 0 (A_probe 0 0) (set_bitmap [0] (view (tst 0 1 0 (T_in 0 A_load) T_idle {} {}) 0)))"
    using load_hint [of "view (tst 0 1 0 (T_in 0 A_load) T_idle {} {}) 0" 0] by (simp add: tst_view tst_same)
  ultimately have "tb_run x (tst 0 1 0 (T_in 0 (A_probe 0 0)) T_idle {} {})"
    by (rule tb_run_inside) (auto simp: tst_defs fun_eq_iff)
  moreover have "bm_step 0 (view (tst 0 1 0 (T_in 0 (A_probe 0 0)) T_idle {} {}) 0) BTau
      (bgoto 0 (A_try 0 0 0) (set_bitmap [0] (view (tst 0 1 0 (T_in 0 (A_probe 0 0)) T_idle {} {}) 0)))"
    using probe_open [of "view (tst 0 1 0 (T_in 0 (A_probe 0 0)) T_idle {} {}) 0" 0 0 0 0]
    by (simp add: tst_view tst_same probe_word_def word_at_def load_def FULL_def)
  ultimately have "tb_run x (tst 0 1 0 (T_in 0 (A_try 0 0 0)) T_idle {} {})"
    by (rule tb_run_inside) (auto simp: tst_defs fun_eq_iff)
  moreover have "find_free_bit 0 = Some 0" using find_free_bit_low_zero [of 0] by (simp add: low_zero_0 FULL_def)
  then have "bm_step 0 (view (tst 0 1 0 (T_in 0 (A_try 0 0 0)) T_idle {} {}) 0) (BTake 0 4096)
      (bgoto 0 (A_hint 0 0) (set_bitmap [1] (view (tst 0 1 0 (T_in 0 (A_try 0 0 0)) T_idle {} {}) 0)))"
    using claim [of "view (tst 0 1 0 (T_in 0 (A_try 0 0 0)) T_idle {} {}) 0" 0 0 0 0 0 0 0]
    by (simp add: tst_view install_def probe_word_def word_at_def load_def WORD_BITS_def index_to_ptr_def)
  ultimately show ?thesis
    by (rule tb_run_inside) (auto simp: tst_defs fun_eq_iff)
qed

lemma tst_race: "tb_run True (tst 0 1 0 (T_in 0 A_load) (T_in 0 (D_hint 0)) {} {})"
proof -
  let ?v = "\<lambda>l0 l1 w o0 o1. view (tst w 1 0 l0 l1 o0 o1) 0"
  let ?v1 = "?v (T_in 0 (A_hint 0 0)) T_idle 1 {} {}"
  let ?w = "bgoto 0 BIdle (bown 0 (insert (index_to_ptr (bma ?v1) 0) (bowned ?v1 0)) (set_hint 0 ?v1))"
  have st: "bm_step 0 ?v1 BTau ?w" by (rule store_hint) (simp add: tst_view)
  have pc: "tcp (tst 1 1 0 (T_in 0 (A_hint 0 0)) T_idle {} {}) 0 = T_in 0 (A_hint 0 0)" by (simp add: tst_def)
  have "put_region (tst 1 1 0 (T_in 0 (A_hint 0 0)) T_idle {} {}) 0 0 ?w = tst 1 1 0 T_idle T_idle {4096} {}"
    by (simp add: put_region_def view_def tst_defs reg_def as_bitmap_def of_bitmap_def index_to_ptr_def state_defs fun_eq_iff)
  from tb_runI [OF inside [OF pc st] this tst_alloc] have "tb_run True (tst 1 1 0 T_idle T_idle {4096} {})" .
  then have "tb_run True (tst 1 1 0 T_idle T_idle {} {4096})"
    by (rule tb_runI [rotated 2, OF _ give [of _ _ 0 4096 1]]) (auto simp: tst_defs fun_eq_iff)
  then have "tb_run True (tst 1 1 0 T_idle (T_in 0 (D_clear 4096)) {} {})"
    by (rule tb_runI [rotated 2, OF _ start_dealloc [of _ 1 4096 0]]) (auto simp: tst_defs fun_eq_iff)
  moreover have "bm_step 1 (?v T_idle (T_in 0 (D_clear 4096)) 1 {} {}) (BGive 1 4096)
      (bgoto 1 (D_hint (0 div WORD_BITS)) (set_bitmap [0] (?v T_idle (T_in 0 (D_clear 4096)) 1 {} {})))"
    by (rule clear [where index = 0]) (simp_all add: tst_view tst_view(3) [unfolded One_nat_def] ptr_to_index_def fetch_and_def load_def WORD_BITS_def)
  ultimately have "tb_run True (tst 0 1 0 T_idle (T_in 0 (D_hint 0)) {} {})"
    by (rule tb_run_inside) (auto simp: tst_defs fun_eq_iff WORD_BITS_def)
  then show ?thesis
    by (rule tb_runI [rotated 2, OF _ start_alloc [of _ 0]]) (auto simp: tst_defs fun_eq_iff)
qed

section \<open>Properties\<close>

text \<open>C27. Concurrent use of \<^verbatim>\<open>ThreadLocalBitmapAllocator\<close> (for a hint that is accessed atomically): in every state that
  calls of \<^verbatim>\<open>alloc\<close> and \<^verbatim>\<open>dealloc\<close> by any number of threads reach, with blocks handed from thread to thread and
  freed by others, no block is in the possession of two threads and the blocks in somebody's possession
  are exactly those that are not free; each region by itself is in a state that a shared
  \<^verbatim>\<open>BitmapAllocator\<close> can reach.\<close>

theorem tb_conc_exclusive:
  assumes "reach tb_conc_init (tb_tick x) s"
  shows "(\<forall>t u. t \<noteq> u \<longrightarrow> tb_possession s t \<inter> tb_possession s u = {})
     \<and> (\<Union>t. tb_possession s t) = tb_blocks (tca s, tci s) - tb_free (tca s, tci s)
     \<and> (\<forall>j < length (m_regions (tca s)). reach bm_init bm_tick (view s j))"
proof -
  have inv: "tbc_inv s" by (rule tbc.reach_invariant [OF assms])
  show ?thesis by (intro conjI allI impI tb_possession_partition [OF inv] tbc_invD(4) [OF inv])
qed

theorem tb_conc_exclusive_witness:
  "tb_possession (tst 1 1 0 (T_in 0 (A_hint 0 0)) T_idle {} {}) 0 \<inter> tb_possession (tst 1 1 0 (T_in 0 (A_hint 0 0)) T_idle {} {}) 1 = {}
   \<and> reach bm_init bm_tick (view (tst 1 1 0 (T_in 0 (A_hint 0 0)) T_idle {} {}) 1)"
proof -
  let ?s = "tst 1 1 0 (T_in 0 (A_hint 0 0)) T_idle {} {}"
  have "1 < length (m_regions (tca ?s))" by (simp add: tst_defs)
  moreover note ex = tb_conc_exclusive [OF tst_alloc]
  ultimately have "reach bm_init bm_tick (view ?s 1)" by blast
  moreover have "tb_possession ?s 0 \<inter> tb_possession ?s 1 = {}" using ex zero_neq_one by metis
  ultimately show ?thesis by simp
qed

text \<open>C29. Data race on \<^verbatim>\<open>Region::hint\<close> (a defect): the field is a plain \<^verbatim>\<open>size_t\<close>, but a thread that frees a block of
  another thread's region stores to it. An ordinary execution, in which a block is handed over and freed by the
  receiver, reaches a state where one thread is about to write the hint of a region that another thread is
  about to read.\<close>

theorem tb_conc_hint_race: "\<exists>s. reach tb_conc_init (tb_tick True) s \<and> hint_race s"
proof (intro exI conjI)
  show "reach tb_conc_init (tb_tick True) (tst 0 1 0 (T_in 0 A_load) (T_in 0 (D_hint 0)) {} {})" by (rule tst_race)
  show "hint_race (tst 0 1 0 (T_in 0 A_load) (T_in 0 (D_hint 0)) {} {})"
    unfolding hint_race_def
    by (intro exI [of _ 0] exI [of _ "0 :: tid"] exI [of _ "1 :: tid"] exI [of _ A_load] exI [of _ "D_hint 0"]) (simp add: tst_defs)
qed

text \<open>C28. No data race when the allocator is used as a thread-local one: if blocks are never handed to another thread and
  no more threads have called \<^verbatim>\<open>alloc\<close> than there are regions, no two threads access the hint
  of a region at the same time (no two threads are ever in the same region).\<close>

theorem tb_conc_race_free:
  assumes "reach tb_conc_init (tb_tick False) s" "card {t. tci s t \<noteq> SIZE_MAX} \<le> unat (tb_max_threads (tca s))"
  shows "\<not> hint_race s \<and> (\<forall>t u j l m. t \<noteq> u \<longrightarrow> tcp s t = T_in j l \<longrightarrow> tcp s u \<noteq> T_in j m)"
proof -
  have li: "local_inv s" by (rule tbl.reach_invariant [OF assms(1)])
  then have inj: "inj_on (tci s) (users s)" and sy: "stays s"
    using assms(2) by (auto simp: local_inv_def slots_ok_def users_def)
  have same: "t = u" if "tcp s t = T_in j l" "tcp s u = T_in j m" for t u j l m
  proof -
    have "t \<in> users s" "u \<in> users s" "unat (tci s t) = unat (tci s u)" using sy that by (auto simp: stays_def)
    then show ?thesis using inj_onD [OF inj, of t u] word_unat_eq_iff [of "tci s t" "tci s u"] by simp
  qed
  then show ?thesis unfolding hint_race_def by blast
qed

theorem tb_conc_race_free_witness: "\<not> hint_race (tst 1 1 0 (T_in 0 (A_hint 0 0)) T_idle {} {})"
proof -
  let ?s = "tst 1 1 0 (T_in 0 (A_hint 0 0)) T_idle {} {}"
  have "{t. tci ?s t \<noteq> SIZE_MAX} = {0}" "unat (tb_max_threads (tca ?s)) = 2" by (auto simp: tst_defs)
  then have "card {t. tci ?s t \<noteq> SIZE_MAX} \<le> unat (tb_max_threads (tca ?s))" by simp
  from tb_conc_race_free [OF tst_alloc this] show ?thesis ..
qed

end
