(* ===== verification/Alloc_Stats.thy ===== *)
theory Alloc_Stats
  imports Pool_Prelude
begin

text \<open>
  include/alloc\_stats.hpp: the per-thread counters and the per-thread set of live pointers, with the
  two compile-time toggles as fields of a build configuration. \<open>thread_env\<close> is the thread-local
  state of one thread together with the lines it has printed on \<^verbatim>\<open>stderr\<close>.
\<close>

record AllocStats =
  allocs :: u64
  deallocs :: u64
  refills :: u64
  flushes :: u64
  refill_blocks :: u64
  flush_blocks :: u64

record build =
  ALLOC_INSTRUMENTATION :: bool
  ALLOC_DEBUG :: bool

datatype log_line = Stats_line string AllocStats | Dealloc_null | Bad_free addr

record thread_env =
  tl_alloc_stats :: AllocStats
  tl_live :: "addr set"
  stderr :: "log_line list"

definition AllocStats_zero :: AllocStats where
  "AllocStats_zero = \<lparr>allocs = 0, deallocs = 0, refills = 0, flushes = 0, refill_blocks = 0, flush_blocks = 0\<rparr>"

definition thread_env_new :: thread_env where
  "thread_env_new = \<lparr>tl_alloc_stats = AllocStats_zero, tl_live = {}, stderr = []\<rparr>"

text \<open>The macros. A field is named by its update function, for example \<open>allocs_update\<close>.\<close>

definition ALLOC_STAT_ADD ::
  "build \<Rightarrow> ((u64 \<Rightarrow> u64) \<Rightarrow> AllocStats \<Rightarrow> AllocStats) \<Rightarrow> u64 \<Rightarrow> thread_env \<Rightarrow> thread_env" where
  "ALLOC_STAT_ADD cfg field n e =
     (if ALLOC_INSTRUMENTATION cfg then e\<lparr>tl_alloc_stats := field (\<lambda>x. x + n) (tl_alloc_stats e)\<rparr> else e)"

definition ALLOC_STAT_INC ::
  "build \<Rightarrow> ((u64 \<Rightarrow> u64) \<Rightarrow> AllocStats \<Rightarrow> AllocStats) \<Rightarrow> thread_env \<Rightarrow> thread_env" where
  "ALLOC_STAT_INC cfg field e = ALLOC_STAT_ADD cfg field 1 e"

definition ALLOC_STAT_GET :: "build \<Rightarrow> thread_env \<Rightarrow> AllocStats" where
  "ALLOC_STAT_GET cfg e = (if ALLOC_INSTRUMENTATION cfg then tl_alloc_stats e else AllocStats_zero)"

definition alloc_stats_dump :: "build \<Rightarrow> string \<Rightarrow> thread_env \<Rightarrow> thread_env" where
  "alloc_stats_dump cfg label e =
     (if ALLOC_INSTRUMENTATION cfg then e\<lparr>stderr := stderr e @ [Stats_line label (tl_alloc_stats e)]\<rparr> else e)"

definition alloc_debug_on_alloc :: "addr \<Rightarrow> thread_env \<Rightarrow> thread_env" where
  "alloc_debug_on_alloc p e = (if p \<noteq> nullptr then e\<lparr>tl_live := insert p (tl_live e)\<rparr> else e)"

definition alloc_debug_on_dealloc :: "addr \<Rightarrow> thread_env \<Rightarrow> bool \<times> thread_env" where
  "alloc_debug_on_dealloc p e =
     (if p = nullptr then (False, e\<lparr>stderr := stderr e @ [Dealloc_null]\<rparr>)
      else if p \<notin> tl_live e then (False, e\<lparr>stderr := stderr e @ [Bad_free p]\<rparr>)
      else (True, e\<lparr>tl_live := tl_live e - {p}\<rparr>))"

definition ALLOC_DEBUG_ON_ALLOC :: "build \<Rightarrow> addr \<Rightarrow> thread_env \<Rightarrow> thread_env" where
  "ALLOC_DEBUG_ON_ALLOC cfg p e = (if ALLOC_DEBUG cfg then alloc_debug_on_alloc p e else e)"

definition ALLOC_DEBUG_ON_DEALLOC :: "build \<Rightarrow> addr \<Rightarrow> thread_env \<Rightarrow> thread_env" where
  "ALLOC_DEBUG_ON_DEALLOC cfg p e = (if ALLOC_DEBUG cfg then snd (alloc_debug_on_dealloc p e) else e)"

lemmas stat_defs = ALLOC_STAT_INC_def ALLOC_STAT_ADD_def ALLOC_DEBUG_ON_ALLOC_def ALLOC_DEBUG_ON_DEALLOC_def
  alloc_debug_on_alloc_def alloc_debug_on_dealloc_def

end
