(* ===== verification/Thread_Cache.thy ===== *)
theory Thread_Cache
  imports Freelist Alloc_Stats
begin

text \<open>
  \<^verbatim>\<open>ThreadCache\<close> (include/tl\_freelist\_allocator.hpp, src/tl\_freelist\_allocator.cpp): a private list
  of free blocks in front of a shared \<^verbatim>\<open>FreelistAllocator\<close>, refilled and flushed in batches at two
  watermarks. The shared freelists live in a store, named by numbers that stand for their addresses, so
  that several caches and several allocators can refer to the same one.
\<close>

section \<open>Data and operations\<close>

record ThreadCache =
  local_head :: addr
  local_size :: u64
  batch_size :: u64
  low_watermark :: u64
  high_watermark :: u64
  global :: nat

record store =
  blk :: heap
  lists :: "nat \<rightharpoonup> FreelistAllocator"

type_synonym tc_state = "store \<times> ThreadCache \<times> thread_env"

definition ThreadCache_new :: "nat \<Rightarrow> u64 \<Rightarrow> ThreadCache" where
  "ThreadCache_new global_alloc batch =
     \<lparr>local_head = nullptr, local_size = 0, batch_size = batch, low_watermark = batch div 2,
      high_watermark = batch * 2, global = global_alloc\<rparr>"

text \<open>The walk to the end of the batch in \<^verbatim>\<open>refill\<close>.\<close>

partial_function (option) tail_walk :: "heap \<Rightarrow> addr \<Rightarrow> u64 \<Rightarrow> (addr \<times> u64) option" where
  "tail_walk h tail count =
     do { nxt \<leftarrow> get_next h tail;
          if nxt \<noteq> nullptr then tail_walk h nxt (count + 1) else Some (tail, count) }"

definition refill :: "build \<Rightarrow> tc_state \<Rightarrow> tc_state option" where
  "refill cfg = (\<lambda>(st, tc, env).
     do { g \<leftarrow> lists st (global tc);
          (batch, g', h) \<leftarrow> pop_bulk g (blk st) (batch_size tc);
          let st' = st\<lparr>blk := h, lists := (lists st)(global tc \<mapsto> g')\<rparr>;
          if batch = nullptr then Some (st', tc, env)
          else do { (tail, count) \<leftarrow> tail_walk h batch 1;
                    h' \<leftarrow> set_next h tail (local_head tc);
                    Some (st'\<lparr>blk := h'\<rparr>,
                          tc\<lparr>local_head := batch, local_size := local_size tc + count\<rparr>,
                          ALLOC_STAT_ADD cfg refill_blocks_update count (ALLOC_STAT_INC cfg refills_update env)) } })"

text \<open>The walk over the first \<^verbatim>\<open>excess\<close> blocks in \<^verbatim>\<open>flush\<close>.\<close>

function flush_walk :: "heap \<Rightarrow> addr \<Rightarrow> u64 \<Rightarrow> u64 \<Rightarrow> (addr \<times> u64) option" where
  "flush_walk h batch_tail count excess =
     (if count < excess
      then do { nxt \<leftarrow> get_next h batch_tail;
                if nxt \<noteq> nullptr then flush_walk h nxt (count + 1) excess else Some (batch_tail, count) }
      else Some (batch_tail, count))"
  by pat_completeness auto
termination
  by (relation "measure (\<lambda>(h, batch_tail, count, excess). unat excess - unat count)")
    (auto intro: unat_inc_less)

declare flush_walk.simps [simp del]

definition flush :: "build \<Rightarrow> u64 \<Rightarrow> tc_state \<Rightarrow> tc_state option" where
  "flush cfg excess = (\<lambda>(st, tc, env).
     if local_head tc = nullptr \<or> excess = 0 then Some (st, tc, env)
     else do { let batch_head = local_head tc;
               (batch_tail, count) \<leftarrow> flush_walk (blk st) (local_head tc) 1 excess;
               nxt \<leftarrow> get_next (blk st) batch_tail;
               h \<leftarrow> set_next (blk st) batch_tail nullptr;
               let tc' = tc\<lparr>local_head := nxt, local_size := local_size tc - count\<rparr>;
               g \<leftarrow> lists st (global tc);
               (g', h') \<leftarrow> push_bulk g h batch_head batch_tail;
               Some (st\<lparr>blk := h', lists := (lists st)(global tc \<mapsto> g')\<rparr>, tc',
                     ALLOC_STAT_ADD cfg flush_blocks_update count (ALLOC_STAT_INC cfg flushes_update env)) })"

definition tc_alloc :: "build \<Rightarrow> tc_state \<Rightarrow> (addr \<times> tc_state) option" where
  "tc_alloc cfg = (\<lambda>(st, tc, env).
     do { (st1, tc1, env1) \<leftarrow>
            (if local_size tc \<le> low_watermark tc then refill cfg (st, tc, env) else Some (st, tc, env));
          if local_head tc1 = nullptr then Some (nullptr, st1, tc1, env1)
          else do { let block = local_head tc1;
                    nxt \<leftarrow> get_next (blk st1) block;
                    Some (block, st1, tc1\<lparr>local_head := nxt, local_size := local_size tc1 - 1\<rparr>,
                          ALLOC_DEBUG_ON_ALLOC cfg block (ALLOC_STAT_INC cfg allocs_update env1)) } })"

definition tc_dealloc :: "build \<Rightarrow> tc_state \<Rightarrow> addr \<Rightarrow> tc_state option" where
  "tc_dealloc cfg = (\<lambda>(st, tc, env) p.
     if p = nullptr then Some (st, tc, env)
     else do { let env' = ALLOC_DEBUG_ON_DEALLOC cfg p (ALLOC_STAT_INC cfg deallocs_update env);
               h \<leftarrow> set_next (blk st) p (local_head tc);
               let tc' = tc\<lparr>local_head := p, local_size := local_size tc + 1\<rparr>;
               if high_watermark tc' < local_size tc'
               then flush cfg (local_size tc' - batch_size tc') (st\<lparr>blk := h\<rparr>, tc', env')
               else Some (st\<lparr>blk := h\<rparr>, tc', env') })"

section \<open>The two lists behind a cache\<close>

text \<open>\<open>tc_rel st tc gs ls\<close>: the shared freelist holds \<open>gs\<close> and the cache holds \<open>ls\<close>.\<close>

definition tc_rel :: "store \<Rightarrow> ThreadCache \<Rightarrow> addr list \<Rightarrow> addr list \<Rightarrow> bool" where
  "tc_rel st tc gs ls =
     ((\<exists>g. lists st (global tc) = Some g \<and> fl_holds g (blk st) gs \<and> \<not> bulk_lock g)
      \<and> chain (blk st) (local_head tc) ls \<and> set gs \<inter> set ls = {} \<and> unat (local_size tc) = length ls
      \<and> nullptr \<notin> dom (blk st))"

text \<open>What an operation may change: cells of the given blocks and the one shared freelist.\<close>

definition touches :: "addr set \<Rightarrow> nat \<Rightarrow> store \<Rightarrow> store \<Rightarrow> bool" where
  "touches A i st st' = (dom (blk st') = dom (blk st) \<and> (\<forall>x. x \<notin> A \<longrightarrow> blk st' x = blk st x)
     \<and> dom (lists st') = dom (lists st) \<and> (\<forall>j. j \<noteq> i \<longrightarrow> lists st' j = lists st j))"

lemma touches_refl [simp]: "touches A i st st"
  by (simp add: touches_def)

lemma touches_trans: "touches A i st st' \<Longrightarrow> touches B i st' st'' \<Longrightarrow> touches (A \<union> B) i st st''"
  by (auto simp: touches_def)

lemma touches_mono: "touches A i st st' \<Longrightarrow> A \<subseteq> B \<Longrightarrow> touches B i st st'"
  by (auto simp: touches_def)

lemma tc_rel_bound:
  assumes "tc_rel st tc gs ls"
  shows "length gs + length ls < 2 ^ 64" "distinct (gs @ ls)" "nullptr \<notin> set (gs @ ls)" "set (gs @ ls) \<subseteq> dom (blk st)"
proof -
  obtain g where g: "fl_holds g (blk st) gs" and c: "chain (blk st) (local_head tc) ls" and d: "set gs \<inter> set ls = {}"
    using assms by (auto simp: tc_rel_def)
  show dist: "distinct (gs @ ls)" using fl_holds_distinct [OF g] chain_distinct [OF c] d by simp
  show nn: "nullptr \<notin> set (gs @ ls)" and "set (gs @ ls) \<subseteq> dom (blk st)"
    using fl_holds_dom [OF g] seg_nonnull [OF c] seg_dom [OF c] by auto
  show "length gs + length ls < 2 ^ 64" using distinct_nonnull_length [OF dist nn] by simp
qed

lemma tail_walk_chain:
  "chain h p (xs @ [t]) \<Longrightarrow> tail_walk h p c = Some (t, c + of_nat (length xs))"
proof (induction xs arbitrary: p c)
  case Nil
  then show ?case by (subst tail_walk.simps) (auto split: option.splits)
next
  case (Cons x xs)
  then obtain n where n: "p = x" "x \<noteq> nullptr" "h x = Some n" "chain h n (xs @ [t])"
    by (auto split: option.splits)
  moreover have "n \<noteq> nullptr" using n(4) by auto
  ultimately show ?case using Cons.IH [OF n(4), of "c + 1"]
    by (subst tail_walk.simps) (simp add: algebra_simps)
qed

lemma flush_walk_chain:
  assumes "chain h p (x # xs)" "0 < unat c" "unat c + length xs < 2 ^ 64" "c \<le> e"
  shows "flush_walk h p c e =
    (let m = min (unat e - unat c) (length xs) in Some ((x # xs) ! m, c + of_nat m))"
  using assms
proof (induction xs arbitrary: p c x)
  case Nil
  then show ?case by (subst flush_walk.simps) (auto simp: Let_def split: option.splits)
next
  case (Cons y ys)
  show ?case
  proof (cases "c < e")
    case False
    then have "unat e - unat c = 0" by (simp add: word_less_nat_alt)
    with False Cons.prems(1) show ?thesis by (subst flush_walk.simps) (auto simp: Let_def)
  next
    case True
    have n: "p = x" "x \<noteq> nullptr" "h x = Some y" "chain h y (y # ys)" "y \<noteq> nullptr"
      using Cons.prems(1) by (auto split: option.splits)
    have c1: "unat (c + 1) = unat c + 1" by (rule unat_plus1_64 [OF True])
    then have "0 < unat (c + 1)" "unat (c + 1) + length ys < 2 ^ 64" "c + 1 \<le> e"
      using Cons.prems(3) True by (auto simp: word_le_nat_alt word_less_nat_alt)
    note IH = Cons.IH [OF n(4) this]
    have "unat e - unat c = Suc (unat e - unat (c + 1))" using c1 True by (simp add: word_less_nat_alt)
    with IH n(1-3,5) True show ?thesis
      by (subst flush_walk.simps) (simp add: Let_def algebra_simps)
  qed
qed

section \<open>Refinement of the operations\<close>

definition same_limits :: "ThreadCache \<Rightarrow> ThreadCache \<Rightarrow> bool" where
  "same_limits tc tc' = (batch_size tc' = batch_size tc \<and> low_watermark tc' = low_watermark tc
     \<and> high_watermark tc' = high_watermark tc \<and> global tc' = global tc)"

lemma same_limits_upd [simp]: "same_limits tc (tc\<lparr>local_head := p, local_size := n\<rparr>)"
  by (simp add: same_limits_def)

lemma same_limits_trans: "same_limits a b \<Longrightarrow> same_limits b c \<Longrightarrow> same_limits a c"
  by (simp add: same_limits_def)

lemma chain_splice:
  assumes "chain h p (zs @ [t])" "chain h q ls" "t \<notin> set ls"
  shows "chain (h(t \<mapsto> q)) p ((zs @ [t]) @ ls)"
proof -
  have "seg (h(t \<mapsto> q)) p (zs @ [t]) q" by (rule seg_snoc_upd [OF assms(1) chain_distinct [OF assms(1)]])
  then show ?thesis unfolding seg_append [of _ _ "zs @ [t]"] using assms(2,3) by auto
qed

definition refill_env :: "build \<Rightarrow> nat \<Rightarrow> thread_env \<Rightarrow> thread_env" where
  "refill_env cfg n env = (if n = 0 then env else
     ALLOC_STAT_ADD cfg refill_blocks_update (of_nat n) (ALLOC_STAT_INC cfg refills_update env))"

lemma refill_rel:
  assumes r: "tc_rel st tc gs ls"
  defines "b \<equiv> take (max 1 (unat (batch_size tc))) gs" and "gs' \<equiv> drop (max 1 (unat (batch_size tc))) gs"
  shows "\<exists>st' tc'. refill cfg (st, tc, env) = Some (st', tc', refill_env cfg (length b) env)
     \<and> tc_rel st' tc' gs' (b @ ls) \<and> touches (set b) (global tc) st st' \<and> same_limits tc tc'"
proof -
  have bg: "gs = b @ gs'" unfolding b_def gs'_def by simp
  obtain g where g: "lists st (global tc) = Some g" "fl_holds g (blk st) gs" "\<not> bulk_lock g"
    and c: "chain (blk st) (local_head tc) ls" and d: "set gs \<inter> set ls = {}"
    and sz: "unat (local_size tc) = length ls" and nn: "nullptr \<notin> dom (blk st)"
    using r by (auto simp: tc_rel_def)
  obtain start g' h where p: "pop_bulk g (blk st) (batch_size tc) = Some (start, g', h)" "\<not> bulk_lock g'"
    "chain h start b" "fl_holds g' h gs'" "dom h = dom (blk st)" "\<forall>x. x \<notin> set b \<longrightarrow> h x = blk st x"
    using pop_bulk_holds [OF g(2,3), of "batch_size tc"] unfolding b_def gs'_def by blast
  let ?st = "st\<lparr>blk := h, lists := (lists st)(global tc \<mapsto> g')\<rparr>"
  have "h x = blk st x" if "x \<in> set ls" for x using that p(6) d bg by auto
  then have cl: "chain h (local_head tc) ls" using c seg_frame [of ls h "blk st"] by simp
  show ?thesis
  proof (cases b rule: rev_cases)
    case Nil
    with p(3) have "start = nullptr" by simp
    then have "refill cfg (st, tc, env) = Some (?st, tc, env)" using g(1) p(1) by (simp add: refill_def Let_def)
    moreover have "tc_rel ?st tc gs' ls" using p d bg cl sz nn by (auto simp: tc_rel_def)
    moreover have "touches {} (global tc) st ?st" using p Nil g(1) by (auto simp: touches_def)
    ultimately show ?thesis using Nil by (simp add: refill_env_def same_limits_def)
  next
    case (snoc zs t)
    let ?tc = "tc\<lparr>local_head := start, local_size := local_size tc + (1 + of_nat (length zs))\<rparr>"
    let ?h = "h(t \<mapsto> local_head tc)"
    have t: "t \<noteq> nullptr" "t \<in> dom h" "t \<notin> set ls" "t \<notin> set gs'"
      using seg_last [of h start zs t] p(3) snoc d bg tc_rel_bound(2) [OF r] by auto
    then have "start \<noteq> nullptr" using p(3) snoc by auto
    moreover have tw: "tail_walk h start 1 = Some (t, 1 + of_nat (length zs))"
      using tail_walk_chain p(3) snoc by blast
    ultimately have "refill cfg (st, tc, env) = Some (?st\<lparr>blk := ?h\<rparr>, ?tc, refill_env cfg (length b) env)"
      using g(1) p(1) t snoc by (auto simp: refill_def refill_env_def Let_def domIff add.commute)
    moreover have "chain ?h start (b @ ls)" using chain_splice [of h start zs t] p(3) cl t(3) snoc by simp
    moreover have "fl_holds g' ?h gs'" using p(4) t(4) by (simp add: fl_holds_def)
    moreover have "unat (local_size ?tc) = length (b @ ls)"
    proof -
      have "length zs < 2 ^ 64" "length ls + (1 + length zs) < 2 ^ 64" using tc_rel_bound(1) [OF r] bg snoc by simp_all
      moreover from this have "unat (1 + of_nat (length zs) :: u64) = 1 + length zs"
        using unat_plus_64 [of 1 "of_nat (length zs)"] unat_of_nat_64 [of "length zs"] by simp
      ultimately show ?thesis using unat_plus_64 [of "local_size tc" "1 + of_nat (length zs)"] sz snoc by simp
    qed
    moreover have "set gs' \<inter> set (b @ ls) = {}" using d tc_rel_bound(2) [OF r] bg by auto
    moreover have "touches (set b) (global tc) st (?st\<lparr>blk := ?h\<rparr>)"
      using p g(1) snoc t(2) by (auto simp: touches_def)
    ultimately show ?thesis using p(2,5) t(2) nn by (auto simp: tc_rel_def)
  qed
qed

definition flush_env :: "build \<Rightarrow> nat \<Rightarrow> thread_env \<Rightarrow> thread_env" where
  "flush_env cfg n env = (if n = 0 then env else
     ALLOC_STAT_ADD cfg flush_blocks_update (of_nat n) (ALLOC_STAT_INC cfg flushes_update env))"

lemma flush_walk_split:
  assumes "chain h p ls" "ls \<noteq> []" "length ls < 2 ^ 64" "0 < unat k"
  obtains ys bt q where "take (min (unat k) (length ls)) ls = ys @ [bt]"
    "flush_walk h p 1 k = Some (bt, of_nat (length (ys @ [bt])))"
    "seg h p (ys @ [bt]) q" "chain h q (drop (min (unat k) (length ls)) ls)"
proof -
  obtain x xs where ls: "ls = x # xs" using assms(2) by (cases ls) auto
  let ?m = "min (unat k - unat (1 :: u64)) (length xs)"
  have m: "min (unat k) (length ls) = Suc ?m" using assms(4) ls by (auto simp: min_def)
  have "1 \<le> k" using assms(4) by (simp add: word_le_nat_alt)
  then have w: "flush_walk h p 1 k = Some (ls ! ?m, 1 + of_nat ?m)"
    using flush_walk_chain [of h p x xs 1 k] assms(1,3) ls by (simp add: Let_def)
  have "?m < length ls" using ls by simp
  then have t: "take (Suc ?m) ls = take ?m ls @ [ls ! ?m]" by (rule take_Suc_conv_app_nth)
  obtain q where "seg h p (take (Suc ?m) ls) q" "chain h q (drop (Suc ?m) ls)"
    using assms(1) seg_append [of h p "take (Suc ?m) ls" "drop (Suc ?m) ls" nullptr] by auto
  with that [of "take ?m ls" "ls ! ?m" q] t w m \<open>?m < length ls\<close> show thesis
    by (simp add: min.absorb2 algebra_simps)
qed

lemma flush_rel:
  fixes k :: u64
  assumes r: "tc_rel st tc gs ls"
  defines "b \<equiv> take (min (unat k) (length ls)) ls" and "ls' \<equiv> drop (min (unat k) (length ls)) ls"
  shows "\<exists>st' tc'. flush cfg k (st, tc, env) = Some (st', tc', flush_env cfg (length b) env)
     \<and> tc_rel st' tc' (rev b @ gs) ls' \<and> touches (set b) (global tc) st st' \<and> same_limits tc tc'"
proof (cases "ls = [] \<or> unat k = 0")
  case True
  then have "b = []" "ls' = ls" "local_head tc = nullptr \<or> k = 0"
    using r by (auto simp: b_def ls'_def tc_rel_def unat_eq_0)
  with r show ?thesis by (auto simp: flush_def flush_env_def same_limits_def)
next
  case False
  obtain g where g: "lists st (global tc) = Some g" "fl_holds g (blk st) gs" "\<not> bulk_lock g"
    and c: "chain (blk st) (local_head tc) ls" and d: "set gs \<inter> set ls = {}"
    and sz: "unat (local_size tc) = length ls" and nn: "nullptr \<notin> dom (blk st)"
    using r by (auto simp: tc_rel_def)
  have bls: "ls = b @ ls'" unfolding b_def ls'_def by simp
  have len: "length ls < 2 ^ 64" using tc_rel_bound(1) [OF r] by simp
  obtain ys bt q where w: "b = ys @ [bt]" "flush_walk (blk st) (local_head tc) 1 k = Some (bt, of_nat (length b))"
    "seg (blk st) (local_head tc) b q" "chain (blk st) q ls'"
    using flush_walk_split [OF c _ len, of k] False unfolding b_def ls'_def by (metis neq0_conv)
  have dist: "distinct b" "set b \<inter> set ls' = {}" "set gs \<inter> set b = {}"
    using tc_rel_bound(2) [OF r] bls by auto
  let ?h = "(blk st)(bt \<mapsto> nullptr)"
  have bt: "bt \<noteq> nullptr" "blk st bt = Some q" using seg_last w(1,3) by auto
  have "seg ?h (local_head tc) (ys @ [bt]) nullptr"
    using seg_snoc_upd [of "blk st" "local_head tc" ys bt q] w(1,3) dist(1) by simp
  moreover have "fl_holds g ?h gs" using g(2) dist(3) w(1) by (simp add: fl_holds_def)
  ultimately obtain g' h' where p: "push_bulk g ?h (local_head tc) bt = Some (g', h')" "fl_holds g' h' (rev b @ gs)"
    "\<not> bulk_lock g'" "dom h' = dom ?h" "\<forall>x. x \<notin> set b \<longrightarrow> h' x = ?h x"
    using push_bulk_holds [of ?h "local_head tc" ys bt nullptr g gs] g(3) dist w(1) by auto
  let ?st = "st\<lparr>blk := h', lists := (lists st)(global tc \<mapsto> g')\<rparr>"
  let ?tc = "tc\<lparr>local_head := q, local_size := local_size tc - of_nat (length b)\<rparr>"
  have "local_head tc \<noteq> nullptr" "k \<noteq> 0" using False c w(1,3) by (auto simp: unat_eq_0)
  then have "flush cfg k (st, tc, env) = Some (?st, ?tc, flush_env cfg (length b) env)"
    using w(1,2) bt g(1) p(1) by (simp add: flush_def flush_env_def Let_def domIff)
  moreover have "chain h' q ls'"
  proof -
    have "h' x = blk st x" if "x \<in> set ls'" for x using that p(5) dist(2) w(1) by auto
    then show ?thesis using w(4) seg_frame [of ls' h' "blk st"] by simp
  qed
  moreover have "unat (local_size ?tc) = length ls'"
  proof -
    have "unat (of_nat (length b) :: u64) = length b" using len bls by (intro unat_of_nat_64) simp
    moreover from this have "of_nat (length b) \<le> local_size tc" using sz bls by (simp add: word_le_nat_alt)
    ultimately show ?thesis using sz bls by (simp add: unat_minus_64)
  qed
  moreover have "set (rev b @ gs) \<inter> set ls' = {}" using dist d bls by auto
  moreover have "touches (set b) (global tc) st ?st" using p(4,5) bt(2) g(1) w(1) by (auto simp: touches_def)
  ultimately show ?thesis using p(2,3,4) bt(2) nn by (auto simp: tc_rel_def)
qed

subsection \<open>The abstract cache\<close>

text \<open>The shared list and the private list, and the four operations on them.\<close>

definition cache_refill :: "nat \<Rightarrow> addr list \<times> addr list \<Rightarrow> addr list \<times> addr list" where
  "cache_refill batch = (\<lambda>(gs, ls). (drop (max 1 batch) gs, take (max 1 batch) gs @ ls))"

definition cache_flush :: "nat \<Rightarrow> addr list \<times> addr list \<Rightarrow> addr list \<times> addr list" where
  "cache_flush k = (\<lambda>(gs, ls). (rev (take k ls) @ gs, drop k ls))"

definition cache_alloc :: "nat \<Rightarrow> addr list \<times> addr list \<Rightarrow> addr \<times> addr list \<times> addr list" where
  "cache_alloc batch s =
     (let (gs, ls) = (if length (snd s) \<le> batch div 2 then cache_refill batch s else s)
      in case ls of [] \<Rightarrow> (nullptr, gs, []) | x # xs \<Rightarrow> (x, gs, xs))"

definition cache_dealloc :: "nat \<Rightarrow> addr \<Rightarrow> addr list \<times> addr list \<Rightarrow> addr list \<times> addr list" where
  "cache_dealloc batch p = (\<lambda>(gs, ls).
     if 2 * batch < length ls + 1 then cache_flush (length ls + 1 - batch) (gs, p # ls) else (gs, p # ls))"

text \<open>The watermarks the constructor sets, when doubling the batch size does not wrap around.\<close>

definition limits_ok :: "ThreadCache \<Rightarrow> bool" where
  "limits_ok tc = (unat (low_watermark tc) = unat (batch_size tc) div 2
     \<and> unat (high_watermark tc) = 2 * unat (batch_size tc))"

lemma limits_new: "2 * unat batch < 2 ^ 64 \<Longrightarrow> limits_ok (ThreadCache_new i batch)"
  using unat_times_64 [of batch 2] by (simp add: limits_ok_def ThreadCache_new_def unat_div)

lemma limits_same: "same_limits tc tc' \<Longrightarrow> limits_ok tc' = limits_ok tc"
  by (simp add: same_limits_def limits_ok_def)

lemma tc_alloc_refines:
  assumes r: "tc_rel st tc gs ls" and lim: "limits_ok tc"
    and a: "cache_alloc (unat (batch_size tc)) (gs, ls) = (p, gs', ls')"
  shows "\<exists>st' tc' env'. tc_alloc cfg (st, tc, env) = Some (p, st', tc', env') \<and> tc_rel st' tc' gs' ls'
     \<and> touches (set gs) (global tc) st st' \<and> same_limits tc tc'"
proof -
  let ?b = "unat (batch_size tc)"
  let ?s = "if length ls \<le> ?b div 2 then cache_refill ?b (gs, ls) else (gs, ls)"
  have low: "local_size tc \<le> low_watermark tc \<longleftrightarrow> length ls \<le> ?b div 2"
    using r lim by (simp add: word_le_nat_alt tc_rel_def limits_ok_def)
  obtain st1 tc1 env1 where s1: "(if local_size tc \<le> low_watermark tc then refill cfg (st, tc, env) else Some (st, tc, env))
      = Some (st1, tc1, env1)" "tc_rel st1 tc1 (fst ?s) (snd ?s)" "touches (set gs) (global tc) st st1" "same_limits tc tc1"
  proof (cases "length ls \<le> ?b div 2")
    case True
    from refill_rel [OF r, of cfg env] obtain st1 tc1 where
      st1: "refill cfg (st, tc, env) = Some (st1, tc1, refill_env cfg (length (take (max 1 ?b) gs)) env)"
      "tc_rel st1 tc1 (fst ?s) (snd ?s)" "touches (set (take (max 1 ?b) gs)) (global tc) st st1" "same_limits tc tc1"
      using True by (auto simp: cache_refill_def)
    have "touches (set gs) (global tc) st st1" by (rule touches_mono [OF st1(3) set_take_subset])
    with that st1 True low show thesis by simp
  next
    case False
    with that [of st tc env] r low show thesis by (simp add: same_limits_def)
  qed
  show ?thesis
  proof (cases "snd ?s")
    case Nil
    then have "(p, gs', ls') = (nullptr, fst ?s, [])" using a by (simp add: cache_alloc_def split_beta Let_def)
    moreover have "local_head tc1 = nullptr" using s1(2) Nil by (simp add: tc_rel_def)
    ultimately show ?thesis using s1 Nil by (simp add: tc_alloc_def)
  next
    case (Cons x xs)
    then have res: "p = x" "gs' = fst ?s" "ls' = xs" using a by (simp_all add: cache_alloc_def split_beta Let_def)
    let ?tc = "tc1\<lparr>local_head := the (blk st1 x), local_size := local_size tc1 - 1\<rparr>"
    have h: "local_head tc1 = x" "x \<noteq> nullptr" "x \<in> dom (blk st1)" "chain (blk st1) (the (blk st1 x)) xs"
      using s1(2) Cons by (auto simp: tc_rel_def split: option.splits)
    have "unat (local_size tc1) = Suc (length xs)" using s1(2) Cons by (simp add: tc_rel_def)
    moreover from this have "1 \<le> local_size tc1" by (simp add: word_le_nat_alt)
    ultimately have "unat (local_size tc1 - 1) = length xs" by (simp add: unat_minus_64)
    then have "tc_rel st1 ?tc gs' ls'" using s1(2) h Cons res by (auto simp: tc_rel_def)
    moreover have "tc_alloc cfg (st, tc, env) = Some (x, st1, ?tc, ALLOC_DEBUG_ON_ALLOC cfg x (ALLOC_STAT_INC cfg allocs_update env1))"
      using s1(1) h by (auto simp: tc_alloc_def Let_def)
    ultimately show ?thesis using s1(3,4) res same_limits_trans same_limits_upd by blast
  qed
qed

lemma tc_dealloc_refines:
  assumes r: "tc_rel st tc gs ls" and lim: "limits_ok tc" and p: "p \<in> dom (blk st)" "p \<notin> set (gs @ ls)"
    and d: "cache_dealloc (unat (batch_size tc)) p (gs, ls) = (gs', ls')"
  shows "\<exists>st' tc' env'. tc_dealloc cfg (st, tc, env) p = Some (st', tc', env') \<and> tc_rel st' tc' gs' ls'
     \<and> touches (insert p (set ls)) (global tc) st st' \<and> same_limits tc tc'"
proof -
  let ?b = "unat (batch_size tc)"
  let ?st = "st\<lparr>blk := (blk st)(p \<mapsto> local_head tc)\<rparr>" and ?tc = "tc\<lparr>local_head := p, local_size := local_size tc + 1\<rparr>"
  let ?env = "ALLOC_DEBUG_ON_DEALLOC cfg p (ALLOC_STAT_INC cfg deallocs_update env)"
  have nn: "p \<noteq> nullptr" using r p(1) by (auto simp: tc_rel_def)
  have "distinct (p # gs @ ls)" using tc_rel_bound(2) [OF r] p(2) by simp
  moreover have "nullptr \<notin> set (p # gs @ ls)" using tc_rel_bound(3) [OF r] nn by simp
  ultimately have "length (p # gs @ ls) < 2 ^ 64"
    by (rule distinct_nonnull_length)
  then have sz: "unat (local_size tc + 1) = length (p # ls)"
    using r unat_plus_64 [of "local_size tc" 1] by (simp add: tc_rel_def)
  have r1: "tc_rel ?st ?tc gs (p # ls)"
    using r p nn sz by (auto simp: tc_rel_def fl_holds_def)
  have t1: "touches {p} (global tc) st ?st" using p(1) by (auto simp: touches_def)
  have high: "high_watermark tc < local_size tc + 1 \<longleftrightarrow> 2 * ?b < length ls + 1"
    using lim sz by (simp add: word_less_nat_alt limits_ok_def)
  have un: "tc_dealloc cfg (st, tc, env) p = (if 2 * ?b < length ls + 1
      then flush cfg (local_size tc + 1 - batch_size tc) (?st, ?tc, ?env) else Some (?st, ?tc, ?env))"
    using nn p(1) high by (auto simp: tc_dealloc_def Let_def set_next_def)
  show ?thesis
  proof (cases "2 * ?b < length ls + 1")
    case False
    then show ?thesis using un r1 t1 d touches_mono [OF t1] by (auto simp: cache_dealloc_def same_limits_def)
  next
    case True
    have "batch_size tc \<le> local_size tc + 1" using True sz by (simp add: word_le_nat_alt)
    then have k: "unat (local_size tc + 1 - batch_size tc) = length ls + 1 - ?b" using sz by (simp add: unat_minus_64)
    then have m: "min (unat (local_size tc + 1 - batch_size tc)) (length (p # ls)) = length ls + 1 - ?b" by simp
    from flush_rel [OF r1, where k = "local_size tc + 1 - batch_size tc" and cfg = cfg and env = ?env] obtain st' tc' env' where
      f: "flush cfg (local_size tc + 1 - batch_size tc) (?st, ?tc, ?env) = Some (st', tc', env')"
        "tc_rel st' tc' (rev (take (length ls + 1 - ?b) (p # ls)) @ gs) (drop (length ls + 1 - ?b) (p # ls))"
        "touches (set (take (length ls + 1 - ?b) (p # ls))) (global tc) ?st st'" "same_limits ?tc tc'"
      unfolding m by auto
    have "touches (insert p (set ls)) (global tc) st st'"
      by (rule touches_mono [OF touches_trans [OF t1 f(3)]]) (use set_take_subset in fastforce)
    moreover have "same_limits tc tc'" using f(4) by (simp add: same_limits_def)
    ultimately show ?thesis using un True f(1,2) d by (auto simp: cache_dealloc_def cache_flush_def)
  qed
qed

section \<open>A cache with its shared list is a complete pool\<close>

definition tc_invar :: "tc_state \<Rightarrow> bool" where
  "tc_invar = (\<lambda>(st, tc, env). limits_ok tc \<and> (\<exists>gs ls. tc_rel st tc gs ls))"

definition tc_blocks :: "tc_state \<Rightarrow> addr set" where
  "tc_blocks = (\<lambda>(st, tc, env). dom (blk st))"

definition tc_free :: "tc_state \<Rightarrow> addr set" where
  "tc_free = (\<lambda>(st, tc, env). {x. \<exists>gs ls. tc_rel st tc gs ls \<and> x \<in> set gs \<union> set ls})"

lemma tc_rel_unique: "tc_rel st tc gs ls \<Longrightarrow> tc_rel st tc gs' ls' \<Longrightarrow> gs' = gs \<and> ls' = ls"
  unfolding tc_rel_def by (metis fl_holds_unique chain_unique option.inject)

lemma tc_rel_free: "tc_rel st tc gs ls \<Longrightarrow> tc_free (st, tc, env) = set gs \<union> set ls"
  by (auto simp: tc_free_def dest: tc_rel_unique)

lemma cache_alloc_sets:
  assumes "cache_alloc b (gs, ls) = (p, gs', ls')" "distinct (gs @ ls)" "nullptr \<notin> set (gs @ ls)"
  shows "p = nullptr \<longleftrightarrow> gs = [] \<and> ls = []" "set gs' \<union> set ls' = set gs \<union> set ls - {p}"
    "p \<noteq> nullptr \<Longrightarrow> p \<in> set gs \<union> set ls"
proof -
  let ?s = "if length ls \<le> b div 2 then cache_refill b (gs, ls) else (gs, ls)"
  obtain g l where s: "?s = (g, l)" by (cases ?s)
  have all: "set g \<union> set l = set gs \<union> set ls" "distinct (g @ l)"
    and emp: "l = [] \<longleftrightarrow> gs = [] \<and> ls = []"
    using s assms(2) set_append [of "take (max 1 b) gs" "drop (max 1 b) gs"]
      distinct_append [of "take (max 1 b) gs" "drop (max 1 b) gs"]
    by (auto simp: cache_refill_def split: if_splits dest: in_set_takeD in_set_dropD)
  have res: "(p, gs', ls') = (case l of [] \<Rightarrow> (nullptr, g, []) | x # xs \<Rightarrow> (x, g, xs))"
    using assms(1) s by (simp add: cache_alloc_def)
  show "p = nullptr \<longleftrightarrow> gs = [] \<and> ls = []" "set gs' \<union> set ls' = set gs \<union> set ls - {p}"
    "p \<noteq> nullptr \<Longrightarrow> p \<in> set gs \<union> set ls"
    using res all emp assms(3) by (cases l; auto)+
qed

lemma cache_dealloc_sets:
  assumes "cache_dealloc b p (gs, ls) = (gs', ls')"
  shows "set gs' \<union> set ls' = insert p (set gs \<union> set ls)"
proof -
  let ?k = "length ls + 1 - b"
  have "set (take ?k (p # ls) @ drop ?k (p # ls)) = insert p (set ls)"
    by (simp only: append_take_drop_id list.simps(15))
  then have all: "set (take ?k (p # ls)) \<union> set (drop ?k (p # ls)) = insert p (set ls)" by (simp only: set_append)
  show ?thesis
  proof (cases "2 * b < length ls + 1")
    case True
    then have "gs' = rev (take ?k (p # ls)) @ gs" "ls' = drop ?k (p # ls)"
      using assms by (simp_all add: cache_dealloc_def cache_flush_def)
    then have "set gs' \<union> set ls' = (set (take ?k (p # ls)) \<union> set (drop ?k (p # ls))) \<union> set gs"
      by (simp only: set_append set_rev) blast
    then show ?thesis unfolding all by blast
  qed (use assms in \<open>auto simp: cache_dealloc_def\<close>)
qed

lemma tc_invar_rel:
  assumes "tc_invar s"
  obtains st tc env gs ls where "s = (st, tc, env)" "limits_ok tc" "tc_rel st tc gs ls" "tc_free s = set gs \<union> set ls"
  using assms by (cases s) (auto simp: tc_invar_def tc_rel_free)

lemma tc_alloc_cases:
  assumes "tc_invar s"
  shows "\<exists>p s'. tc_alloc cfg s = Some (p, s') \<and> tc_invar s' \<and> tc_blocks s' = tc_blocks s
      \<and> (p = nullptr \<longleftrightarrow> tc_free s = {}) \<and> tc_free s' = tc_free s - {p} \<and> (p \<noteq> nullptr \<longrightarrow> p \<in> tc_free s)"
  using assms
proof (rule tc_invar_rel)
  fix st tc env gs ls
  assume s: "s = (st, tc, env)" and r: "limits_ok tc" "tc_rel st tc gs ls" and f: "tc_free s = set gs \<union> set ls"
  obtain p gs' ls' where c: "cache_alloc (unat (batch_size tc)) (gs, ls) = (p, gs', ls')" by (metis prod_cases3)
  obtain st' tc' env' where a: "tc_alloc cfg (st, tc, env) = Some (p, st', tc', env')" "tc_rel st' tc' gs' ls'"
    "touches (set gs) (global tc) st st'" "same_limits tc tc'"
    using tc_alloc_refines [OF r(2,1) c] by blast
  have "tc_invar (st', tc', env')" using a(2,4) r(1) limits_same by (auto simp: tc_invar_def)
  moreover have "tc_blocks (st', tc', env') = tc_blocks s" using a(3) s by (simp add: tc_blocks_def touches_def)
  moreover have "tc_free (st', tc', env') = set gs' \<union> set ls'" by (rule tc_rel_free [OF a(2)])
  ultimately show ?thesis
    using a(1) cache_alloc_sets [OF c tc_rel_bound(2,3) [OF r(2)]] f unfolding s by auto
qed

lemma tc_dealloc_used:
  assumes "tc_invar s" and p: "p \<in> tc_blocks s - tc_free s"
  shows "\<exists>s'. tc_dealloc cfg s p = Some s' \<and> tc_invar s' \<and> tc_blocks s' = tc_blocks s \<and> tc_free s' = insert p (tc_free s)"
  using assms(1)
proof (rule tc_invar_rel)
  fix st tc env gs ls
  assume s: "s = (st, tc, env)" and r: "limits_ok tc" "tc_rel st tc gs ls" and f: "tc_free s = set gs \<union> set ls"
  have pd: "p \<in> dom (blk st)" "p \<notin> set (gs @ ls)" using p f unfolding s by (auto simp: tc_blocks_def)
  obtain gs' ls' where c: "cache_dealloc (unat (batch_size tc)) p (gs, ls) = (gs', ls')" by (metis surj_pair)
  obtain st' tc' env' where d: "tc_dealloc cfg (st, tc, env) p = Some (st', tc', env')" "tc_rel st' tc' gs' ls'"
    "touches (insert p (set ls)) (global tc) st st'" "same_limits tc tc'"
    using tc_dealloc_refines [OF r(2,1) pd c] by blast
  have "tc_invar (st', tc', env')" using d(2,4) r(1) limits_same by (auto simp: tc_invar_def)
  moreover have "tc_blocks (st', tc', env') = tc_blocks s" using d(3) s by (simp add: tc_blocks_def touches_def)
  moreover have "tc_free (st', tc', env') = set gs' \<union> set ls'" by (rule tc_rel_free [OF d(2)])
  ultimately show ?thesis using d(1) cache_dealloc_sets [OF c] f unfolding s by auto
qed

interpretation tc: complete_pool "tc_alloc cfg" "tc_dealloc cfg" tc_invar tc_blocks tc_free for cfg
proof
  fix s assume inv: "tc_invar s"
  then show "tc_free s \<subseteq> tc_blocks s"
    by (rule tc_invar_rel) (simp add: tc_blocks_def tc_rel_bound(4) [simplified])
  show "nullptr \<notin> tc_blocks s" using inv by (auto simp: tc_invar_def tc_blocks_def tc_rel_def)
  show "\<exists>p s'. tc_alloc cfg s = Some (p, s')" using tc_alloc_cases [OF inv] by blast
  show "\<exists>p s'. tc_alloc cfg s = Some (p, s') \<and> p \<noteq> nullptr" if "tc_free s \<noteq> {}"
    using tc_alloc_cases [OF inv] that by blast
next
  fix s p s' assume "tc_invar s" "tc_alloc cfg s = Some (p, s')"
  then show "tc_invar s'" "tc_blocks s' = tc_blocks s" "p \<noteq> nullptr \<Longrightarrow> p \<in> tc_free s \<and> tc_free s' = tc_free s - {p}"
    using tc_alloc_cases [of s cfg] by auto
next
  fix s s' assume "tc_invar s" "tc_alloc cfg s = Some (nullptr, s')"
  then show "tc_free s' = tc_free s" using tc_alloc_cases [of s cfg] by auto
next
  fix s p assume "tc_invar s" "p \<in> tc_blocks s - tc_free s"
  then show "\<exists>s'. tc_dealloc cfg s p = Some s' \<and> tc_invar s' \<and> tc_blocks s' = tc_blocks s \<and> tc_free s' = insert p (tc_free s)"
    by (rule tc_dealloc_used)
qed

section \<open>Accounting\<close>

text \<open>
  \<open>stats_gap\<close>: the number of blocks in the cache less what the counters of the thread account for
  (blocks refilled and freed, less blocks allocated and flushed), modulo \<open>2 ^ 64\<close> like the counters.
\<close>

definition stats_gap :: "tc_state \<Rightarrow> u64" where
  "stats_gap = (\<lambda>(st, tc, env). let s = tl_alloc_stats env in
     local_size tc - (refill_blocks s + deallocs s - allocs s - flush_blocks s))"

lemma refill_gap:
  assumes "ALLOC_INSTRUMENTATION cfg" "refill cfg s = Some s'"
  shows "stats_gap s' = stats_gap s"
  using assms by (cases s) (auto simp: refill_def stats_gap_def stat_defs Let_def split: if_splits prod.splits)

lemma flush_gap:
  assumes "ALLOC_INSTRUMENTATION cfg" "flush cfg k s = Some s'"
  shows "stats_gap s' = stats_gap s"
  using assms by (cases s) (auto simp: flush_def stats_gap_def stat_defs Let_def split: if_splits prod.splits)

text \<open>How far the cache is above the size a refill can bring it to.\<close>

definition flush_credit :: "tc_state \<Rightarrow> nat" where
  "flush_credit = (\<lambda>(st, tc, env). let b = unat (batch_size tc) in unat (local_size tc) - (b + b div 2))"

definition flush_paid :: "tc_state \<Rightarrow> bool" where
  "flush_paid = (\<lambda>(st, tc, env). let s = tl_alloc_stats env in
     unat (flushes s) * (unat (batch_size tc) div 2 + 1) + flush_credit (st, tc, env) \<le> unat (deallocs s))"

lemma tc_alloc_counters:
  assumes "tc_alloc cfg (st, tc, env) = Some (p, st', tc', env')"
  shows "flushes (tl_alloc_stats env') = flushes (tl_alloc_stats env)"
    "deallocs (tl_alloc_stats env') = deallocs (tl_alloc_stats env)"
  using assms by (auto simp: tc_alloc_def refill_def stat_defs Let_def split: if_splits prod.splits)

lemma flush_counters:
  assumes "flush cfg k (st, tc, env) = Some (st', tc', env')" "ALLOC_INSTRUMENTATION cfg"
  shows "deallocs (tl_alloc_stats env') = deallocs (tl_alloc_stats env)"
    "flushes (tl_alloc_stats env') = flushes (tl_alloc_stats env) + (if local_head tc = nullptr \<or> k = 0 then 0 else 1)"
  using assms by (auto simp: flush_def stat_defs Let_def split: if_splits prod.splits)

lemma tc_dealloc_counters:
  assumes d: "tc_dealloc cfg (st, tc, env) p = Some (st', tc', env')" and p: "p \<noteq> nullptr"
    and cfg: "ALLOC_INSTRUMENTATION cfg" and b: "high_watermark tc < local_size tc + 1 \<longrightarrow> local_size tc + 1 \<noteq> batch_size tc"
  shows "deallocs (tl_alloc_stats env') = deallocs (tl_alloc_stats env) + 1"
    "flushes (tl_alloc_stats env') = flushes (tl_alloc_stats env) + (if high_watermark tc < local_size tc + 1 then 1 else 0)"
proof -
  let ?env = "ALLOC_DEBUG_ON_DEALLOC cfg p (ALLOC_STAT_INC cfg deallocs_update env)"
  let ?tc = "tc\<lparr>local_head := p, local_size := local_size tc + 1\<rparr>"
  obtain h where h: "(if high_watermark tc < local_size tc + 1
      then flush cfg (local_size tc + 1 - batch_size tc) (st\<lparr>blk := h\<rparr>, ?tc, ?env)
      else Some (st\<lparr>blk := h\<rparr>, ?tc, ?env)) = Some (st', tc', env')"
    using d p that [of "(blk st)(p \<mapsto> local_head tc)"] by (auto simp: tc_dealloc_def Let_def split: if_splits)
  have e: "deallocs (tl_alloc_stats ?env) = deallocs (tl_alloc_stats env) + 1"
    "flushes (tl_alloc_stats ?env) = flushes (tl_alloc_stats env)"
    using cfg by (simp_all add: stat_defs)
  have "deallocs (tl_alloc_stats env') = deallocs (tl_alloc_stats ?env) \<and>
    flushes (tl_alloc_stats env') = flushes (tl_alloc_stats ?env) + (if high_watermark tc < local_size tc + 1 then 1 else 0)"
    using h flush_counters [OF _ cfg, of "local_size tc + 1 - batch_size tc" "st\<lparr>blk := h\<rparr>" ?tc ?env st' tc' env'] p b
    by (simp split: if_splits)
  then show "deallocs (tl_alloc_stats env') = deallocs (tl_alloc_stats env) + 1"
    "flushes (tl_alloc_stats env') = flushes (tl_alloc_stats env) + (if high_watermark tc < local_size tc + 1 then 1 else 0)"
    using e by simp_all
qed

text \<open>Lengths of the cache around one abstract operation.\<close>

lemma cache_alloc_length:
  assumes "cache_alloc b (gs, ls) = (p, gs', ls')"
  shows "length ls' \<le> max (length ls) (b + b div 2)"
proof -
  let ?l = "if length ls \<le> b div 2 then take (max 1 b) gs @ ls else ls"
  have "ls' = tl ?l" using assms
    by (cases ?l) (simp_all add: cache_alloc_def cache_refill_def Let_def split: if_splits)
  moreover have "length ?l \<le> (if length ls \<le> b div 2 then b div 2 + max 1 b else length ls)" by auto
  ultimately show ?thesis by (auto simp: max_def split: if_splits)
qed

lemma cache_dealloc_length:
  assumes "cache_dealloc b p (gs, ls) = (gs', ls')"
  shows "length ls' = (if 2 * b < length ls + 1 then b else length ls + 1)"
  using assms by (auto simp: cache_dealloc_def cache_flush_def split: if_splits)

lemma flush_paid_dealloc:
  assumes cfg: "ALLOC_INSTRUMENTATION cfg" and lim: "limits_ok tc" and r: "tc_rel st tc gs ls"
    and b0: "0 < unat (batch_size tc)" and paid: "flush_paid (st, tc, env)"
    and nowrap: "deallocs (tl_alloc_stats env) < SIZE_MAX" and p: "p \<in> dom (blk st) - set (gs @ ls)"
    and d: "tc_dealloc cfg (st, tc, env) p = Some (st', tc', env')"
  shows "flush_paid (st', tc', env')"
proof -
  let ?b = "unat (batch_size tc)" and ?F = "unat (flushes (tl_alloc_stats env))" and ?D = "unat (deallocs (tl_alloc_stats env))"
  obtain gs1 ls1 where c: "cache_dealloc ?b p (gs, ls) = (gs1, ls1)" by (metis surj_pair)
  have r1: "unat (local_size tc') = length ls1" "same_limits tc tc'"
    using tc_dealloc_refines [OF r lim _ _ c, of cfg env] p d by (auto simp: tc_rel_def)
  have nn: "p \<noteq> nullptr" using p r by (auto simp: tc_rel_def)
  then have "distinct (p # gs @ ls)" "nullptr \<notin> set (p # gs @ ls)"
    using tc_rel_bound(2,3) [OF r] p by auto
  from distinct_nonnull_length [OF this] have sz: "unat (local_size tc + 1) = length ls + 1"
    using r unat_plus_64 [of "local_size tc" 1] by (simp add: tc_rel_def)
  have high: "high_watermark tc < local_size tc + 1 \<longleftrightarrow> 2 * ?b < length ls + 1"
    using lim sz by (simp add: word_less_nat_alt limits_ok_def)
  then have "high_watermark tc < local_size tc + 1 \<longrightarrow> local_size tc + 1 \<noteq> batch_size tc" using sz by auto
  note cnt = tc_dealloc_counters [OF d nn cfg this]
  have P: "?F * (?b div 2 + 1) + (length ls - (?b + ?b div 2)) \<le> ?D"
    using paid r by (simp add: flush_paid_def flush_credit_def Let_def tc_rel_def)
  have D1: "unat (deallocs (tl_alloc_stats env) + 1) = ?D + 1" by (rule unat_plus1_64 [OF nowrap])
  have "?F \<le> ?F * (?b div 2 + 1)" by simp
  then have "?F \<le> ?D" using P by linarith
  then have "flushes (tl_alloc_stats env) < SIZE_MAX" using nowrap by (simp add: word_less_nat_alt)
  then have F1: "unat (flushes (tl_alloc_stats env) + 1) = ?F + 1" by (rule unat_plus1_64)
  have len: "length ls1 = (if 2 * ?b < length ls + 1 then ?b else length ls + 1)" by (rule cache_dealloc_length [OF c])
  have "unat (flushes (tl_alloc_stats env')) * (?b div 2 + 1) + (length ls1 - (?b + ?b div 2)) \<le> ?D + 1"
    using cnt(2) high len P F1 by (simp split: if_splits)
  then show ?thesis
    using r1 cnt(1) D1 by (simp add: flush_paid_def flush_credit_def Let_def same_limits_def)
qed

section \<open>Properties\<close>

text \<open>C23. \<^verbatim>\<open>ThreadCache\<close> implements the two-list cache: on a cache holding \<open>ls\<close> in front of
  a shared freelist holding \<open>gs\<close>, \<^verbatim>\<open>alloc\<close> returns what \<open>cache_alloc\<close> returns (a refill of one
  batch when at most half a batch is left, then the top block, or null) and \<^verbatim>\<open>dealloc\<close> of a
  block on neither list does what \<open>cache_dealloc\<close> does (the block on top, then everything above one
  batch back to the shared list when there are more than two). Both return, and they write no cell
  outside the two lists and the block freed.\<close>

theorem tc_refines_two_lists:
  assumes "tc_rel st tc gs ls" "limits_ok tc" "b = unat (batch_size tc)"
    and "p \<in> dom (blk st)" "p \<notin> set (gs @ ls)"
  shows "(case cache_alloc b (gs, ls) of (q, gs', ls') \<Rightarrow>
        \<exists>st' tc' env'. tc_alloc cfg (st, tc, env) = Some (q, st', tc', env') \<and> tc_rel st' tc' gs' ls'
          \<and> touches (set gs) (global tc) st st' \<and> same_limits tc tc')
   \<and> (case cache_dealloc b p (gs, ls) of (gs', ls') \<Rightarrow>
        \<exists>st' tc' env'. tc_dealloc cfg (st, tc, env) p = Some (st', tc', env') \<and> tc_rel st' tc' gs' ls'
          \<and> touches (insert p (set ls)) (global tc) st st' \<and> same_limits tc tc')"
proof -
  obtain q gs1 ls1 gs2 ls2 where c: "cache_alloc b (gs, ls) = (q, gs1, ls1)" "cache_dealloc b p (gs, ls) = (gs2, ls2)"
    by (metis prod_cases3 surj_pair)
  then show ?thesis
    using tc_alloc_refines [OF assms(1,2)] tc_dealloc_refines [OF assms(1,2,4,5)] assms(3) by simp
qed

text \<open>C34. The cache stays small: it never holds more than two batches, a deallocation that takes it
  above that leaves exactly one batch in it, and an allocation never makes it longer than one and a
  half batches unless it already was.\<close>

theorem tc_cache_bounded:
  assumes "tc_rel st tc gs ls" "limits_ok tc" "length ls \<le> 2 * unat (batch_size tc)"
    and "p \<in> dom (blk st)" "p \<notin> set (gs @ ls)"
  shows "\<exists>q st1 tc1 env1 st2 tc2 env2.
       tc_alloc cfg (st, tc, env) = Some (q, st1, tc1, env1)
     \<and> unat (local_size tc1) \<le> max (length ls) (unat (batch_size tc) + unat (batch_size tc) div 2)
     \<and> unat (local_size tc1) \<le> unat (high_watermark tc1)
     \<and> tc_dealloc cfg (st, tc, env) p = Some (st2, tc2, env2)
     \<and> unat (local_size tc2) = (if length ls = 2 * unat (batch_size tc) then unat (batch_size tc) else length ls + 1)
     \<and> unat (local_size tc2) \<le> unat (high_watermark tc2)"
proof -
  let ?b = "unat (batch_size tc)"
  obtain q gs1 ls1 gs2 ls2 where c: "cache_alloc ?b (gs, ls) = (q, gs1, ls1)" "cache_dealloc ?b p (gs, ls) = (gs2, ls2)"
    by (metis prod_cases3 surj_pair)
  obtain st1 tc1 env1 where a: "tc_alloc cfg (st, tc, env) = Some (q, st1, tc1, env1)" "tc_rel st1 tc1 gs1 ls1" "same_limits tc tc1"
    using tc_alloc_refines [OF assms(1,2) c(1)] by blast
  obtain st2 tc2 env2 where d: "tc_dealloc cfg (st, tc, env) p = Some (st2, tc2, env2)" "tc_rel st2 tc2 gs2 ls2" "same_limits tc tc2"
    using tc_dealloc_refines [OF assms(1,2,4,5) c(2)] by blast
  have "unat (local_size tc1) \<le> max (length ls) (?b + ?b div 2)" "unat (local_size tc2) = length ls2"
    using cache_alloc_length [OF c(1)] a(2) d(2) by (simp_all add: tc_rel_def)
  moreover have "unat (high_watermark tc1) = 2 * ?b" "unat (high_watermark tc2) = 2 * ?b"
    using assms(2) a(3) d(3) by (simp_all add: same_limits_def limits_ok_def)
  moreover have "length ls2 = (if length ls = 2 * ?b then ?b else length ls + 1)"
    using cache_dealloc_length [OF c(2)] assms(3) by auto
  ultimately show ?thesis using a(1) d(1) assms(3) by auto
qed

text \<open>C36. The counters of \<^verbatim>\<open>alloc_stats.hpp\<close> account for the cache: with instrumentation on,
  no operation changes the difference between the number of cached blocks and (blocks refilled plus
  frees less allocations less blocks flushed), so it stays zero from a fresh thread on.\<close>

theorem tc_stats_balance:
  assumes "ALLOC_INSTRUMENTATION cfg"
  shows "stats_gap (st, ThreadCache_new i batch, thread_env_new) = 0
    \<and> (\<forall>p s'. tc_alloc cfg s = Some (p, s') \<longrightarrow> stats_gap s' = stats_gap s)
    \<and> (\<forall>p s'. tc_dealloc cfg s p = Some s' \<longrightarrow> stats_gap s' = stats_gap s)"
proof (intro conjI allI impI)
  show "stats_gap (st, ThreadCache_new i batch, thread_env_new) = 0"
    by (simp add: stats_gap_def ThreadCache_new_def thread_env_new_def AllocStats_zero_def)
next
  fix p s' assume a: "tc_alloc cfg s = Some (p, s')"
  obtain st tc env where s: "s = (st, tc, env)" by (cases s)
  define r where "r = (if local_size tc \<le> low_watermark tc then refill cfg (st, tc, env) else Some (st, tc, env))"
  obtain s1 where s1: "r = Some s1" using a unfolding s r_def [symmetric] tc_alloc_def by (cases r) (auto simp: r_def)
  then have "stats_gap s1 = stats_gap s" using refill_gap [OF assms] unfolding r_def s by (auto split: if_splits)
  moreover have "stats_gap s' = stats_gap s1"
    using a s1 assms unfolding s r_def tc_alloc_def
    by (cases s1) (auto simp: stats_gap_def stat_defs Let_def split: if_splits)
  ultimately show "stats_gap s' = stats_gap s" by simp
next
  fix p s' assume d: "tc_dealloc cfg s p = Some s'"
  obtain st tc env where s: "s = (st, tc, env)" by (cases s)
  let ?s1 = "(st\<lparr>blk := (blk st)(p \<mapsto> local_head tc)\<rparr>, tc\<lparr>local_head := p, local_size := local_size tc + 1\<rparr>,
     ALLOC_DEBUG_ON_DEALLOC cfg p (ALLOC_STAT_INC cfg deallocs_update env))"
  have "stats_gap ?s1 = stats_gap s" using assms unfolding s by (simp add: stats_gap_def stat_defs Let_def)
  moreover have "p = nullptr \<and> s' = s \<or> s' = ?s1 \<or> flush cfg (local_size tc + 1 - batch_size tc) ?s1 = Some s'"
    using d unfolding s by (auto simp: tc_dealloc_def Let_def split: if_splits)
  ultimately show "stats_gap s' = stats_gap s" using flush_gap [OF assms] by metis
qed

text \<open>C35. Flushing is amortised: while its counter of frees does not wrap around, a thread has
  flushed at most once per \<open>batch/2 + 1\<close> deallocations. (\<open>flush_paid\<close> says so, with the blocks
  above one and a half batches as credit for the next flush; it holds for a fresh thread and every
  operation keeps it.)\<close>

theorem tc_flush_amortised:
  assumes "ALLOC_INSTRUMENTATION cfg" "limits_ok tc" "tc_rel st tc gs ls" "0 < unat (batch_size tc)"
    and "flush_paid (st, tc, env)" "deallocs (tl_alloc_stats env) < SIZE_MAX"
  shows "flush_paid (st0, ThreadCache_new i batch, thread_env_new)
    \<and> (\<forall>p s'. tc_alloc cfg (st, tc, env) = Some (p, s') \<longrightarrow> flush_paid s')
    \<and> (\<forall>p s'. p \<in> dom (blk st) - set (gs @ ls) \<longrightarrow> tc_dealloc cfg (st, tc, env) p = Some s' \<longrightarrow> flush_paid s')"
proof (intro conjI allI impI)
  show "flush_paid (st0, ThreadCache_new i batch, thread_env_new)"
    by (simp add: flush_paid_def flush_credit_def ThreadCache_new_def thread_env_new_def AllocStats_zero_def)
next
  fix p s' assume a: "tc_alloc cfg (st, tc, env) = Some (p, s')"
  let ?b = "unat (batch_size tc)"
  obtain st' tc' env' where s': "s' = (st', tc', env')" by (cases s')
  obtain q gs1 ls1 where c: "cache_alloc ?b (gs, ls) = (q, gs1, ls1)" by (metis prod_cases3)
  have r: "tc_rel st' tc' gs1 ls1" "same_limits tc tc'" using tc_alloc_refines [OF assms(3,2) c, of cfg env] a s' by auto
  have "unat (local_size tc') \<le> max (unat (local_size tc)) (?b + ?b div 2)"
    using cache_alloc_length [OF c] r(1) assms(3) by (simp add: tc_rel_def)
  then show "flush_paid s'"
    using assms(5) r(2) tc_alloc_counters [OF a [unfolded s']] unfolding s'
    by (auto simp: flush_paid_def flush_credit_def same_limits_def Let_def)
next
  fix p s' assume p: "p \<in> dom (blk st) - set (gs @ ls)" and d: "tc_dealloc cfg (st, tc, env) p = Some s'"
  then show "flush_paid s'"
    using flush_paid_dealloc [OF assms p] by (cases s') simp
qed

text \<open>A thread cache together with its shared freelist is a complete block pool: \<^verbatim>\<open>alloc\<close>
  always returns, gives null exactly when both lists are empty, and otherwise a block that was free
  and is not any more; \<^verbatim>\<open>dealloc\<close> of a block in use makes it free again and \<^verbatim>\<open>dealloc\<close> of
  null changes nothing.\<close>

theorem thread_cache_complete_pool:
  assumes "tc_invar s"
  shows "(\<exists>p s'. tc_alloc cfg s = Some (p, s') \<and> tc_invar s' \<and> (p = nullptr \<longleftrightarrow> tc_free s = {})
            \<and> tc_free s' = tc_free s - {p} \<and> (p \<noteq> nullptr \<longrightarrow> p \<in> tc_free s))
       \<and> (\<forall>p \<in> tc_blocks s - tc_free s.
            \<exists>s'. tc_dealloc cfg s p = Some s' \<and> tc_invar s' \<and> tc_free s' = insert p (tc_free s))
       \<and> tc_dealloc cfg s nullptr = Some s"
proof -
  obtain p s' where a: "tc_alloc cfg s = Some (p, s')" using tc.alloc_returns [OF assms] by blast
  have "tc_free s' = tc_free s - {p}"
    using tc_alloc_cases [OF assms, of cfg] a by auto
  then have "tc_alloc cfg s = Some (p, s') \<and> tc_invar s' \<and> (p = nullptr \<longleftrightarrow> tc_free s = {})
      \<and> tc_free s' = tc_free s - {p} \<and> (p \<noteq> nullptr \<longrightarrow> p \<in> tc_free s)"
    using a tc.alloc_invar [OF assms a] tc.null_iff_exhausted [OF assms a] tc.alloc_some [OF assms a] by simp
  moreover have "\<exists>s'. tc_dealloc cfg s q = Some s' \<and> tc_invar s' \<and> tc_free s' = insert q (tc_free s)"
    if "q \<in> tc_blocks s - tc_free s" for q using tc.dealloc_used [OF assms that, of cfg] by metis
  moreover have "tc_dealloc cfg s nullptr = Some s" by (cases s) (simp add: tc_dealloc_def)
  ultimately show ?thesis by blast
qed

section \<open>Concrete instances\<close>

definition demo_store :: store where
  "demo_store = \<lparr>blk = demo_heap, lists = [0 \<mapsto> demo_fl]\<rparr>"

definition demo_tc :: ThreadCache where
  "demo_tc = ThreadCache_new 0 2"

definition demo_cfg :: build where
  "demo_cfg = \<lparr>ALLOC_INSTRUMENTATION = True, ALLOC_DEBUG = True\<rparr>"

lemma demo_tc_rel: "tc_rel demo_store demo_tc [64, 128, 192] []"
  using demo_holds
  by (simp add: tc_rel_def demo_store_def demo_tc_def ThreadCache_new_def demo_fl_def demo_heap_def)

lemma demo_tc_limits: "limits_ok demo_tc"
  unfolding demo_tc_def by (rule limits_new) simp

lemma demo_tc_256: "256 \<in> dom (blk demo_store)" "256 \<notin> set ([64, 128, 192] @ [] :: addr list)"
  by (simp_all add: demo_store_def demo_heap_def)

lemma demo_tc_batch: "batch_size demo_tc = 2"
  by (simp add: demo_tc_def ThreadCache_new_def)

theorem tc_refines_two_lists_witness:
  "(\<exists>st' tc' env'. tc_alloc demo_cfg (demo_store, demo_tc, thread_env_new) = Some (64, st', tc', env') \<and> tc_rel st' tc' [192] [128])
   \<and> (\<exists>st' tc' env'. tc_dealloc demo_cfg (demo_store, demo_tc, thread_env_new) 256 = Some (st', tc', env')
        \<and> tc_rel st' tc' [64, 128, 192] [256])"
  using tc_refines_two_lists [OF demo_tc_rel demo_tc_limits refl demo_tc_256, of demo_cfg thread_env_new]
  by (auto simp: demo_tc_batch cache_alloc_def cache_refill_def cache_dealloc_def)

theorem tc_cache_bounded_witness:
  "\<exists>q st1 tc1 env1 st2 tc2 env2. tc_alloc demo_cfg (demo_store, demo_tc, thread_env_new) = Some (q, st1, tc1, env1)
     \<and> unat (local_size tc1) \<le> 3 \<and> tc_dealloc demo_cfg (demo_store, demo_tc, thread_env_new) 256 = Some (st2, tc2, env2)
     \<and> unat (local_size tc2) = 1"
  using tc_cache_bounded [OF demo_tc_rel demo_tc_limits _ demo_tc_256, of demo_cfg thread_env_new]
  by (auto simp: demo_tc_batch)

theorem tc_stats_balance_witness:
  "\<exists>p s'. tc_alloc demo_cfg (demo_store, demo_tc, thread_env_new) = Some (p, s') \<and> stats_gap s' = 0"
proof -
  have "ALLOC_INSTRUMENTATION demo_cfg" by (simp add: demo_cfg_def)
  note b = tc_stats_balance [OF this, of demo_store 0 2 "(demo_store, demo_tc, thread_env_new)", folded demo_tc_def]
  have "tc_invar (demo_store, demo_tc, thread_env_new)" using demo_tc_rel demo_tc_limits by (auto simp: tc_invar_def)
  from tc.alloc_returns [OF this, of demo_cfg] b show ?thesis by auto
qed

theorem tc_flush_amortised_witness:
  "\<exists>s'. tc_dealloc demo_cfg (demo_store, demo_tc, thread_env_new) 256 = Some s' \<and> flush_paid s'"
proof -
  have cfg: "ALLOC_INSTRUMENTATION demo_cfg" by (simp add: demo_cfg_def)
  have "flush_paid (demo_store, demo_tc, thread_env_new)" "deallocs (tl_alloc_stats thread_env_new) < SIZE_MAX"
    by (simp_all add: flush_paid_def flush_credit_def demo_tc_def ThreadCache_new_def thread_env_new_def AllocStats_zero_def word_gt_0)
  moreover have "0 < unat (batch_size demo_tc)" by (simp add: demo_tc_batch)
  ultimately have am: "\<forall>p s'. p \<in> dom (blk demo_store) - set ([64, 128, 192] @ []) \<longrightarrow>
      tc_dealloc demo_cfg (demo_store, demo_tc, thread_env_new) p = Some s' \<longrightarrow> flush_paid s'"
    using tc_flush_amortised [OF cfg demo_tc_limits demo_tc_rel] by blast
  obtain st' tc' env' where "tc_dealloc demo_cfg (demo_store, demo_tc, thread_env_new) 256 = Some (st', tc', env')"
    using tc_dealloc_refines [OF demo_tc_rel demo_tc_limits demo_tc_256, of _ _ demo_cfg thread_env_new]
    by (metis surj_pair)
  then show ?thesis using am demo_tc_256 by blast
qed

theorem thread_cache_complete_pool_witness:
  "\<exists>p s'. tc_alloc demo_cfg (demo_store, demo_tc, thread_env_new) = Some (p, s') \<and> p \<in> {64, 128, 192}
      \<and> tc_free s' = {64, 128, 192} - {p}"
proof -
  have i: "tc_invar (demo_store, demo_tc, thread_env_new)" using demo_tc_rel demo_tc_limits by (auto simp: tc_invar_def)
  have "tc_free (demo_store, demo_tc, thread_env_new) = {64, 128, 192}" using tc_rel_free [OF demo_tc_rel] by auto
  with thread_cache_complete_pool [OF i, of demo_cfg] show ?thesis by auto
qed

end
