(* ===== verification/Cache_System.thy ===== *)
theory Cache_System
  imports Thread_Cache
begin

text \<open>
  Many caches over many shared freelists: the store of freelists with the caches of all threads, named
  by keys of any type. \<open>sys_ok st C G L\<close> says which blocks every shared list (\<open>G\<close>) and every
  cache (\<open>L\<close>) holds and that no block is on two of them. The lemmas of this theory carry it through
  every operation of a cache, the creation and the end of a cache and the creation of a freelist; the
  thread-local freelist allocator and the NUMA allocator are built on them.
\<close>

definition sys_ok :: "store \<Rightarrow> ('k \<rightharpoonup> ThreadCache) \<Rightarrow> (nat \<Rightarrow> addr list) \<Rightarrow> ('k \<Rightarrow> addr list) \<Rightarrow> bool" where
  "sys_ok st C G L =
     (nullptr \<notin> dom (blk st)
      \<and> (\<forall>i. case lists st i of None \<Rightarrow> G i = [] | Some g \<Rightarrow> fl_holds g (blk st) (G i) \<and> \<not> bulk_lock g)
      \<and> (\<forall>k. case C k of None \<Rightarrow> L k = []
             | Some c \<Rightarrow> chain (blk st) (local_head c) (L k) \<and> unat (local_size c) = length (L k)
                 \<and> limits_ok c \<and> global c \<in> dom (lists st))
      \<and> (\<forall>i j. i \<noteq> j \<longrightarrow> set (G i) \<inter> set (G j) = {})
      \<and> (\<forall>k l. k \<noteq> l \<longrightarrow> set (L k) \<inter> set (L l) = {})
      \<and> (\<forall>i k. set (G i) \<inter> set (L k) = {}))"

definition sys_free :: "(nat \<Rightarrow> addr list) \<Rightarrow> ('k \<Rightarrow> addr list) \<Rightarrow> addr set" where
  "sys_free G L = (\<Union>i. set (G i)) \<union> (\<Union>k. set (L k))"

lemma sys_list: "sys_ok st C G L \<Longrightarrow> lists st i = Some g \<Longrightarrow> fl_holds g (blk st) (G i) \<and> \<not> bulk_lock g"
  unfolding sys_ok_def by (metis (mono_tags, lifting) option.simps(5))

lemma sys_cache: "sys_ok st C G L \<Longrightarrow> C k = Some c \<Longrightarrow>
    chain (blk st) (local_head c) (L k) \<and> unat (local_size c) = length (L k) \<and> limits_ok c \<and> global c \<in> dom (lists st)"
  unfolding sys_ok_def by (metis (mono_tags, lifting) option.simps(5))

lemma sys_none:
  "sys_ok st C G L \<Longrightarrow> lists st i = None \<Longrightarrow> G i = []" "sys_ok st C G L \<Longrightarrow> C k = None \<Longrightarrow> L k = []"
  unfolding sys_ok_def by (metis (mono_tags, lifting) option.simps(4))+

lemma sys_disjoint:
  assumes "sys_ok st C G L"
  shows "i \<noteq> j \<Longrightarrow> set (G i) \<inter> set (G j) = {}" "k \<noteq> l \<Longrightarrow> set (L k) \<inter> set (L l) = {}" "set (G i) \<inter> set (L k) = {}"
    "nullptr \<notin> dom (blk st)"
  using assms unfolding sys_ok_def by blast+

lemma sys_okI:
  assumes "nullptr \<notin> dom (blk st)"
    and "\<And>i g. lists st i = Some g \<Longrightarrow> fl_holds g (blk st) (G i) \<and> \<not> bulk_lock g" "\<And>i. lists st i = None \<Longrightarrow> G i = []"
    and "\<And>k c. C k = Some c \<Longrightarrow> chain (blk st) (local_head c) (L k) \<and> unat (local_size c) = length (L k)
           \<and> limits_ok c \<and> global c \<in> dom (lists st)" "\<And>k. C k = None \<Longrightarrow> L k = []"
    and "\<And>i j. i \<noteq> j \<Longrightarrow> set (G i) \<inter> set (G j) = {}" "\<And>k l. k \<noteq> l \<Longrightarrow> set (L k) \<inter> set (L l) = {}"
    and "\<And>i k. set (G i) \<inter> set (L k) = {}"
  shows "sys_ok st C G L"
  unfolding sys_ok_def using assms by (auto split: option.splits)

lemma sys_tc_rel:
  assumes "sys_ok st C G L" "C k = Some c"
  shows "tc_rel st c (G (global c)) (L k)"
proof -
  obtain g where "lists st (global c) = Some g" using sys_cache [OF assms] by blast
  then show ?thesis
    using sys_list [OF assms(1)] sys_cache [OF assms] sys_disjoint(3,4) [OF assms(1)]
    by (simp add: tc_rel_def)
qed

lemma sys_free_dom:
  assumes "sys_ok st C G L"
  shows "sys_free G L \<subseteq> dom (blk st)" "nullptr \<notin> sys_free G L"
proof -
  have "set (G i) \<subseteq> dom (blk st)" for i
    using sys_list [OF assms] sys_none(1) [OF assms] fl_holds_dom by (cases "lists st i") fastforce+
  moreover have "set (L k) \<subseteq> dom (blk st)" for k
    using sys_cache [OF assms] sys_none(2) [OF assms] seg_dom by (cases "C k") fastforce+
  ultimately show "sys_free G L \<subseteq> dom (blk st)" unfolding sys_free_def by blast
  then show "nullptr \<notin> sys_free G L" using sys_disjoint(4) [OF assms] by blast
qed

text \<open>
  The frame rule: an operation of cache \<open>k\<close> that only touches its own two lists and blocks that are
  on no list leaves all other lists alone.
\<close>

lemma sys_upd:
  assumes ok: "sys_ok st C G L" and c: "C k = Some c" and r: "tc_rel st' c' gs' ls'" and s: "same_limits c c'"
    and t: "touches A (global c) st st'" and A: "A \<subseteq> set (G (global c)) \<union> set (L k) \<union> P"
    and new: "set gs' \<union> set ls' \<subseteq> set (G (global c)) \<union> set (L k) \<union> P" and P: "P \<inter> sys_free G L = {}"
  shows "sys_ok st' (C(k \<mapsto> c')) (G(global c := gs')) (L(k := ls'))"
proof (rule sys_okI)
  let ?mine = "set (G (global c)) \<union> set (L k) \<union> P"
  have PG: "P \<inter> set (G j) = {}" "P \<inter> set (L l) = {}" for j l using P unfolding sys_free_def by blast+
  have og: "set (G j) \<inter> ?mine = {}" if "j \<noteq> global c" for j
    using sys_disjoint(1) [OF ok that] sys_disjoint(3) [OF ok, of j k] PG(1) [of j] by blast
  have ol: "set (L l) \<inter> ?mine = {}" if "l \<noteq> k" for l
    using sys_disjoint(2) [OF ok that] sys_disjoint(3) [OF ok, of "global c" l] PG(2) [of l] by blast
  have same: "blk st' x = blk st x" if "x \<notin> ?mine" for x using t A that unfolding touches_def by blast
  have gl: "global c' = global c" "limits_ok c'" using s sys_cache [OF ok c] limits_same [OF s] by (auto simp: same_limits_def)
  obtain g' where g': "lists st' (global c) = Some g'" "fl_holds g' (blk st') gs'" "\<not> bulk_lock g'"
    using r gl by (auto simp: tc_rel_def)
  have dl: "dom (lists st') = dom (lists st)" "\<And>j. j \<noteq> global c \<Longrightarrow> lists st' j = lists st j"
    using t unfolding touches_def by auto
  show "nullptr \<notin> dom (blk st')" using r by (simp add: tc_rel_def)
  show "fl_holds g (blk st') ((G(global c := gs')) i) \<and> \<not> bulk_lock g" if g: "lists st' i = Some g" for i g
  proof (cases "i = global c")
    case False
    then have "lists st i = Some g" "blk st' x = blk st x" if "x \<in> set (G i)" for x
      using dl(2) g same og [OF False] that by auto
    then show ?thesis using sys_list [OF ok, of i g] dl(2) [OF False] g False seg_frame [of "G i" "blk st'" "blk st"]
      by (auto simp: fl_holds_def)
  qed (use g g' in simp)
  show "(G(global c := gs')) i = []" if "lists st' i = None" for i
    using that g'(1) dl(2) [of i] sys_none(1) [OF ok] by auto
  show "chain (blk st') (local_head d) ((L(k := ls')) l) \<and> unat (local_size d) = length ((L(k := ls')) l)
      \<and> limits_ok d \<and> global d \<in> dom (lists st')" if d: "(C(k \<mapsto> c')) l = Some d" for l d
  proof (cases "l = k")
    case True
    then show ?thesis using d r gl g'(1) by (auto simp: tc_rel_def)
  next
    case False
    then have "blk st' x = blk st x" if "x \<in> set (L l)" for x using same ol that by auto
    then show ?thesis using sys_cache [OF ok, of l d] d False dl(1) seg_frame [of "L l" "blk st'" "blk st"] by auto
  qed
  show "(L(k := ls')) l = []" if "(C(k \<mapsto> c')) l = None" for l
    using that sys_none(2) [OF ok] by (auto split: if_splits)
  have gs: "set (G j) \<inter> (set gs' \<union> set ls') = {}" if "j \<noteq> global c" for j using og [OF that] new by blast
  have ls: "set (L l) \<inter> (set gs' \<union> set ls') = {}" if "l \<noteq> k" for l using ol [OF that] new by blast
  show "set ((G(global c := gs')) i) \<inter> set ((G(global c := gs')) j) = {}" if "i \<noteq> j" for i j
    using that gs [of i] gs [of j] sys_disjoint(1) [OF ok that]
    by (cases "i = global c"; cases "j = global c") (simp_all add: Int_Un_distrib Int_commute)
  show "set ((L(k := ls')) l) \<inter> set ((L(k := ls')) m) = {}" if "l \<noteq> m" for l m
    using that ls [of l] ls [of m] sys_disjoint(2) [OF ok that]
    by (cases "l = k"; cases "m = k") (simp_all add: Int_Un_distrib Int_commute)
  show "set ((G(global c := gs')) i) \<inter> set ((L(k := ls')) l) = {}" for i l
    using gs [of i] ls [of l] sys_disjoint(3) [OF ok, of i l] r
    by (cases "i = global c"; cases "l = k") (simp_all add: tc_rel_def Int_Un_distrib Int_commute)
qed


lemma UN_split: "(\<Union>j. f j) = f i \<union> (\<Union>j \<in> - {i}. f j)"
  by auto

lemma sys_free_upd:
  assumes "sys_ok st C G L" "set gs' \<union> set ls' = (set (G i) \<union> set (L k)) - D \<union> P" "D \<subseteq> set (G i) \<union> set (L k)"
  shows "sys_free (G(i := gs')) (L(k := ls')) = sys_free G L - D \<union> P"
proof -
  define rest where "rest = (\<Union>j \<in> - {i}. set (G j)) \<union> (\<Union>l \<in> - {k}. set (L l))"
  have "x \<notin> set (G j)" if "x \<in> set (G i) \<union> set (L k)" "j \<noteq> i" for x j
    using that sys_disjoint(1) [OF assms(1), of j i] sys_disjoint(3) [OF assms(1), of j k] by blast
  moreover have "x \<notin> set (L l)" if "x \<in> set (G i) \<union> set (L k)" "l \<noteq> k" for x l
    using that sys_disjoint(2) [OF assms(1), of l k] sys_disjoint(3) [OF assms(1), of i l] by blast
  ultimately have "D \<inter> rest = {}" using assms(3) unfolding rest_def by blast
  moreover have "sys_free G L = set (G i) \<union> set (L k) \<union> rest"
    "sys_free (G(i := gs')) (L(k := ls')) = set gs' \<union> set ls' \<union> rest"
    unfolding rest_def sys_free_def UN_split [of _ i] UN_split [of _ k] by (simp_all add: Un_ac)
  ultimately show ?thesis using assms(2) by blast
qed

lemma sys_alloc:
  assumes ok: "sys_ok st C G L" and c: "C k = Some c"
  obtains p st' c' env' G' L' where "tc_alloc cfg (st, c, env) = Some (p, st', c', env')"
    "sys_ok st' (C(k \<mapsto> c')) G' L'" "sys_free G' L' = sys_free G L - {p}"
    "p = nullptr \<longleftrightarrow> G (global c) = [] \<and> L k = []" "p \<noteq> nullptr \<longrightarrow> p \<in> set (G (global c)) \<union> set (L k)"
    "same_limits c c'" "dom (blk st') = dom (blk st)" "dom (lists st') = dom (lists st)"
    "\<forall>i. i \<noteq> global c \<longrightarrow> G' i = G i" "\<forall>l. l \<noteq> k \<longrightarrow> L' l = L l"
    "set (G' (global c)) \<union> set (L' k) = set (G (global c)) \<union> set (L k) - {p}"
    "cache_alloc (unat (batch_size c)) (G (global c), L k) = (p, G' (global c), L' k)"
proof -
  let ?gs = "G (global c)" and ?ls = "L k"
  have r: "tc_rel st c ?gs ?ls" and lim: "limits_ok c" using sys_tc_rel [OF ok c] sys_cache [OF ok c] by auto
  obtain p gs' ls' where a: "cache_alloc (unat (batch_size c)) (?gs, ?ls) = (p, gs', ls')" by (metis prod_cases3)
  obtain st' c' env' where t: "tc_alloc cfg (st, c, env) = Some (p, st', c', env')" "tc_rel st' c' gs' ls'"
    "touches (set ?gs) (global c) st st'" "same_limits c c'" using tc_alloc_refines [OF r lim a] by blast
  note sets = cache_alloc_sets [OF a tc_rel_bound(2,3) [OF r]]
  have ok': "sys_ok st' (C(k \<mapsto> c')) (G(global c := gs')) (L(k := ls'))"
    by (rule sys_upd [OF ok c t(2,4,3), where P = "{}"]) (use sets(2) in auto)
  have "sys_free (G(global c := gs')) (L(k := ls')) = sys_free G L - ({p} - {nullptr}) \<union> {}"
    by (rule sys_free_upd [OF ok]) (use sets tc_rel_bound(3) [OF r] in auto)
  then have "sys_free (G(global c := gs')) (L(k := ls')) = sys_free G L - {p}" using sys_free_dom(2) [OF ok] by auto
  moreover have "dom (blk st') = dom (blk st)" "dom (lists st') = dom (lists st)" using t(3) by (auto simp: touches_def)
  ultimately show thesis
    using that [of p st' c' env' "G(global c := gs')" "L(k := ls')"] t(1,4) ok' sets a by simp
qed

lemma sys_dealloc:
  assumes ok: "sys_ok st C G L" and c: "C k = Some c" and p: "p \<in> dom (blk st)" "p \<notin> sys_free G L"
  obtains st' c' env' G' L' where "tc_dealloc cfg (st, c, env) p = Some (st', c', env')"
    "sys_ok st' (C(k \<mapsto> c')) G' L'" "sys_free G' L' = insert p (sys_free G L)"
    "same_limits c c'" "dom (blk st') = dom (blk st)" "dom (lists st') = dom (lists st)"
    "\<forall>i. i \<noteq> global c \<longrightarrow> G' i = G i" "\<forall>l. l \<noteq> k \<longrightarrow> L' l = L l"
    "set (G' (global c)) \<union> set (L' k) = insert p (set (G (global c)) \<union> set (L k))"
proof -
  let ?gs = "G (global c)" and ?ls = "L k"
  have r: "tc_rel st c ?gs ?ls" and lim: "limits_ok c" using sys_tc_rel [OF ok c] sys_cache [OF ok c] by auto
  have p': "p \<notin> set (?gs @ ?ls)" using p(2) by (auto simp: sys_free_def)
  obtain gs' ls' where d: "cache_dealloc (unat (batch_size c)) p (?gs, ?ls) = (gs', ls')" by (metis surj_pair)
  obtain st' c' env' where t: "tc_dealloc cfg (st, c, env) p = Some (st', c', env')" "tc_rel st' c' gs' ls'"
    "touches (insert p (set ?ls)) (global c) st st'" "same_limits c c'"
    using tc_dealloc_refines [OF r lim p(1) p' d] by blast
  note sets = cache_dealloc_sets [OF d]
  have ok': "sys_ok st' (C(k \<mapsto> c')) (G(global c := gs')) (L(k := ls'))"
    by (rule sys_upd [OF ok c t(2,4,3), where P = "{p}"]) (use sets p(2) in auto)
  have "sys_free (G(global c := gs')) (L(k := ls')) = sys_free G L - {} \<union> {p}"
    by (rule sys_free_upd [OF ok]) (use sets in auto)
  moreover have "dom (blk st') = dom (blk st)" "dom (lists st') = dom (lists st)" using t(3) by (auto simp: touches_def)
  ultimately show thesis
    using that [of st' c' env' "G(global c := gs')" "L(k := ls')"] t(1,4) ok' sets by simp
qed

text \<open>A new, empty cache; a cache that ceases to exist with the blocks it holds.\<close>

lemma sys_new_cache:
  assumes ok: "sys_ok st C G L" and "C k = None" "i \<in> dom (lists st)" "2 * unat batch < 2 ^ 64"
  shows "sys_ok st (C(k \<mapsto> ThreadCache_new i batch)) G L"
  using assms sys_none(2) [OF ok assms(2)] limits_new [OF assms(4), of i]
    sys_list [OF ok] sys_none(1) [OF ok] sys_cache [OF ok] sys_none(2) [OF ok] sys_disjoint [OF ok]
  by (intro sys_okI) (auto simp: ThreadCache_new_def split: if_splits)

lemma sys_drop_cache:
  assumes ok: "sys_ok st C G L"
  shows "sys_ok st (C(k := None)) G (L(k := []))"
  using sys_list [OF ok] sys_none [OF ok] sys_cache [OF ok] sys_disjoint [OF ok]
  by (intro sys_okI) (auto split: if_splits)

text \<open>A new freelist over fresh cells.\<close>

lemma sys_new_list:
  assumes ok: "sys_ok st C G L" and "lists st i = None"
    and h: "\<And>x. x \<in> dom (blk st) \<Longrightarrow> h x = blk st x" "nullptr \<notin> dom h"
    and g: "fl_holds g h xs" "\<not> bulk_lock g" "set xs \<inter> dom (blk st) = {}"
  shows "sys_ok (st\<lparr>blk := h, lists := (lists st)(i \<mapsto> g)\<rparr>) C (G(i := xs)) L"
proof (rule sys_okI)
  let ?st = "st\<lparr>blk := h, lists := (lists st)(i \<mapsto> g)\<rparr>"
  have fr: "set (G j) \<subseteq> dom (blk st)" "set (L k) \<subseteq> dom (blk st)" for j k
    using sys_free_dom(1) [OF ok] unfolding sys_free_def by blast+
  then have sg: "seg h q (G j) r = seg (blk st) q (G j) r" "seg h q (L k) r = seg (blk st) q (L k) r" for j k q r
    using h(1) by (meson seg_frame subsetD)+
  show "nullptr \<notin> dom (blk ?st)" using h(2) by simp
  show "fl_holds g' (blk ?st) ((G(i := xs)) j) \<and> \<not> bulk_lock g'" if "lists ?st j = Some g'" for j g'
    using that g sys_list [OF ok, of j g'] sg(1) by (auto simp: fl_holds_def split: if_splits)
  show "(G(i := xs)) j = []" if "lists ?st j = None" for j
    using that sys_none(1) [OF ok] by (auto split: if_splits)
  show "chain (blk ?st) (local_head c) (L k) \<and> unat (local_size c) = length (L k) \<and> limits_ok c \<and> global c \<in> dom (lists ?st)"
    if "C k = Some c" for k c using sys_cache [OF ok that] sg(2) by auto
  show "L k = []" if "C k = None" for k using sys_none(2) [OF ok that] .
  show "set ((G(i := xs)) j) \<inter> set ((G(i := xs)) j') = {}" if "j \<noteq> j'" for j j'
    using that sys_disjoint(1) [OF ok that] fr(1) [of j] fr(1) [of j'] g(3)
    by (cases "j = i"; cases "j' = i") auto
  show "set (L k) \<inter> set (L l) = {}" if "k \<noteq> l" for k l by (rule sys_disjoint(2) [OF ok that])
  show "set ((G(i := xs)) j) \<inter> set (L k) = {}" for j k
    using sys_disjoint(3) [OF ok, of j k] fr(2) [of k] g(3) by (cases "j = i") auto
qed

end
