(* ===== verification/TL_Freelist.thy ===== *)
theory TL_Freelist
  imports Cache_System
begin

text \<open>
  \<^verbatim>\<open>ThreadLocalFreelistAllocator\<close> (include/tl\_freelist\_allocator.hpp, src/tl\_freelist\_allocator.cpp):
  one region cut into blocks, a shared freelist over them and a \<^verbatim>\<open>thread_local\<close> cache. The state
  of the process holds the store of freelists, the thread-local variables of every thread and the C
  library's outstanding allocations; an allocator object is a record that names its freelist.
\<close>

section \<open>Data and operations\<close>

record ThreadLocalFreelistAllocator =
  tl_global :: nat
  tl_batch_size :: u64
  tl_block_size :: u64
  tl_block_count :: u64
  region :: addr

text \<open>\<open>tls_cache\<close> is the function-local \<^verbatim>\<open>thread_local\<close> variable of \<^verbatim>\<open>get_cache\<close>: one per thread.\<close>

record proc =
  mem :: store
  tls_cache :: "tid \<rightharpoonup> ThreadCache"
  envs :: "tid \<Rightarrow> thread_env"
  live :: libc

definition CACHE_LINE :: u64 where
  "CACHE_LINE = 64"

text \<open>\<^verbatim>\<open>struct alignas(64) FreeBlock\<close>: one pointer, padded to the alignment.\<close>

definition sizeof_FreeBlock :: u64 where
  "sizeof_FreeBlock = 64"

definition align_up :: "u64 \<Rightarrow> u64 \<Rightarrow> u64" where
  "align_up val alignment = (val + alignment - 1) AND NOT (alignment - 1)"

text \<open>
  Memory obtained at \<open>r\<close> with \<open>bytes\<close> bytes and used as an array with the given stride: a cell with
  arbitrary content \<open>junk\<close> at every multiple of the stride inside it. Freed memory loses its cells.
\<close>

definition fresh_cells :: "addr \<Rightarrow> u64 \<Rightarrow> u64 \<Rightarrow> (addr \<Rightarrow> addr) \<Rightarrow> heap \<Rightarrow> heap" where
  "fresh_cells r bytes stride junk h =
     (\<lambda>x. if x - r < bytes \<and> (x - r) mod stride = 0 then Some (junk x) else h x)"

definition drop_cells :: "addr \<Rightarrow> u64 \<Rightarrow> heap \<Rightarrow> heap" where
  "drop_cells r bytes h = (\<lambda>x. if x - r < bytes then None else h x)"

text \<open>The loop of the constructor that pushes every block.\<close>

function init_loop ::
  "FreelistAllocator \<Rightarrow> heap \<Rightarrow> addr \<Rightarrow> u64 \<Rightarrow> u64 \<Rightarrow> u64 \<Rightarrow> (FreelistAllocator \<times> heap) option" where
  "init_loop g h base sz i n =
     (if i < n then do { (g', h') \<leftarrow> push g h (base + i * sz); init_loop g' h' base sz (i + 1) n }
      else Some (g, h))"
  by pat_completeness auto
termination
  by (relation "measure (\<lambda>(g, h, base, sz, i, n). unat n - unat i)") (auto intro: unat_inc_less)

declare init_loop.simps [simp del]

text \<open>
  The constructor, given the result \<open>r\<close> of \<^verbatim>\<open>std::aligned_alloc\<close>, the content of fresh memory and
  the name \<open>obj\<close> of the new object's freelist.
\<close>

definition ThreadLocalFreelistAllocator_new ::
  "addr \<Rightarrow> (addr \<Rightarrow> addr) \<Rightarrow> nat \<Rightarrow> u64 \<Rightarrow> u64 \<Rightarrow> u64 \<Rightarrow> proc
     \<Rightarrow> ((cpp_error + ThreadLocalFreelistAllocator) \<times> proc) option" where
  "ThreadLocalFreelistAllocator_new r junk obj block_sz num_blocks batch s =
     (let bsize = align_up (if block_sz < sizeof_FreeBlock then sizeof_FreeBlock else block_sz) CACHE_LINE;
          bytes = align_up (bsize * num_blocks) CACHE_LINE;
          s1 = s\<lparr>live := libc_alloc r bytes (live s)\<rparr>
      in if r = nullptr then Some (Inl Bad_alloc, s1)
         else do { (g, h) \<leftarrow> init_loop FreelistAllocator_new (fresh_cells r bytes bsize junk (blk (mem s))) r bsize 0 num_blocks;
                   Some (Inr \<lparr>tl_global = obj, tl_batch_size = batch, tl_block_size = bsize,
                              tl_block_count = num_blocks, region = r\<rparr>,
                         s1\<lparr>mem := (mem s)\<lparr>blk := h, lists := (lists (mem s))(obj \<mapsto> g)\<rparr>\<rparr>) })"

definition ThreadLocalFreelistAllocator_delete :: "ThreadLocalFreelistAllocator \<Rightarrow> proc \<Rightarrow> proc" where
  "ThreadLocalFreelistAllocator_delete a s =
     (let h = (if region a \<noteq> nullptr
               then (case live s (region a) of None \<Rightarrow> blk (mem s) | Some n \<Rightarrow> drop_cells (region a) n (blk (mem s)))
               else blk (mem s))
      in s\<lparr>mem := (mem s)\<lparr>blk := h, lists := (lists (mem s))(tl_global a := None)\<rparr>,
           live := (if region a \<noteq> nullptr then libc_free (region a) (live s) else live s)\<rparr>)"

definition get_cache :: "ThreadLocalFreelistAllocator \<Rightarrow> tid \<Rightarrow> proc \<Rightarrow> ThreadCache \<times> proc" where
  "get_cache a t s =
     (case tls_cache s t of
        Some c \<Rightarrow> (c, s)
      | None \<Rightarrow> let c = ThreadCache_new (tl_global a) (tl_batch_size a)
                in (c, s\<lparr>tls_cache := (tls_cache s)(t \<mapsto> c)\<rparr>))"

definition tl_alloc :: "build \<Rightarrow> ThreadLocalFreelistAllocator \<Rightarrow> tid \<Rightarrow> proc \<Rightarrow> (addr \<times> proc) option" where
  "tl_alloc cfg a t s =
     (let (c, s1) = get_cache a t s
      in do { (p, st, c', env) \<leftarrow> tc_alloc cfg (mem s1, c, envs s1 t);
              Some (p, s1\<lparr>mem := st, tls_cache := (tls_cache s1)(t \<mapsto> c'), envs := (envs s1)(t := env)\<rparr>) })"

definition tl_dealloc :: "build \<Rightarrow> ThreadLocalFreelistAllocator \<Rightarrow> tid \<Rightarrow> proc \<Rightarrow> addr \<Rightarrow> proc option" where
  "tl_dealloc cfg a t s p =
     (let (c, s1) = get_cache a t s
      in do { (st, c', env) \<leftarrow> tc_dealloc cfg (mem s1, c, envs s1 t) p;
              Some (s1\<lparr>mem := st, tls_cache := (tls_cache s1)(t \<mapsto> c'), envs := (envs s1)(t := env)\<rparr>) })"

text \<open>The end of a thread: its thread-local variables go; \<^verbatim>\<open>~ThreadCache() = default\<close> does nothing.\<close>

definition thread_exit :: "tid \<Rightarrow> proc \<Rightarrow> proc" where
  "thread_exit t s = s\<lparr>tls_cache := (tls_cache s)(t := None), envs := (envs s)(t := thread_env_new)\<rparr>"

section \<open>Rounding and layout\<close>

lemma align_up_div: "align_up x CACHE_LINE = ((x + 63) div 64) * 64"
proof -
  have "(y AND NOT 63) = push_bit 6 (drop_bit 6 y)" for y :: u64
  proof (rule bit_eqI)
    fix n
    have m: "(63 :: u64) = mask 6" by (simp add: mask_eq_exp_minus_1)
    show "bit (y AND NOT 63) n = bit (push_bit 6 (drop_bit 6 y)) n"
      unfolding m by (auto simp: bit_simps)
  qed
  moreover have "x + 64 - 1 = x + 63" by simp
  ultimately show ?thesis
    by (simp add: align_up_def CACHE_LINE_def push_bit_eq_mult drop_bit_eq_div add.commute)
qed

lemma unat_align_up:
  "unat x + 63 < 2 ^ 64 \<Longrightarrow> unat (align_up x CACHE_LINE) = ((unat x + 63) div 64) * 64"
  unfolding align_up_div by (rule round_up_64)

lemma init_loop_holds:
  assumes fits: "array_fits base sz n" and i: "i \<le> n"
    and g: "fl_holds g h (map (block_at base sz) (rev [0..<i]))" "\<not> bulk_lock g"
    and d: "\<forall>j < n. block_at base sz j \<in> dom h"
  shows "\<exists>g' h'. init_loop g h base sz (of_nat i) (of_nat n) = Some (g', h') \<and> \<not> bulk_lock g'
    \<and> fl_holds g' h' (map (block_at base sz) (rev [0..<n])) \<and> dom h' = dom h
    \<and> (\<forall>x. x \<notin> block_at base sz ` {..<n} \<longrightarrow> h' x = h x)"
  using i g d
proof (induction "n - i" arbitrary: i g h)
  case 0
  then show ?case by (subst init_loop.simps) auto
next
  case (Suc k)
  have n64: "n < 2 ^ 64" by (rule array_fits_count [OF fits])
  have i: "i < n" using Suc.hyps(2) by simp
  then have lt: "(of_nat i :: u64) < of_nat n"
    using n64 by (simp add: word_less_nat_alt unat_of_nat_64)
  have b: "base + of_nat i * sz = block_at base sz i" by (simp add: block_at_def)
  have "block_at base sz i \<notin> set (map (block_at base sz) (rev [0..<i]))"
    using block_at_inj [OF fits i] i by (auto simp: image_iff)
  then obtain g' where g': "push g h (block_at base sz i) = Some (g', h(block_at base sz i \<mapsto> ptr (head g)))"
    "fl_holds g' (h(block_at base sz i \<mapsto> ptr (head g))) (block_at base sz i # map (block_at base sz) (rev [0..<i]))"
    "bulk_lock g' = bulk_lock g"
    using push_holds [OF Suc.prems(2), of "block_at base sz i"] block_at_nonnull [OF fits i] Suc.prems(4) i by blast
  have hold: "fl_holds g' (h(block_at base sz i \<mapsto> ptr (head g))) (map (block_at base sz) (rev [0..<Suc i]))"
    using g'(2) by simp
  obtain g2 h2 where IH: "init_loop g' (h(block_at base sz i \<mapsto> ptr (head g))) base sz (of_nat (Suc i)) (of_nat n) = Some (g2, h2)"
    "\<not> bulk_lock g2" "fl_holds g2 h2 (map (block_at base sz) (rev [0..<n]))" "dom h2 = dom (h(block_at base sz i \<mapsto> ptr (head g)))"
    "\<forall>x. x \<notin> block_at base sz ` {..<n} \<longrightarrow> h2 x = (h(block_at base sz i \<mapsto> ptr (head g))) x"
  proof -
    let ?h = "h(block_at base sz i \<mapsto> ptr (head g))"
    have "k = n - Suc i" "Suc i \<le> n" using Suc.hyps(2) i by simp_all
    moreover have "\<forall>j<n. block_at base sz j \<in> dom ?h" "\<not> bulk_lock g'" using Suc.prems(3,4) g'(3) by auto
    ultimately show thesis using Suc.hyps(1) [of "Suc i" g' ?h] hold that by blast
  qed
  have "init_loop g h base sz (of_nat i) (of_nat n) = Some (g2, h2)"
    using IH(1) g'(1) lt b by (subst init_loop.simps) (simp add: add.commute)
  moreover have "h2 x = h x" if "x \<notin> block_at base sz ` {..<n}" for x using IH(5) that i by auto
  moreover have "dom h2 = dom h" using IH(4) Suc.prems(4) i by auto
  ultimately show ?case using IH(2,3) by blast
qed


text \<open>The cells of fresh memory are the blocks, when the array of blocks fits.\<close>

lemma fresh_cells_blocks:
  assumes fits: "array_fits base sz n" and bytes: "unat bytes = n * unat sz"
  shows "dom (fresh_cells base bytes sz junk h) = dom h \<union> block_at base sz ` {..<n}"
    and "x \<notin> block_at base sz ` {..<n} \<Longrightarrow> fresh_cells base bytes sz junk h x = h x"
proof -
  have sz0: "0 < unat sz" using fits by (simp add: array_fits_def)
  have cell: "x - base < bytes \<and> (x - base) mod sz = 0 \<longleftrightarrow> x \<in> block_at base sz ` {..<n}" for x
  proof
    assume "x - base < bytes \<and> (x - base) mod sz = 0"
    then have lt: "unat (x - base) < n * unat sz" and m: "unat (x - base) mod unat sz = 0"
      using bytes by (simp_all add: word_less_nat_alt flip: unat_mod unat_eq_0)
    define i where "i = unat (x - base) div unat sz"
    have ux: "unat (x - base) = i * unat sz" using m unfolding i_def by (metis add.right_neutral div_mult_mod_eq)
    then have i: "i < n" using lt sz0 by simp
    have "x - base = of_nat i * sz" by (metis of_nat_mult of_nat_unat_64 ux)
    then have "x = block_at base sz i" unfolding block_at_def by (metis add.commute diff_add_cancel)
    with i show "x \<in> block_at base sz ` {..<n}" by blast
  next
    assume "x \<in> block_at base sz ` {..<n}"
    then obtain i where i: "i < n" "x = block_at base sz i" by blast
    have le: "i * unat sz < n * unat sz" using i(1) sz0 by simp
    then have "i * unat sz < 2 ^ 64" using unat_lt_2p64 [of bytes] bytes by linarith
    moreover have "unat (of_nat i :: u64) = i" using array_fits_count [OF fits] i by (intro unat_of_nat_64) simp
    ultimately have u: "unat (x - base) = i * unat sz"
      using unat_times_64 [of "of_nat i" sz] i(2) by (simp add: block_at_def)
    then have "unat ((x - base) mod sz) = 0" by (simp add: unat_mod)
    then show "x - base < bytes \<and> (x - base) mod sz = 0"
      using u le bytes by (simp only: word_less_nat_alt unat_eq_0)
  qed
  show "dom (fresh_cells base bytes sz junk h) = dom h \<union> block_at base sz ` {..<n}"
    unfolding fresh_cells_def cell by (auto split: if_splits)
  show "x \<notin> block_at base sz ` {..<n} \<Longrightarrow> fresh_cells base bytes sz junk h x = h x"
    unfolding fresh_cells_def cell by simp
qed

section \<open>The process-wide invariant\<close>

definition proc_free :: "proc \<Rightarrow> addr set" where
  "proc_free s = {x. \<exists>G L. sys_ok (mem s) (tls_cache s) G L \<and> x \<in> sys_free G L}"

definition proc_blocks :: "proc \<Rightarrow> addr set" where
  "proc_blocks s = dom (blk (mem s))"

definition tl_invar :: "ThreadLocalFreelistAllocator \<Rightarrow> proc \<Rightarrow> bool" where
  "tl_invar a s = ((\<exists>G L. sys_ok (mem s) (tls_cache s) G L) \<and> tl_global a \<in> dom (lists (mem s))
     \<and> 2 * unat (tl_batch_size a) < 2 ^ 64)"

lemma sys_ok_unique:
  assumes "sys_ok st C G L" "sys_ok st C G' L'"
  shows "G' = G" "L' = L"
proof -
  show "G' = G"
  proof
    fix i show "G' i = G i"
      using sys_list [OF assms(1), of i] sys_list [OF assms(2), of i] sys_none(1) [OF assms(1), of i]
        sys_none(1) [OF assms(2), of i] fl_holds_unique by (cases "lists st i") metis+
  qed
  show "L' = L"
  proof
    fix k show "L' k = L k"
      using sys_cache [OF assms(1), of k] sys_cache [OF assms(2), of k] sys_none(2) [OF assms(1), of k]
        sys_none(2) [OF assms(2), of k] chain_unique by (cases "C k") metis+
  qed
qed

lemma proc_free_eq: "sys_ok (mem s) (tls_cache s) G L \<Longrightarrow> proc_free s = sys_free G L"
  unfolding proc_free_def by (auto dest: sys_ok_unique)

lemma get_cache_ok:
  assumes "tl_invar a s" "sys_ok (mem s) (tls_cache s) G L"
  obtains c s1 where "get_cache a t s = (c, s1)" "mem s1 = mem s" "envs s1 = envs s" "tls_cache s1 = (tls_cache s)(t \<mapsto> c)"
    "sys_ok (mem s) (tls_cache s1) G L" "tls_cache s1 t = Some c"
proof (cases "tls_cache s t")
  case None
  let ?c = "ThreadCache_new (tl_global a) (tl_batch_size a)"
  have "sys_ok (mem s) ((tls_cache s)(t \<mapsto> ?c)) G L"
    by (rule sys_new_cache [OF assms(2) None]) (use assms(1) in \<open>auto simp: tl_invar_def\<close>)
  then show thesis using that [of ?c "s\<lparr>tls_cache := (tls_cache s)(t \<mapsto> ?c)\<rparr>"] None by (simp add: get_cache_def Let_def)
next
  case (Some c)
  then show thesis using that [of c s] assms(2) by (simp add: get_cache_def fun_upd_idem)
qed

text \<open>
  One call of \<^verbatim>\<open>alloc\<close> by thread \<open>t\<close>: what it returns and which lists it changes, where
  \<open>i\<close> is the freelist behind the thread's cache.
\<close>

definition cache_list :: "ThreadLocalFreelistAllocator \<Rightarrow> tid \<Rightarrow> proc \<Rightarrow> nat" where
  "cache_list a t s = global (fst (get_cache a t s))"

lemma cache_list_fresh:
  assumes "tls_cache s t = None"
  shows "cache_list a t s = tl_global a" "batch_size (fst (get_cache a t s)) = tl_batch_size a"
  using assms by (simp_all add: cache_list_def get_cache_def ThreadCache_new_def Let_def)

lemma tl_alloc_ok:
  assumes inv: "tl_invar a s" and ok: "sys_ok (mem s) (tls_cache s) G L"
  shows "\<exists>p s' G' L'. tl_alloc cfg a t s = Some (p, s') \<and> tl_invar a s' \<and> sys_ok (mem s') (tls_cache s') G' L'
    \<and> proc_blocks s' = proc_blocks s \<and> sys_free G' L' = sys_free G L - {p}
    \<and> (p = nullptr \<longleftrightarrow> G (cache_list a t s) = [] \<and> L t = [])
    \<and> (p \<noteq> nullptr \<longrightarrow> p \<in> set (G (cache_list a t s)) \<union> set (L t))
    \<and> (\<forall>u. u \<noteq> t \<longrightarrow> L' u = L u \<and> tls_cache s' u = tls_cache s u)
    \<and> (p, G' (cache_list a t s), L' t) = cache_alloc (unat (batch_size (fst (get_cache a t s)))) (G (cache_list a t s), L t)
    \<and> (\<exists>c'. tls_cache s' t = Some c' \<and> same_limits (fst (get_cache a t s)) c')"
proof -
  obtain c s1 where c: "get_cache a t s = (c, s1)" "mem s1 = mem s" "envs s1 = envs s"
    "sys_ok (mem s) (tls_cache s1) G L" "tls_cache s1 t = Some c" "tls_cache s1 = (tls_cache s)(t \<mapsto> c)"
    by (rule get_cache_ok [OF inv ok])
  obtain p st' c' env' G' L' where p: "tc_alloc cfg (mem s, c, envs s t) = Some (p, st', c', env')"
    "sys_ok st' ((tls_cache s1)(t \<mapsto> c')) G' L'" "sys_free G' L' = sys_free G L - {p}"
    "p = nullptr \<longleftrightarrow> G (global c) = [] \<and> L t = []" "p \<noteq> nullptr \<longrightarrow> p \<in> set (G (global c)) \<union> set (L t)"
    "dom (blk st') = dom (blk (mem s))" "dom (lists st') = dom (lists (mem s))" "\<forall>l. l \<noteq> t \<longrightarrow> L' l = L l"
    "cache_alloc (unat (batch_size c)) (G (global c), L t) = (p, G' (global c), L' t)" "same_limits c c'"
    by (rule sys_alloc [OF c(4,5), of cfg "envs s t"])
  let ?s = "s1\<lparr>mem := st', tls_cache := (tls_cache s1)(t \<mapsto> c'), envs := (envs s1)(t := env')\<rparr>"
  have "tl_alloc cfg a t s = Some (p, ?s)" using c(1,2,3) p(1) by (simp add: tl_alloc_def)
  moreover have "tl_invar a ?s" using inv p(2,7) by (auto simp: tl_invar_def)
  moreover have "proc_blocks ?s = proc_blocks s" using p(6) by (simp add: proc_blocks_def)
  moreover have "cache_list a t s = global c" using c(1) by (simp add: cache_list_def)
  ultimately show ?thesis using p(2-5,8-10) c(1,6)
    by (intro exI [of _ ?s] exI [of _ p] exI [of _ G'] exI [of _ L']) simp
qed

lemma tl_dealloc_ok:
  assumes inv: "tl_invar a s" and ok: "sys_ok (mem s) (tls_cache s) G L" and p: "p \<in> proc_blocks s" "p \<notin> sys_free G L"
  shows "\<exists>s' G' L'. tl_dealloc cfg a t s p = Some s' \<and> tl_invar a s' \<and> sys_ok (mem s') (tls_cache s') G' L'
    \<and> proc_blocks s' = proc_blocks s \<and> sys_free G' L' = insert p (sys_free G L) \<and> (\<forall>u. u \<noteq> t \<longrightarrow> L' u = L u)"
proof -
  obtain c s1 where c: "get_cache a t s = (c, s1)" "mem s1 = mem s" "envs s1 = envs s"
    "sys_ok (mem s) (tls_cache s1) G L" "tls_cache s1 t = Some c" by (rule get_cache_ok [OF inv ok])
  obtain st' c' env' G' L' where d: "tc_dealloc cfg (mem s, c, envs s t) p = Some (st', c', env')"
    "sys_ok st' ((tls_cache s1)(t \<mapsto> c')) G' L'" "sys_free G' L' = insert p (sys_free G L)"
    "dom (blk st') = dom (blk (mem s))" "dom (lists st') = dom (lists (mem s))" "\<forall>l. l \<noteq> t \<longrightarrow> L' l = L l"
    by (rule sys_dealloc [OF c(4,5) p [unfolded proc_blocks_def], of cfg "envs s t"])
  let ?s = "s1\<lparr>mem := st', tls_cache := (tls_cache s1)(t \<mapsto> c'), envs := (envs s1)(t := env')\<rparr>"
  have "tl_dealloc cfg a t s p = Some ?s" using c(1,2,3) d(1) by (simp add: tl_dealloc_def)
  moreover have "tl_invar a ?s" using inv d(2,5) by (auto simp: tl_invar_def)
  moreover have "proc_blocks ?s = proc_blocks s" using d(4) by (simp add: proc_blocks_def)
  ultimately show ?thesis using d(2,3,6) by (intro exI [of _ ?s] exI [of _ G'] exI [of _ L']) simp
qed

text \<open>For every thread, the operations of an allocator are those of a block pool.\<close>

lemma tl_alloc_cases:
  assumes "tl_invar a s"
  shows "\<exists>p s'. tl_alloc cfg a t s = Some (p, s') \<and> tl_invar a s' \<and> proc_blocks s' = proc_blocks s
    \<and> proc_free s' = proc_free s - {p} \<and> (p \<noteq> nullptr \<longrightarrow> p \<in> proc_free s)"
proof -
  obtain G L where ok: "sys_ok (mem s) (tls_cache s) G L" using assms by (auto simp: tl_invar_def)
  from tl_alloc_ok [OF assms ok, of cfg t] obtain p s' G' L' where a: "tl_alloc cfg a t s = Some (p, s')" "tl_invar a s'"
    "sys_ok (mem s') (tls_cache s') G' L'" "proc_blocks s' = proc_blocks s" "sys_free G' L' = sys_free G L - {p}"
    "p \<noteq> nullptr \<longrightarrow> p \<in> set (G (cache_list a t s)) \<union> set (L t)" by blast
  moreover have "set (G (cache_list a t s)) \<union> set (L t) \<subseteq> sys_free G L" by (auto simp: sys_free_def)
  ultimately show ?thesis using proc_free_eq [OF ok] proc_free_eq [OF a(3)] by auto
qed

interpretation tlf: block_pool "tl_alloc cfg a t" "tl_dealloc cfg a t" "tl_invar a" proc_blocks proc_free for cfg a t
proof
  fix s assume inv: "tl_invar a s"
  then obtain G L where ok: "sys_ok (mem s) (tls_cache s) G L" by (auto simp: tl_invar_def)
  show "proc_free s \<subseteq> proc_blocks s" using sys_free_dom(1) [OF ok] proc_free_eq [OF ok] by (simp add: proc_blocks_def)
  show "nullptr \<notin> proc_blocks s" using sys_disjoint(4) [OF ok] by (simp add: proc_blocks_def)
  show "\<exists>p s'. tl_alloc cfg a t s = Some (p, s')" using tl_alloc_cases [OF inv] by blast
  show "\<exists>s'. tl_dealloc cfg a t s p = Some s' \<and> tl_invar a s' \<and> proc_blocks s' = proc_blocks s \<and> proc_free s' = insert p (proc_free s)"
    if "p \<in> proc_blocks s - proc_free s" for p
    using tl_dealloc_ok [OF inv ok, of p cfg t] that proc_free_eq by (metis DiffE ok)
next
  fix s p s' assume "tl_invar a s" "tl_alloc cfg a t s = Some (p, s')"
  then show "tl_invar a s'" "proc_blocks s' = proc_blocks s" "p \<noteq> nullptr \<Longrightarrow> p \<in> proc_free s \<and> proc_free s' = proc_free s - {p}"
    using tl_alloc_cases [of a s cfg t] by auto
next
  fix s s' assume inv: "tl_invar a s" and al: "tl_alloc cfg a t s = Some (nullptr, s')"
  then obtain G L where ok: "sys_ok (mem s) (tls_cache s) G L" by (auto simp: tl_invar_def)
  have "nullptr \<notin> proc_free s" using sys_free_dom(2) [OF ok] proc_free_eq [OF ok] by simp
  then show "proc_free s' = proc_free s" using tl_alloc_cases [OF inv, of cfg t] al by auto
qed


section \<open>Construction\<close>

text \<open>The block size the constructor settles on, and when its arithmetic and the region do not wrap around.\<close>

definition rounded_size :: "u64 \<Rightarrow> nat" where
  "rounded_size block_sz = ((max 64 (unat block_sz) + 63) div 64) * 64"

definition ctor_fits :: "addr \<Rightarrow> u64 \<Rightarrow> u64 \<Rightarrow> bool" where
  "ctor_fits r block_sz num_blocks = (r \<noteq> nullptr \<and> unat block_sz + 63 < 2 ^ 64
     \<and> unat r + unat num_blocks * rounded_size block_sz + 63 < 2 ^ 64)"

lemma ctor_sizes:
  assumes "ctor_fits r block_sz num_blocks"
  defines "sz \<equiv> align_up (if block_sz < sizeof_FreeBlock then sizeof_FreeBlock else block_sz) CACHE_LINE"
  shows "unat sz = rounded_size block_sz" "unat (align_up (sz * num_blocks) CACHE_LINE) = unat num_blocks * unat sz"
    "array_fits r sz (unat num_blocks)" "64 dvd unat sz" "unat block_sz \<le> unat sz"
proof -
  let ?b = "if block_sz < sizeof_FreeBlock then sizeof_FreeBlock else block_sz"
  have b: "unat ?b = max 64 (unat block_sz)" by (simp add: sizeof_FreeBlock_def word_less_nat_alt max_def)
  then show u: "unat sz = rounded_size block_sz"
    unfolding sz_def rounded_size_def using unat_align_up [of ?b] assms(1) by (simp add: ctor_fits_def max_def)
  then show d: "64 dvd unat sz" by (simp add: rounded_size_def)
  show "unat block_sz \<le> unat sz" unfolding u rounded_size_def by linarith
  have f: "unat r + unat num_blocks * unat sz + 63 < 2 ^ 64" using assms(1) u by (simp add: ctor_fits_def)
  then have "unat (sz * num_blocks) = unat num_blocks * unat sz" using unat_times_64 [of sz num_blocks] by (simp add: mult.commute)
  then have "unat (align_up (sz * num_blocks) CACHE_LINE) = ((unat num_blocks * unat sz + 63) div 64) * 64"
    using unat_align_up [of "sz * num_blocks"] f by simp
  moreover obtain m where "unat num_blocks * unat sz = 64 * m" using dvd_mult [OF d, of "unat num_blocks"] by (elim dvdE)
  ultimately show "unat (align_up (sz * num_blocks) CACHE_LINE) = unat num_blocks * unat sz" by simp
  have "0 < unat sz" unfolding u rounded_size_def by simp
  then show "array_fits r sz (unat num_blocks)"
    using f assms(1) by (simp add: array_fits_def ctor_fits_def unat_gt_0)
qed

text \<open>Pushing the blocks of fresh memory one by one gives a freelist that holds them all.\<close>

lemma init_list_ok:
  assumes fits: "array_fits r sz (unat n)" and bytes: "unat bytes = unat n * unat sz" and ok: "sys_ok st C G L"
    and fresh: "lists st obj = None" "dom (blk st) \<inter> block_at r sz ` {..<unat n} = {}"
  defines "xs \<equiv> map (block_at r sz) (rev [0..<unat n])"
  obtains g h where "init_loop FreelistAllocator_new (fresh_cells r bytes sz junk (blk st)) r sz 0 n = Some (g, h)"
    "sys_ok (st\<lparr>blk := h, lists := (lists st)(obj \<mapsto> g)\<rparr>) C (G(obj := xs)) L" "dom h = dom (blk st) \<union> set xs"
proof -
  let ?h = "fresh_cells r bytes sz junk (blk st)"
  note fc = fresh_cells_blocks [OF fits bytes, where junk = junk and h = "blk st"]
  have "\<forall>j < unat n. block_at r sz j \<in> dom ?h" using fc(1) by blast
  then obtain g h where gh: "init_loop FreelistAllocator_new ?h r sz 0 n = Some (g, h)" "\<not> bulk_lock g"
    "fl_holds g h xs" "dom h = dom ?h" "\<forall>x. x \<notin> block_at r sz ` {..<unat n} \<longrightarrow> h x = ?h x"
    using init_loop_holds [OF fits, of 0 FreelistAllocator_new ?h] fl_new_holds [of ?h]
    unfolding xs_def by (auto simp: of_nat_unat_64 FreelistAllocator_new_def)
  have xs: "set xs = block_at r sz ` {..<unat n}" unfolding xs_def by auto
  have dis: "set xs \<inter> dom (blk st) = {}" using fresh(2) unfolding xs by blast
  have "h x = blk st x" if "x \<in> dom (blk st)" for x using gh(5) fc(2) that dis xs by auto
  moreover have "nullptr \<notin> dom h" using gh(4) fc(1) sys_disjoint(4) [OF ok] block_at_nonnull [OF fits] by auto
  ultimately have "sys_ok (st\<lparr>blk := h, lists := (lists st)(obj \<mapsto> g)\<rparr>) C (G(obj := xs)) L"
    using sys_new_list [OF ok fresh(1) _ _ gh(3,2) dis] by simp
  with that gh(1,4) fc(1) xs show thesis by simp
qed

lemma tl_new_ok:
  assumes fits: "ctor_fits r block_sz num_blocks" and ok: "sys_ok (mem s) (tls_cache s) G L"
    and fresh: "lists (mem s) obj = None" "proc_blocks s \<inter> block_at r (of_nat (rounded_size block_sz)) ` {..<unat num_blocks} = {}"
  defines "xs \<equiv> map (block_at r (of_nat (rounded_size block_sz))) (rev [0..<unat num_blocks])"
  obtains a s' where "ThreadLocalFreelistAllocator_new r junk obj block_sz num_blocks batch s = Some (Inr a, s')"
    "sys_ok (mem s') (tls_cache s') (G(obj := xs)) L" "proc_blocks s' = proc_blocks s \<union> set xs"
    "tl_global a = obj" "tl_batch_size a = batch" "tl_block_size a = of_nat (rounded_size block_sz)"
    "tl_block_count a = num_blocks" "region a = r" "dom (lists (mem s')) = insert obj (dom (lists (mem s)))"
    "live s' = (live s)(r \<mapsto> num_blocks * of_nat (rounded_size block_sz))" "tls_cache s' = tls_cache s" "envs s' = envs s"
proof -
  define sz where "sz = align_up (if block_sz < sizeof_FreeBlock then sizeof_FreeBlock else block_sz) CACHE_LINE"
  define bytes where "bytes = align_up (sz * num_blocks) CACHE_LINE"
  note sizes = ctor_sizes [OF fits, folded sz_def, folded bytes_def]
  have sz: "of_nat (rounded_size block_sz) = sz" by (metis of_nat_unat_64 sizes(1))
  have new: "dom (blk (mem s)) \<inter> block_at r sz ` {..<unat num_blocks} = {}" using fresh(2) unfolding proc_blocks_def sz .
  obtain g h where gh: "init_loop FreelistAllocator_new (fresh_cells r bytes sz junk (blk (mem s))) r sz 0 num_blocks = Some (g, h)"
    "sys_ok ((mem s)\<lparr>blk := h, lists := (lists (mem s))(obj \<mapsto> g)\<rparr>) (tls_cache s) (G(obj := xs)) L"
    "dom h = dom (blk (mem s)) \<union> set xs"
    unfolding xs_def sz by (rule init_list_ok [OF sizes(3,2) ok fresh(1) new])
  let ?a = "\<lparr>tl_global = obj, tl_batch_size = batch, tl_block_size = sz, tl_block_count = num_blocks, region = r\<rparr>"
  let ?s = "s\<lparr>live := libc_alloc r bytes (live s), mem := (mem s)\<lparr>blk := h, lists := (lists (mem s))(obj \<mapsto> g)\<rparr>\<rparr>"
  have r0: "r \<noteq> nullptr" using fits by (simp add: ctor_fits_def)
  have bytes: "bytes = num_blocks * sz" by (metis of_nat_mult of_nat_unat_64 sizes(2))
  have "ThreadLocalFreelistAllocator_new r junk obj block_sz num_blocks batch s = Some (Inr ?a, ?s)"
    using gh(1) r0 unfolding ThreadLocalFreelistAllocator_new_def sz_def [symmetric] Let_def bytes_def [symmetric] by simp
  moreover have "sys_ok (mem ?s) (tls_cache ?s) (G(obj := xs)) L" using gh(2) by simp
  moreover have "proc_blocks ?s = proc_blocks s \<union> set xs" using gh(3) by (simp add: proc_blocks_def)
  moreover have "live ?s = (live s)(r \<mapsto> num_blocks * sz)" using r0 by (simp add: libc_alloc_def bytes)
  ultimately show thesis using that [of ?a ?s] unfolding sz by simp
qed


section \<open>Properties\<close>

text \<open>C25. The constructor: when \<^verbatim>\<open>aligned_alloc\<close> fails it throws \<^verbatim>\<open>std::bad_alloc\<close> and changes
  nothing. Otherwise, with sizes that do not wrap around and memory that is not in use, it returns an
  allocator whose block size is the requested size (at least that of a \<^verbatim>\<open>FreeBlock\<close>) rounded up to a
  cache line, exactly \<open>num_blocks\<close> new blocks are free, all inside the region it asked for, pairwise
  apart by at least the block size and aligned when the region is, and no block of another
  allocator is touched.\<close>

theorem tlf_constructor:
  assumes "ctor_fits r block_sz num_blocks" "sys_ok (mem s) (tls_cache s) G L" "2 * unat batch < 2 ^ 64"
    and "lists (mem s) obj = None" "proc_blocks s \<inter> block_at r (of_nat (rounded_size block_sz)) ` {..<unat num_blocks} = {}"
  defines "B \<equiv> block_at r (of_nat (rounded_size block_sz))"
  shows "ThreadLocalFreelistAllocator_new nullptr junk obj block_sz num_blocks batch s = Some (Inl Bad_alloc, s)
    \<and> (\<exists>a s'. ThreadLocalFreelistAllocator_new r junk obj block_sz num_blocks batch s = Some (Inr a, s') \<and> tl_invar a s'
         \<and> proc_free s' = proc_free s \<union> B ` {..<unat num_blocks} \<and> proc_blocks s' = proc_blocks s \<union> B ` {..<unat num_blocks}
         \<and> card (B ` {..<unat num_blocks}) = unat num_blocks
         \<and> unat (tl_block_size a) = rounded_size block_sz \<and> unat block_sz \<le> rounded_size block_sz \<and> 64 dvd rounded_size block_sz
         \<and> (\<exists>n. live s' = (live s)(r \<mapsto> n) \<and> unat n = unat num_blocks * rounded_size block_sz))
    \<and> (\<forall>i < unat num_blocks. unat (B i) = unat r + i * rounded_size block_sz)"
proof -
  define sz where "sz = (of_nat (rounded_size block_sz) :: u64)"
  note sizes = ctor_sizes [OF assms(1)]
  have sz: "unat sz = rounded_size block_sz" "array_fits r sz (unat num_blocks)"
    unfolding sz_def by (metis of_nat_unat_64 sizes(1)) (metis of_nat_unat_64 sizes(1,3))
  obtain a s' where a: "ThreadLocalFreelistAllocator_new r junk obj block_sz num_blocks batch s = Some (Inr a, s')"
    "sys_ok (mem s') (tls_cache s') (G(obj := map B (rev [0..<unat num_blocks]))) L"
    "proc_blocks s' = proc_blocks s \<union> set (map B (rev [0..<unat num_blocks]))"
    "tl_global a = obj" "tl_batch_size a = batch" "tl_block_size a = sz"
    "dom (lists (mem s')) = insert obj (dom (lists (mem s)))" "live s' = (live s)(r \<mapsto> num_blocks * sz)"
    unfolding B_def sz_def by (rule tl_new_ok [OF assms(1,2,4,5), of junk batch])
  have B: "set (map B (rev [0..<unat num_blocks])) = B ` {..<unat num_blocks}" by auto
  have "sys_free (G(obj := map B (rev [0..<unat num_blocks]))) L = sys_free G L - {} \<union> B ` {..<unat num_blocks}"
    unfolding sys_free_def UN_split [of _ obj] B [symmetric] using sys_none(1) [OF assms(2,4)] by auto
  then have "proc_free s' = proc_free s \<union> B ` {..<unat num_blocks}" using proc_free_eq [OF a(2)] proc_free_eq [OF assms(2)] by simp
  moreover have "card (B ` {..<unat num_blocks}) = unat num_blocks"
    using block_at_inj [OF sz(2)] card_image [of B "{..<unat num_blocks}"] unfolding B_def sz_def by (simp add: inj_on_def)
  moreover have "unat (num_blocks * sz) = unat num_blocks * rounded_size block_sz"
    using unat_times_64 [of num_blocks sz] sz assms(1) by (simp add: ctor_fits_def)
  moreover have "tl_invar a s'" using a(2,4,5,7) assms(3) by (auto simp: tl_invar_def)
  moreover have "\<forall>i < unat num_blocks. unat (B i) = unat r + i * rounded_size block_sz"
    using unat_block_at [OF sz(2)] sz(1) unfolding B_def sz_def by simp
  moreover have "ThreadLocalFreelistAllocator_new nullptr junk obj block_sz num_blocks batch s = Some (Inl Bad_alloc, s)"
    by (simp add: ThreadLocalFreelistAllocator_new_def Let_def libc_alloc_def)
  ultimately show ?thesis using a(1,3,6,8) B sz(1) sizes(1,4,5)
    by (intro conjI exI [of _ a] exI [of _ s'] exI [of _ "num_blocks * sz"]) simp_all
qed

text \<open>C24. The allocator across threads: a call of \<^verbatim>\<open>alloc\<close> by any thread returns; it gives null with
  no block changing hands, or a block that was free and is not any more. Any thread, not only the
  one that allocated it, can give the block back, which makes it free again and nothing else.\<close>

theorem tlf_pool_across_threads:
  assumes "tl_invar a s"
  shows "\<exists>p s'. tl_alloc cfg a t s = Some (p, s') \<and> tl_invar a s' \<and> proc_free s' = proc_free s - {p}
    \<and> (p \<noteq> nullptr \<longrightarrow> p \<in> proc_free s
         \<and> (\<forall>u. \<exists>s''. tl_dealloc cfg a u s' p = Some s'' \<and> tl_invar a s'' \<and> proc_free s'' = proc_free s))"
proof -
  obtain p s' where a: "tl_alloc cfg a t s = Some (p, s')" "tl_invar a s'" "proc_blocks s' = proc_blocks s"
    "proc_free s' = proc_free s - {p}" "p \<noteq> nullptr \<longrightarrow> p \<in> proc_free s"
    using tl_alloc_cases [OF assms] by blast
  have "\<exists>s''. tl_dealloc cfg a u s' p = Some s'' \<and> tl_invar a s'' \<and> proc_free s'' = proc_free s" if "p \<noteq> nullptr" for u
  proof -
    have "p \<in> proc_blocks s' - proc_free s'" using tlf.free_blocks [OF assms] a(3-5) that by auto
    from tlf.dealloc_used [OF a(2) this, of cfg u] show ?thesis using a(4,5) that by (auto simp: insert_absorb)
  qed
  then show ?thesis using a by blast
qed

text \<open>Blocks can be stranded in a cache: if the shared list holds no more than one batch, the first
  \<^verbatim>\<open>alloc\<close> of a thread moves all of it into that thread's cache, and from then on another thread
  whose cache is empty gets null although all but one of the blocks are free.\<close>

theorem tlf_stranded_blocks:
  assumes "tl_invar a s" "sys_ok (mem s) (tls_cache s) G L" "tls_cache s t = None" "tls_cache s u = None" "t \<noteq> u"
    and "G (tl_global a) = x # xs" "length (x # xs) \<le> unat (tl_batch_size a)"
  shows "\<exists>s1 s2. tl_alloc cfg a t s = Some (x, s1) \<and> tl_alloc cfg a u s1 = Some (nullptr, s2) \<and> set xs \<subseteq> proc_free s2"
proof -
  note c = cache_list_fresh [of _ _ a]
  have L: "L t = []" "L u = []" using sys_none(2) [OF assms(2)] assms(3,4) by auto
  obtain p s1 G1 L1 where s1: "tl_alloc cfg a t s = Some (p, s1)" "tl_invar a s1" "sys_ok (mem s1) (tls_cache s1) G1 L1"
    "\<forall>v. v \<noteq> t \<longrightarrow> L1 v = L v \<and> tls_cache s1 v = tls_cache s v" "sys_free G1 L1 = sys_free G L - {p}"
    "(p, G1 (tl_global a), L1 t) = cache_alloc (unat (tl_batch_size a)) (G (tl_global a), L t)"
    using tl_alloc_ok [OF assms(1,2), of cfg t] c [OF assms(3)] by metis
  have p: "p = x" "G1 (tl_global a) = []" "L1 t = xs"
    using s1(6) L(1) assms(6,7) by (simp_all add: cache_alloc_def cache_refill_def Let_def)
  have u: "tls_cache s1 u = None" "L1 u = []" using s1(4) assms(4,5) L(2) by auto
  obtain q s2 G2 L2 where s2: "tl_alloc cfg a u s1 = Some (q, s2)" "sys_ok (mem s2) (tls_cache s2) G2 L2"
    "sys_free G2 L2 = sys_free G1 L1 - {q}" "q = nullptr \<longleftrightarrow> G1 (tl_global a) = [] \<and> L1 u = []"
    using tl_alloc_ok [OF s1(2,3), of cfg u] c [OF u(1)] by metis
  have "set xs \<subseteq> sys_free G1 L1" using p(3) by (auto simp: sys_free_def)
  then have "set xs \<subseteq> proc_free s2"
    using proc_free_eq [OF s2(2)] s2(3,4) p(2) u(2) sys_free_dom(2) [OF s1(3)] by auto
  then show ?thesis using s1(1) s2(1,4) p u(2) by auto
qed

text \<open>C39. The blocks in a thread's cache are lost when the thread ends: \<^verbatim>\<open>~ThreadCache() = default\<close>
  does not flush, so afterwards they are on no list of any thread, while they still belong to the pool.\<close>

theorem tlf_thread_exit_leak:
  assumes "tl_invar a s" "sys_ok (mem s) (tls_cache s) G L"
  shows "tl_invar a (thread_exit t s) \<and> proc_blocks (thread_exit t s) = proc_blocks s
    \<and> proc_free (thread_exit t s) = proc_free s - set (L t)"
proof -
  have ok: "sys_ok (mem (thread_exit t s)) (tls_cache (thread_exit t s)) G (L(t := []))"
    using sys_drop_cache [OF assms(2), of t] by (simp add: thread_exit_def)
  have "sys_free (G(0 := G 0)) (L(t := [])) = sys_free G L - set (L t) \<union> {}"
    by (rule sys_free_upd [OF assms(2)]) (use sys_disjoint(3) [OF assms(2), of 0 t] in auto)
  then show ?thesis
    using ok proc_free_eq [OF ok] proc_free_eq [OF assms(2)] assms(1)
    by (auto simp: tl_invar_def proc_blocks_def thread_exit_def)
qed

text \<open>All instances share one cache per thread: once a thread has used any
  \<^verbatim>\<open>ThreadLocalFreelistAllocator\<close>, its calls of \<^verbatim>\<open>alloc\<close> and \<^verbatim>\<open>dealloc\<close> on two instances
  \<open>a\<close> and \<open>b\<close> are the same, whatever their block sizes, and take blocks from the freelist of the
  instance it used first.\<close>

theorem tlf_instances_share_cache:
  assumes "tls_cache s t = Some c"
  shows "tl_alloc cfg a t s = tl_alloc cfg b t s \<and> tl_dealloc cfg a t s p = tl_dealloc cfg b t s p
    \<and> cache_list a t s = global c"
  using assms by (simp add: tl_alloc_def tl_dealloc_def get_cache_def cache_list_def)


section \<open>A concrete process\<close>

text \<open>A process in which one allocator with three blocks of 64 bytes has been built at address 4096.\<close>

definition proc0 :: proc where
  "proc0 = \<lparr>mem = \<lparr>blk = Map.empty, lists = Map.empty\<rparr>, tls_cache = Map.empty, envs = (\<lambda>_. thread_env_new), live = Map.empty\<rparr>"

lemma proc0_ok: "sys_ok (mem proc0) (tls_cache proc0) (\<lambda>_. []) (\<lambda>_. [])"
  by (rule sys_okI) (simp_all add: proc0_def)

lemma demo_ctor_fits: "ctor_fits 4096 48 3" "rounded_size 48 = 64"
  by (simp_all add: ctor_fits_def rounded_size_def)

lemma demo_fresh: "lists (mem proc0) 7 = None" "proc_blocks proc0 \<inter> A = {}"
  by (simp_all add: proc0_def proc_blocks_def)

lemma demo_proc:
  obtains a s where "ThreadLocalFreelistAllocator_new 4096 (\<lambda>_. 0) 7 48 3 16 proc0 = Some (Inr a, s)"
    "sys_ok (mem s) (tls_cache s) ((\<lambda>_. [])(7 := [4224, 4160, 4096])) (\<lambda>_. [])"
    "tl_global a = 7" "tl_batch_size a = 16" "tl_invar a s" "tls_cache s = Map.empty"
proof -
  have xs: "map (block_at 4096 (of_nat (rounded_size 48))) (rev [0..<unat (3 :: u64)]) = [4224, 4160, 4096]"
    by (simp add: demo_ctor_fits block_at_def upt_rec)
  obtain a s where "ThreadLocalFreelistAllocator_new 4096 (\<lambda>_. 0) 7 48 3 16 proc0 = Some (Inr a, s)"
    "sys_ok (mem s) (tls_cache s) ((\<lambda>_. [])(7 := [4224, 4160, 4096])) (\<lambda>_. [])"
    "tl_global a = 7" "tl_batch_size a = 16" "dom (lists (mem s)) = insert 7 (dom (lists (mem proc0)))" "tls_cache s = tls_cache proc0"
    by (rule tl_new_ok [OF demo_ctor_fits(1) proc0_ok demo_fresh, of "\<lambda>_. 0" 16, unfolded xs])
  then show thesis using that by (fastforce simp: tl_invar_def proc0_def)
qed

theorem tlf_constructor_witness:
  "\<exists>a s'. ThreadLocalFreelistAllocator_new 4096 (\<lambda>_. 0) 7 48 3 16 proc0 = Some (Inr a, s') \<and> tl_invar a s'
     \<and> card (proc_free s' - proc_free proc0) \<le> 3 \<and> unat (tl_block_size a) = 64"
proof -
  have "2 * unat (16 :: u64) < 2 ^ 64" by simp
  from tlf_constructor [OF demo_ctor_fits(1) proc0_ok this demo_fresh, of "\<lambda>_. 0"] obtain a s' where
    a: "ThreadLocalFreelistAllocator_new 4096 (\<lambda>_. 0) 7 48 3 16 proc0 = Some (Inr a, s')" "tl_invar a s'"
    "proc_free s' = proc_free proc0 \<union> block_at 4096 (of_nat (rounded_size 48)) ` {..<unat (3 :: u64)}"
    "card (block_at 4096 (of_nat (rounded_size 48)) ` {..<unat (3 :: u64)}) = unat (3 :: u64)"
    "unat (tl_block_size a) = rounded_size 48" by blast
  have "card (proc_free s' - proc_free proc0) \<le> card (block_at 4096 (of_nat (rounded_size 48)) ` {..<unat (3 :: u64)})"
    using a(3) by (intro card_mono) auto
  with a demo_ctor_fits(2) show ?thesis by auto
qed

theorem tlf_pool_across_threads_witness:
  "\<exists>a s p s'. tl_alloc demo_cfg a 0 s = Some (p, s') \<and> p \<noteq> nullptr
     \<and> (\<exists>s''. tl_dealloc demo_cfg a 5 s' p = Some s'' \<and> proc_free s'' = proc_free s)"
proof (rule demo_proc)
  fix a s assume a: "sys_ok (mem s) (tls_cache s) ((\<lambda>_. [])(7 := [4224, 4160, 4096])) (\<lambda>_. [])"
    "tl_global a = 7" "tl_invar a s" "tls_cache s = Map.empty"
  have "cache_list a 0 s = 7" using a(2,4) cache_list_fresh [of s 0 a] by simp
  then obtain p s' where "tl_alloc demo_cfg a 0 s = Some (p, s')" "p \<noteq> nullptr"
    using tl_alloc_ok [OF a(3,1), of demo_cfg 0] by auto
  then show ?thesis using tlf_pool_across_threads [OF a(3), of demo_cfg 0] by fastforce
qed

theorem tlf_stranded_blocks_witness:
  "\<exists>a s s1 s2. tl_alloc demo_cfg a 0 s = Some (4224, s1) \<and> tl_alloc demo_cfg a 1 s1 = Some (nullptr, s2)
     \<and> {4160, 4096} \<subseteq> proc_free s2"
proof (rule demo_proc)
  fix a s assume a: "sys_ok (mem s) (tls_cache s) ((\<lambda>_. [])(7 := [4224, 4160, 4096])) (\<lambda>_. [])"
    "tl_global a = 7" "tl_batch_size a = 16" "tl_invar a s" "tls_cache s = Map.empty"
  from tlf_stranded_blocks [OF a(4,1), of 0 1 4224 "[4160, 4096]" demo_cfg] a(2,3,5) show ?thesis by auto
qed

theorem tlf_thread_exit_leak_witness:
  "\<exists>a s. {4160, 4096} \<subseteq> proc_free s \<and> {4160, 4096} \<inter> proc_free (thread_exit 0 s) = {} \<and> tl_invar a (thread_exit 0 s)"
proof (rule demo_proc)
  fix a s assume a: "sys_ok (mem s) (tls_cache s) ((\<lambda>_. [])(7 := [4224, 4160, 4096])) (\<lambda>_. [])"
    "tl_global a = 7" "tl_batch_size a = 16" "tl_invar a s" "tls_cache s = Map.empty"
  have c: "cache_list a 0 s = 7" "batch_size (fst (get_cache a 0 s)) = 16"
    using a(2,3,5) cache_list_fresh [of s 0 a] by simp_all
  obtain p s1 G1 L1 where s1: "tl_invar a s1" "sys_ok (mem s1) (tls_cache s1) G1 L1"
    "(p, G1 7, L1 0) = cache_alloc 16 ([4224, 4160, 4096], [])"
    using tl_alloc_ok [OF a(4,1), of demo_cfg 0] c by auto
  have "L1 0 = [4160, 4096]" using s1(3) by (simp add: cache_alloc_def cache_refill_def)
  moreover from this have "set (L1 0) \<subseteq> sys_free G1 L1" unfolding sys_free_def by blast
  ultimately show ?thesis using tlf_thread_exit_leak [OF s1(1,2), of 0] proc_free_eq [OF s1(2)]
    by (intro exI [of _ a] exI [of _ s1]) auto
qed

theorem tlf_instances_share_cache_witness:
  "\<exists>a b s c. tls_cache s 0 = Some c \<and> tl_block_size a = 64 \<and> tl_block_size b = 256
     \<and> tl_alloc demo_cfg b 0 s = tl_alloc demo_cfg a 0 s"
proof -
  let ?a = "\<lparr>tl_global = 0, tl_batch_size = 2, tl_block_size = 64, tl_block_count = 3, region = 64\<rparr>"
  let ?s = "proc0\<lparr>mem := demo_store, tls_cache := [0 \<mapsto> demo_tc]\<rparr>"
  have "tls_cache ?s 0 = Some demo_tc" by simp
  from tlf_instances_share_cache [OF this, of demo_cfg "?a\<lparr>tl_block_size := 256\<rparr>" ?a] this show ?thesis
    by (intro exI [of _ ?a] exI [of _ "?a\<lparr>tl_block_size := 256\<rparr>"] exI [of _ ?s] exI [of _ demo_tc]) simp
qed

end
