(* ===== verification/Multi_Size.thy ===== *)
theory Multi_Size
  imports TL_Freelist
begin

text \<open>
  \<^verbatim>\<open>MultiSizeAllocator\<close> (include/multi\_size\_allocator.hpp, src/multi\_size\_allocator.cpp): five
  thread-local freelist allocators, one per size class, selected by the requested size.
\<close>

section \<open>Data and operations\<close>

definition NUM_CLASSES :: nat where
  "NUM_CLASSES = 5"

definition SIZE_CLASSES :: "u64 list" where
  "SIZE_CLASSES = [16, 32, 64, 128, 256]"

record MultiSizeAllocator =
  pools :: "ThreadLocalFreelistAllocator list"

text \<open>The loop of \<^verbatim>\<open>class_index\<close> from class \<open>i\<close> on.\<close>

function class_loop :: "nat \<Rightarrow> u64 \<Rightarrow> nat" where
  "class_loop i sz =
     (if i < NUM_CLASSES then if sz \<le> SIZE_CLASSES ! i then i else class_loop (i + 1) sz else NUM_CLASSES)"
  by pat_completeness auto
termination by (relation "measure (\<lambda>(i, sz). NUM_CLASSES - i)") auto

declare class_loop.simps [simp del]

definition class_index :: "u64 \<Rightarrow> nat" where
  "class_index sz = class_loop 0 sz"

text \<open>
  The constructor. For every class \<open>new_ok\<close> says whether \<^verbatim>\<open>operator new\<close> gets storage for the pool object (it
  throws \<^verbatim>\<open>std::bad_alloc\<close> otherwise), \<open>rs\<close> is the result of \<^verbatim>\<open>aligned_alloc\<close> for its region and \<open>objs\<close> the name
  of its freelist. An exception leaves the loop, and the pools built before it are not deleted.
\<close>

fun ctor_loop ::
  "(nat \<Rightarrow> bool) \<Rightarrow> (nat \<Rightarrow> addr) \<Rightarrow> (addr \<Rightarrow> addr) \<Rightarrow> (nat \<Rightarrow> nat) \<Rightarrow> u64 \<Rightarrow> u64 \<Rightarrow> (nat \<times> u64) list
     \<Rightarrow> ThreadLocalFreelistAllocator list \<Rightarrow> proc \<Rightarrow> ((cpp_error + MultiSizeAllocator) \<times> proc) option" where
  "ctor_loop new_ok rs junk objs blocks_per_class batch [] ps s = Some (Inr \<lparr>pools = ps\<rparr>, s)"
| "ctor_loop new_ok rs junk objs blocks_per_class batch ((i, sz) # cs) ps s =
     (if \<not> new_ok i then Some (Inl Bad_alloc, s)
      else do { (r, s') \<leftarrow> ThreadLocalFreelistAllocator_new (rs i) junk (objs i) sz blocks_per_class batch s;
                case r of
                  Inl e \<Rightarrow> Some (Inl e, s')
                | Inr a \<Rightarrow> ctor_loop new_ok rs junk objs blocks_per_class batch cs (ps @ [a]) s' })"

definition MultiSizeAllocator_new ::
  "(nat \<Rightarrow> bool) \<Rightarrow> (nat \<Rightarrow> addr) \<Rightarrow> (addr \<Rightarrow> addr) \<Rightarrow> (nat \<Rightarrow> nat) \<Rightarrow> u64 \<Rightarrow> u64 \<Rightarrow> proc
     \<Rightarrow> ((cpp_error + MultiSizeAllocator) \<times> proc) option" where
  "MultiSizeAllocator_new new_ok rs junk objs blocks_per_class batch s =
     ctor_loop new_ok rs junk objs blocks_per_class batch (enumerate 0 SIZE_CLASSES) [] s"

definition MultiSizeAllocator_delete :: "MultiSizeAllocator \<Rightarrow> proc \<Rightarrow> proc" where
  "MultiSizeAllocator_delete m s = foldl (\<lambda>s a. ThreadLocalFreelistAllocator_delete a s) s (pools m)"

definition ms_alloc :: "build \<Rightarrow> MultiSizeAllocator \<Rightarrow> tid \<Rightarrow> u64 \<Rightarrow> proc \<Rightarrow> (addr \<times> proc) option" where
  "ms_alloc cfg m t sz s =
     (let idx = class_index sz
      in if idx \<ge> NUM_CLASSES then Some (nullptr, s) else tl_alloc cfg (pools m ! idx) t s)"

definition ms_dealloc :: "build \<Rightarrow> MultiSizeAllocator \<Rightarrow> tid \<Rightarrow> addr \<Rightarrow> u64 \<Rightarrow> proc \<Rightarrow> proc option" where
  "ms_dealloc cfg m t p sz s =
     (let idx = class_index sz
      in if idx \<ge> NUM_CLASSES then Some s else tl_dealloc cfg (pools m ! idx) t s p)"

section \<open>Size classes\<close>

lemma class_loop_find:
  "class_loop i sz = (case List.find (\<lambda>j. sz \<le> SIZE_CLASSES ! j) [i..<NUM_CLASSES] of None \<Rightarrow> NUM_CLASSES | Some j \<Rightarrow> j)"
proof (induction i sz rule: class_loop.induct)
  case (1 i sz)
  then show ?case by (subst class_loop.simps) (simp add: upt_rec)
qed

lemma class_index_value:
  "class_index sz = (if sz \<le> 16 then 0 else if sz \<le> 32 then 1 else if sz \<le> 64 then 2
     else if sz \<le> 128 then 3 else if sz \<le> 256 then 4 else 5)"
proof -
  have "[0..<5 :: nat] = [0, 1, 2, 3, 4]" by (simp add: upt_rec)
  then show ?thesis by (simp add: class_index_def class_loop_find NUM_CLASSES_def SIZE_CLASSES_def)
qed

text \<open>C32. \<^verbatim>\<open>class_index\<close> picks the smallest size class that holds the request: the class it returns is
  large enough and every smaller one is not; it returns \<^verbatim>\<open>NUM_CLASSES\<close> exactly for requests above
  256 bytes, for which \<^verbatim>\<open>alloc\<close> returns null and \<^verbatim>\<open>dealloc\<close> does nothing.\<close>

theorem class_index_best_fit:
  "(class_index sz < NUM_CLASSES \<longrightarrow> sz \<le> SIZE_CLASSES ! class_index sz
      \<and> (\<forall>j < class_index sz. SIZE_CLASSES ! j < sz))
   \<and> (class_index sz = NUM_CLASSES \<longleftrightarrow> 256 < sz) \<and> class_index sz \<le> NUM_CLASSES
   \<and> (256 < sz \<longrightarrow> ms_alloc cfg m t sz s = Some (nullptr, s) \<and> ms_dealloc cfg m t p sz s = Some s)"
proof (intro conjI)
  show "class_index sz < NUM_CLASSES \<longrightarrow> sz \<le> SIZE_CLASSES ! class_index sz
      \<and> (\<forall>j < class_index sz. SIZE_CLASSES ! j < sz)"
    by (auto simp: class_index_value NUM_CLASSES_def SIZE_CLASSES_def less_Suc_eq numeral_eq_Suc)
  show "class_index sz = NUM_CLASSES \<longleftrightarrow> 256 < sz"
    by (simp add: class_index_value NUM_CLASSES_def word_le_nat_alt word_less_nat_alt)
  then show "256 < sz \<longrightarrow> ms_alloc cfg m t sz s = Some (nullptr, s) \<and> ms_dealloc cfg m t p sz s = Some s"
    by (auto simp: ms_alloc_def ms_dealloc_def)
  show "class_index sz \<le> NUM_CLASSES" by (simp add: class_index_value NUM_CLASSES_def)
qed


section \<open>Construction\<close>

text \<open>The blocks of one class, and what the environment provides for the construction.\<close>

definition class_blocks :: "(nat \<Rightarrow> addr) \<Rightarrow> u64 \<Rightarrow> nat \<times> u64 \<Rightarrow> addr list" where
  "class_blocks rs n = (\<lambda>(i, sz). map (block_at (rs i) (of_nat (rounded_size sz))) (rev [0..<unat n]))"

definition env_ok :: "(nat \<Rightarrow> addr) \<Rightarrow> (nat \<Rightarrow> nat) \<Rightarrow> u64 \<Rightarrow> (nat \<times> u64) list \<Rightarrow> proc \<Rightarrow> bool" where
  "env_ok rs objs n cs s =
     ((\<forall>c \<in> set cs. ctor_fits (rs (fst c)) (snd c) n \<and> lists (mem s) (objs (fst c)) = None
         \<and> proc_blocks s \<inter> set (class_blocks rs n c) = {})
      \<and> distinct (map (objs \<circ> fst) cs)
      \<and> (\<forall>j < length cs. \<forall>k < j. set (class_blocks rs n (cs ! j)) \<inter> set (class_blocks rs n (cs ! k)) = {}))"

lemma env_ok_Cons:
  "env_ok rs objs n (c # cs) s \<Longrightarrow>
     ctor_fits (rs (fst c)) (snd c) n \<and> lists (mem s) (objs (fst c)) = None \<and> proc_blocks s \<inter> set (class_blocks rs n c) = {}
     \<and> (\<forall>d \<in> set cs. objs (fst d) \<noteq> objs (fst c) \<and> set (class_blocks rs n d) \<inter> set (class_blocks rs n c) = {})"
proof -
  assume e: "env_ok rs objs n (c # cs) s"
  have "set (class_blocks rs n d) \<inter> set (class_blocks rs n c) = {}" if "d \<in> set cs" for d
  proof -
    obtain k where "k < length cs" "d = cs ! k" using \<open>d \<in> set cs\<close> by (metis in_set_conv_nth)
    with e show ?thesis unfolding env_ok_def
      by (metis length_Cons nth_Cons_0 nth_Cons_Suc Suc_less_eq zero_less_Suc)
  qed
  with e show ?thesis unfolding env_ok_def by (auto simp: image_iff)
qed

lemma env_ok_tl:
  assumes e: "env_ok rs objs n (c # cs) s" and b: "proc_blocks s' = proc_blocks s \<union> set (class_blocks rs n c)"
    and l: "dom (lists (mem s')) = insert (objs (fst c)) (dom (lists (mem s)))"
  shows "env_ok rs objs n cs s'"
  unfolding env_ok_def
proof (intro conjI ballI allI impI)
  fix d assume d: "d \<in> set cs"
  note hd = env_ok_Cons [OF e]
  show "ctor_fits (rs (fst d)) (snd d) n" using e d by (simp add: env_ok_def)
  have "objs (fst d) \<notin> dom (lists (mem s'))" using hd l d e by (simp add: env_ok_def domIff)
  then show "lists (mem s') (objs (fst d)) = None" by blast
  have "proc_blocks s \<inter> set (class_blocks rs n d) = {}" using e d by (simp add: env_ok_def)
  then show "proc_blocks s' \<inter> set (class_blocks rs n d) = {}" using hd b d by blast
next
  show "distinct (map (objs \<circ> fst) cs)" using e by (simp add: env_ok_def)
  fix j k assume "j < length cs" "k < j"
  then have "Suc j < length (c # cs)" "Suc k < Suc j" by auto
  then show "set (class_blocks rs n (cs ! j)) \<inter> set (class_blocks rs n (cs ! k)) = {}"
    using e unfolding env_ok_def by (metis nth_Cons_Suc)
qed

lemma ctor_loop_ok:
  assumes "env_ok rs objs n cs s" "sys_ok (mem s) (tls_cache s) G L" "2 * unat batch < 2 ^ 64" "\<forall>c \<in> set cs. new_ok (fst c)"
  shows "\<exists>as s' G'. ctor_loop new_ok rs junk objs n batch (cs @ ds) ps s = ctor_loop new_ok rs junk objs n batch ds (ps @ as) s'
    \<and> dom (live s') = dom (live s) \<union> rs ` fst ` set cs
    \<and> sys_ok (mem s') (tls_cache s') G' L \<and> tls_cache s' = tls_cache s
    \<and> dom (lists (mem s)) \<subseteq> dom (lists (mem s')) \<and> (\<forall>i \<in> dom (lists (mem s)). G' i = G i)
    \<and> list_all2 (\<lambda>a c. tl_global a = objs (fst c) \<and> tl_batch_size a = batch \<and> tl_block_size a = of_nat (rounded_size (snd c))
         \<and> region a = rs (fst c) \<and> tl_invar a s' \<and> G' (tl_global a) = class_blocks rs n c) as cs"
  using assms(1,2,4)
proof (induction cs arbitrary: ps s G)
  case Nil
  then show ?case by (intro exI [of _ "[]"] exI [of _ s] exI [of _ G]) simp
next
  case (Cons c cs)
  note hd = env_ok_Cons [OF Cons.prems(1)]
  let ?o = "objs (fst c)" and ?B = "class_blocks rs n c"
  have B: "map (block_at (rs (fst c)) (of_nat (rounded_size (snd c)))) (rev [0..<unat n]) = ?B"
    by (simp add: class_blocks_def split_beta)
  then have "set ?B = block_at (rs (fst c)) (of_nat (rounded_size (snd c))) ` {..<unat n}" by (auto simp flip: B)
  with hd have new: "proc_blocks s \<inter> block_at (rs (fst c)) (of_nat (rounded_size (snd c))) ` {..<unat n} = {}" by simp
  have o: "lists (mem s) ?o = None" using hd by simp
  obtain a s1 where a: "ThreadLocalFreelistAllocator_new (rs (fst c)) junk ?o (snd c) n batch s = Some (Inr a, s1)"
    "sys_ok (mem s1) (tls_cache s1) (G(?o := ?B)) L" "proc_blocks s1 = proc_blocks s \<union> set ?B"
    "tl_global a = ?o" "tl_batch_size a = batch" "tl_block_size a = of_nat (rounded_size (snd c))" "region a = rs (fst c)"
    "dom (lists (mem s1)) = insert ?o (dom (lists (mem s)))" "tls_cache s1 = tls_cache s"
    "dom (live s1) = insert (rs (fst c)) (dom (live s))"
    by (rule tl_new_ok [OF conjunct1 [OF hd] Cons.prems(2) o new, of junk batch, unfolded B]) simp
  have new: "\<forall>c \<in> set cs. new_ok (fst c)" using Cons.prems(3) by simp
  from Cons.IH [OF env_ok_tl [OF Cons.prems(1) a(3,8)] a(2) new, of "ps @ [a]"] obtain as s2 G2 where
    IH: "ctor_loop new_ok rs junk objs n batch (cs @ ds) (ps @ [a]) s1 = ctor_loop new_ok rs junk objs n batch ds ((ps @ [a]) @ as) s2"
    "dom (live s2) = dom (live s1) \<union> rs ` fst ` set cs"
    "sys_ok (mem s2) (tls_cache s2) G2 L" "tls_cache s2 = tls_cache s1"
    "dom (lists (mem s1)) \<subseteq> dom (lists (mem s2))" "\<forall>i \<in> dom (lists (mem s1)). G2 i = (G(?o := ?B)) i"
    "list_all2 (\<lambda>a c. tl_global a = objs (fst c) \<and> tl_batch_size a = batch \<and> tl_block_size a = of_nat (rounded_size (snd c))
         \<and> region a = rs (fst c) \<and> tl_invar a s2 \<and> G2 (tl_global a) = class_blocks rs n c) as cs" by blast
  have "ctor_loop new_ok rs junk objs n batch ((c # cs) @ ds) ps s = ctor_loop new_ok rs junk objs n batch ds (ps @ a # as) s2"
    using a(1) IH(1) Cons.prems(3) by (cases c) simp
  moreover have "dom (live s2) = dom (live s) \<union> rs ` fst ` set (c # cs)" using IH(2) a(10) by simp
  moreover have "tl_invar a s2" using IH(3,5) a(4,5,8) assms(3) by (auto simp: tl_invar_def)
  moreover have "G2 ?o = ?B" using IH(6) a(8) by simp
  moreover have "dom (lists (mem s)) \<subseteq> dom (lists (mem s2))" using IH(5) a(8) by auto
  moreover have "G2 i = G i" if "i \<in> dom (lists (mem s))" for i
    using IH(6) a(8) o that by auto
  moreover have "tls_cache s2 = tls_cache s" using IH(4) a(9) by simp
  ultimately show ?case using IH(3,7) a(4-7) by (intro exI [of _ "a # as"] exI [of _ s2] exI [of _ G2]) simp
qed

lemma env_ok_take: "env_ok rs objs n cs s \<Longrightarrow> env_ok rs objs n (take k cs) s"
  unfolding env_ok_def by (auto simp: take_map [symmetric] simp del: set_map dest: in_set_takeD)

section \<open>Properties of the whole allocator\<close>

definition ms_ok ::
  "(nat \<Rightarrow> addr) \<Rightarrow> u64 \<Rightarrow> MultiSizeAllocator \<Rightarrow> proc \<Rightarrow> (nat \<Rightarrow> addr list) \<Rightarrow> (tid \<Rightarrow> addr list) \<Rightarrow> bool" where
  "ms_ok rs n m s G L = (sys_ok (mem s) (tls_cache s) G L \<and>
     list_all2 (\<lambda>a c. unat (tl_block_size a) = rounded_size (snd c) \<and> region a = rs (fst c) \<and> tl_invar a s
        \<and> set (G (tl_global a)) \<subseteq> set (class_blocks rs n c)) (pools m) (enumerate 0 SIZE_CLASSES))"

lemma ms_ok_pool:
  assumes "ms_ok rs n m s G L" "i < NUM_CLASSES"
  shows "unat (tl_block_size (pools m ! i)) = rounded_size (SIZE_CLASSES ! i)" "tl_invar (pools m ! i) s"
    "set (G (tl_global (pools m ! i))) \<subseteq> set (class_blocks rs n (i, SIZE_CLASSES ! i))"
proof -
  have len: "length SIZE_CLASSES = NUM_CLASSES" by (simp add: SIZE_CLASSES_def NUM_CLASSES_def)
  then have nth: "enumerate 0 SIZE_CLASSES ! i = (i, SIZE_CLASSES ! i)" using assms(2) by (simp add: nth_enumerate_eq)
  note all = assms(1) [unfolded ms_ok_def, THEN conjunct2]
  have "i < length (pools m)" using list_all2_lengthD [OF all] len assms(2) by simp
  from list_all2_nthD [OF all this] show "unat (tl_block_size (pools m ! i)) = rounded_size (SIZE_CLASSES ! i)"
    "tl_invar (pools m ! i) s" "set (G (tl_global (pools m ! i))) \<subseteq> set (class_blocks rs n (i, SIZE_CLASSES ! i))"
    unfolding nth by auto
qed

lemma rounded_unat: "ctor_fits r sz n \<Longrightarrow> unat (of_nat (rounded_size sz) :: u64) = rounded_size sz"
  by (metis ctor_sizes(1) of_nat_unat_64)

lemma ms_built:
  assumes "env_ok rs objs n (enumerate 0 SIZE_CLASSES) s" "sys_ok (mem s) (tls_cache s) G L" "2 * unat batch < 2 ^ 64"
    and "\<forall>i < NUM_CLASSES. new_ok i"
  obtains m s' G' where "MultiSizeAllocator_new new_ok rs junk objs n batch s = Some (Inr m, s')" "ms_ok rs n m s' G' L"
    "length (pools m) = NUM_CLASSES" "tls_cache s' = tls_cache s" "dom (live s') = dom (live s) \<union> rs ` {..<NUM_CLASSES}"
    "\<forall>i < NUM_CLASSES. tl_batch_size (pools m ! i) = batch \<and> G' (tl_global (pools m ! i)) = class_blocks rs n (i, SIZE_CLASSES ! i)"
proof -
  let ?cs = "enumerate 0 SIZE_CLASSES"
  have len: "length SIZE_CLASSES = NUM_CLASSES" by (simp add: SIZE_CLASSES_def NUM_CLASSES_def)
  have fsts: "fst ` set ?cs = {..<NUM_CLASSES}"
    using len by (simp flip: set_map add: map_fst_enumerate atLeast0LessThan)
  then have new: "\<forall>c \<in> set ?cs. new_ok (fst c)" using assms(4) by (metis imageI lessThan_iff)
  obtain as s' G' where c: "MultiSizeAllocator_new new_ok rs junk objs n batch s = Some (Inr \<lparr>pools = as\<rparr>, s')"
    "sys_ok (mem s') (tls_cache s') G' L" "tls_cache s' = tls_cache s"
    "list_all2 (\<lambda>a c. tl_global a = objs (fst c) \<and> tl_batch_size a = batch \<and> tl_block_size a = of_nat (rounded_size (snd c))
         \<and> region a = rs (fst c) \<and> tl_invar a s' \<and> G' (tl_global a) = class_blocks rs n c) as ?cs"
    "dom (live s') = dom (live s) \<union> rs ` fst ` set ?cs"
    using ctor_loop_ok [OF assms(1-3) new, of junk "[]" "[]"] unfolding MultiSizeAllocator_new_def by auto
  have f: "unat (of_nat (rounded_size (snd c)) :: u64) = rounded_size (snd c)" if "c \<in> set ?cs" for c
    using assms(1) that by (intro rounded_unat [of "rs (fst c)" _ n]) (simp add: env_ok_def)
  have "list_all2 (\<lambda>a c. unat (tl_block_size a) = rounded_size (snd c) \<and> region a = rs (fst c) \<and> tl_invar a s'
        \<and> set (G' (tl_global a)) \<subseteq> set (class_blocks rs n c)) as ?cs"
    by (rule list.rel_mono_strong [OF c(4)]) (use f in auto)
  then have "ms_ok rs n \<lparr>pools = as\<rparr> s' G' L" using c(2) by (simp add: ms_ok_def)
  moreover have "length as = NUM_CLASSES" using list_all2_lengthD [OF c(4)] len by simp
  moreover have "tl_batch_size (as ! i) = batch \<and> G' (tl_global (as ! i)) = class_blocks rs n (i, SIZE_CLASSES ! i)"
    if "i < NUM_CLASSES" for i
    using list_all2_nthD [OF c(4), of i] that len \<open>length as = NUM_CLASSES\<close> by (auto simp: nth_enumerate_eq)
  ultimately show thesis using that [of "\<lparr>pools = as\<rparr>" s' G'] c(1,3,5) fsts by simp
qed

text \<open>C38. The constructor, with \<open>k\<close> the first class that cannot be built, because \<^verbatim>\<open>operator new\<close> throws for the pool
  object or its region cannot be obtained (\<open>k = 5\<close>: none). If all five can be built, there are five pools, one per class in
  order, whose block sizes are the class sizes rounded up to a cache line, every block of every
  class is free and exactly the five regions have been allocated. Otherwise it throws \<^verbatim>\<open>std::bad_alloc\<close>, and exactly the regions of
  the classes before \<open>k\<close> stay allocated: the pools built before are not deleted.\<close>

theorem ms_constructor:
  assumes "k \<le> NUM_CLASSES" "env_ok rs objs n (take k (enumerate 0 SIZE_CLASSES)) s"
    and "sys_ok (mem s) (tls_cache s) G L" "2 * unat batch < 2 ^ 64"
    and "\<forall>i < k. new_ok i" "k < NUM_CLASSES \<longrightarrow> \<not> new_ok k \<or> rs k = nullptr"
  shows "\<exists>r s' G'. MultiSizeAllocator_new new_ok rs junk objs n batch s = Some (r, s')
     \<and> dom (live s') = dom (live s) \<union> rs ` {..<k}
     \<and> (case r of
          Inl e \<Rightarrow> e = Bad_alloc \<and> k < NUM_CLASSES
        | Inr m \<Rightarrow> k = NUM_CLASSES \<and> ms_ok rs n m s' G' L \<and> length (pools m) = NUM_CLASSES \<and> tls_cache s' = tls_cache s
            \<and> (\<forall>i < NUM_CLASSES. tl_batch_size (pools m ! i) = batch
                 \<and> G' (tl_global (pools m ! i)) = class_blocks rs n (i, SIZE_CLASSES ! i)))"
proof (cases "k = NUM_CLASSES")
  case True
  have "take NUM_CLASSES (enumerate 0 SIZE_CLASSES) = enumerate 0 SIZE_CLASSES"
    by (simp add: SIZE_CLASSES_def NUM_CLASSES_def)
  then have "env_ok rs objs n (enumerate 0 SIZE_CLASSES) s" using assms(2) True by simp
  moreover have "\<forall>i < NUM_CLASSES. new_ok i" using assms(5) True by simp
  ultimately obtain m s' G' where "MultiSizeAllocator_new new_ok rs junk objs n batch s = Some (Inr m, s')" "ms_ok rs n m s' G' L"
    "length (pools m) = NUM_CLASSES" "tls_cache s' = tls_cache s" "dom (live s') = dom (live s) \<union> rs ` {..<NUM_CLASSES}"
    "\<forall>i < NUM_CLASSES. tl_batch_size (pools m ! i) = batch \<and> G' (tl_global (pools m ! i)) = class_blocks rs n (i, SIZE_CLASSES ! i)"
    by (rule ms_built [OF _ assms(3,4)])
  then show ?thesis using True by (intro exI [of _ "Inr m"] exI [of _ s'] exI [of _ G']) simp
next
  case False
  let ?cs = "take k (enumerate 0 SIZE_CLASSES)"
  have k: "k < length SIZE_CLASSES" using False assms(1) by (simp add: SIZE_CLASSES_def NUM_CLASSES_def)
  then have ds: "enumerate 0 SIZE_CLASSES = ?cs @ (k, SIZE_CLASSES ! k) # drop (Suc k) (enumerate 0 SIZE_CLASSES)"
    using id_take_nth_drop [of k "enumerate 0 SIZE_CLASSES"] by (simp add: nth_enumerate_eq)
  have fsts: "fst ` set ?cs = {..<k}"
    using k by (simp flip: set_map add: take_map [symmetric] map_fst_enumerate atLeast0LessThan)
  then have "\<forall>c \<in> set ?cs. new_ok (fst c)" using assms(5) by (metis imageI lessThan_iff)
  from ctor_loop_ok [OF assms(2-4) this, of junk "(k, SIZE_CLASSES ! k) # drop (Suc k) (enumerate 0 SIZE_CLASSES)" "[]"] obtain as s' where
    c: "MultiSizeAllocator_new new_ok rs junk objs n batch s
          = ctor_loop new_ok rs junk objs n batch ((k, SIZE_CLASSES ! k) # drop (Suc k) (enumerate 0 SIZE_CLASSES)) as s'"
    "dom (live s') = dom (live s) \<union> rs ` fst ` set ?cs"
    unfolding MultiSizeAllocator_new_def ds [symmetric] by auto
  have "MultiSizeAllocator_new new_ok rs junk objs n batch s = Some (Inl Bad_alloc, s')"
    using assms(1,6) False unfolding c(1)
    by (auto simp: ThreadLocalFreelistAllocator_new_def Let_def libc_alloc_def)
  then show ?thesis
    using c(2) fsts assms(1) False by (intro exI [of _ "Inl Bad_alloc"] exI [of _ s'] exI [of _ G]) simp
qed

text \<open>The first allocation of a thread: a request of at most 256 bytes is served from the pool of
  its class, with a block at least as large as the request, and gives null only when that class's
  shared list is empty.\<close>

theorem ms_first_alloc_right_class:
  assumes "ms_ok rs n m s G L" "tls_cache s t = None" "sz \<le> 256"
  shows "\<exists>p s'. ms_alloc cfg m t sz s = Some (p, s') \<and> (p = nullptr \<longleftrightarrow> G (tl_global (pools m ! class_index sz)) = [])
     \<and> (p \<noteq> nullptr \<longrightarrow> p \<in> set (class_blocks rs n (class_index sz, SIZE_CLASSES ! class_index sz)) \<and> p \<notin> proc_free s')
     \<and> unat sz \<le> unat (tl_block_size (pools m ! class_index sz))"
proof -
  let ?a = "pools m ! class_index sz"
  have i: "class_index sz < NUM_CLASSES" "sz \<le> SIZE_CLASSES ! class_index sz"
    using assms(3) by (auto simp: class_index_value NUM_CLASSES_def SIZE_CLASSES_def)
  note pool = ms_ok_pool [OF assms(1) i(1)]
  have ok: "sys_ok (mem s) (tls_cache s) G L" using assms(1) by (simp add: ms_ok_def)
  obtain p s' G' L' where p: "tl_alloc cfg ?a t s = Some (p, s')" "sys_ok (mem s') (tls_cache s') G' L'"
    "sys_free G' L' = sys_free G L - {p}" "p = nullptr \<longleftrightarrow> G (tl_global ?a) = [] \<and> L t = []"
    "p \<noteq> nullptr \<longrightarrow> p \<in> set (G (tl_global ?a)) \<union> set (L t)"
    using tl_alloc_ok [OF pool(2) ok, of cfg t] cache_list_fresh [OF assms(2)] by metis
  have "L t = []" by (rule sys_none(2) [OF ok assms(2)])
  moreover have "unat sz \<le> rounded_size (SIZE_CLASSES ! class_index sz)"
    using i(2) by (simp add: rounded_size_def word_le_nat_alt)
  ultimately show ?thesis
    using p proc_free_eq [OF p(2)] pool(1,3) i(1) by (auto simp: ms_alloc_def)
qed

text \<open>C33. Because the pools of all classes share the thread's one cache, a thread that allocates 16 and
  then 256 bytes from a new allocator is given two neighbouring blocks of the smallest class, 64 bytes
  apart: the 256-byte block overlaps the block already handed out.\<close>

theorem ms_overlapping_blocks:
  assumes "env_ok rs objs n (enumerate 0 SIZE_CLASSES) s" "sys_ok (mem s) (tls_cache s) G L" "2 * unat batch < 2 ^ 64"
    and "live s (rs 0) = None" "tls_cache s t = None" "2 \<le> unat n" "unat n \<le> unat batch"
    and "\<forall>i < NUM_CLASSES. new_ok i"
  shows "\<exists>m s0 x s1 y s2. MultiSizeAllocator_new new_ok rs junk objs n batch s = Some (Inr m, s0)
     \<and> ms_alloc cfg m t 16 s0 = Some (x, s1) \<and> ms_alloc cfg m t 256 s1 = Some (y, s2)
     \<and> y \<noteq> nullptr \<and> unat x = unat y + 64"
proof -
  define B where "B = block_at (rs 0) (of_nat (rounded_size (SIZE_CLASSES ! 0)))"
  obtain m s0 G0 where m: "MultiSizeAllocator_new new_ok rs junk objs n batch s = Some (Inr m, s0)" "ms_ok rs n m s0 G0 L"
    "length (pools m) = NUM_CLASSES" "tls_cache s0 = tls_cache s"
    "\<forall>i < NUM_CLASSES. tl_batch_size (pools m ! i) = batch \<and> G0 (tl_global (pools m ! i)) = class_blocks rs n (i, SIZE_CLASSES ! i)"
    by (rule ms_built [OF assms(1-3,8), of junk])
  let ?a = "pools m ! 0"
  define k where "k = unat n - 2"
  have k: "unat n = Suc (Suc k)" using assms(6) by (simp add: k_def)
  have a: "tl_batch_size ?a = batch" "G0 (tl_global ?a) = B (Suc k) # B k # map B (rev [0..<k])"
    "tl_invar ?a s0" "sys_ok (mem s0) (tls_cache s0) G0 L" "tls_cache s0 t = None" "L t = []"
    using m(2,4,5) ms_ok_pool(2) [OF m(2), of 0] k sys_none(2) [OF assms(2,5)] assms(5)
    by (simp_all add: NUM_CLASSES_def class_blocks_def B_def ms_ok_def)
  obtain x s1 G1 L1 c' where s1: "tl_alloc cfg ?a t s0 = Some (x, s1)" "tl_invar ?a s1" "sys_ok (mem s1) (tls_cache s1) G1 L1"
    "(x, G1 (tl_global ?a), L1 t) = cache_alloc (unat batch) (G0 (tl_global ?a), L t)"
    "tls_cache s1 t = Some c'" "same_limits (fst (get_cache ?a t s0)) c'"
    using tl_alloc_ok [OF a(3,4), of cfg t] cache_list_fresh [OF a(5), of ?a] a(1) by metis
  have x: "x = B (Suc k)" "G1 (tl_global ?a) = []" "L1 t = B k # map B (rev [0..<k])"
    using s1(4) a(2,6) assms(7) k by (simp_all add: cache_alloc_def cache_refill_def)
  have c': "cache_list ?a t s1 = tl_global ?a" "batch_size (fst (get_cache ?a t s1)) = batch"
    using s1(5,6) cache_list_fresh [OF a(5), of ?a] a(1) by (simp_all add: cache_list_def get_cache_def same_limits_def)
  obtain y s2 G2 L2 where s2: "tl_alloc cfg ?a t s1 = Some (y, s2)" "y = nullptr \<longleftrightarrow> L1 t = []"
    "(y, G2 (tl_global ?a), L2 t) = cache_alloc (unat batch) (G1 (tl_global ?a), L1 t)"
    using tl_alloc_ok [OF s1(2,3), of cfg t] c' x(2) by metis
  have y: "y = B k" "y \<noteq> nullptr" using s2(2,3) x(2,3) by (auto simp: cache_alloc_def cache_refill_def split: if_splits)
  have "ctor_fits (rs 0) 16 n" using assms(1) by (simp add: env_ok_def SIZE_CLASSES_def)
  from ctor_sizes(3) [OF this] ctor_sizes(1) [OF this] have fits: "array_fits (rs 0) (of_nat (rounded_size 16)) (unat n)"
    by (metis of_nat_unat_64)
  have sz: "unat (of_nat (rounded_size 16) :: u64) = 64" by (simp add: rounded_size_def)
  have "unat (B (Suc k)) = unat (B k) + 64"
    using unat_block_at [OF fits, of k] unat_block_at [OF fits, of "Suc k"] sz k by (simp add: B_def SIZE_CLASSES_def)
  moreover have "ms_alloc cfg m t 16 s0 = Some (x, s1)" using s1(1) by (simp add: ms_alloc_def class_index_value NUM_CLASSES_def)
  moreover have "ms_alloc cfg m t 256 s1 = Some (y, s2)"
    using s2(1) s1(5) by (simp add: ms_alloc_def class_index_value NUM_CLASSES_def tl_alloc_def get_cache_def)
  ultimately show ?thesis using m(1) x(1) y by blast
qed


section \<open>A concrete allocator\<close>

text \<open>Three blocks per class, the regions 4096 bytes apart.\<close>

definition demo_rs :: "nat \<Rightarrow> addr" where
  "demo_rs i = of_nat (4096 * (i + 1))"

definition demo_classes :: "(nat \<times> u64) list" where
  "demo_classes = [(0, 16), (1, 32), (2, 64), (3, 128), (4, 256)]"

lemma demo_classes: "enumerate 0 SIZE_CLASSES = demo_classes"
  by (simp add: SIZE_CLASSES_def demo_classes_def numeral_eq_Suc)

lemma demo_class_blocks:
  "map (class_blocks demo_rs 3) demo_classes =
     [[4224, 4160, 4096], [8320, 8256, 8192], [12416, 12352, 12288], [16640, 16512, 16384], [20992, 20736, 20480]]"
  by (simp add: demo_classes_def class_blocks_def demo_rs_def block_at_def rounded_size_def upt_rec)

lemma demo_env_ok: "env_ok demo_rs id 3 (enumerate 0 SIZE_CLASSES) proc0"
  unfolding demo_classes env_ok_def
proof (intro conjI allI impI)
  show "\<forall>c \<in> set demo_classes. ctor_fits (demo_rs (fst c)) (snd c) 3 \<and> lists (mem proc0) (id (fst c)) = None
      \<and> proc_blocks proc0 \<inter> set (class_blocks demo_rs 3 c) = {}"
    by (simp add: demo_classes_def ctor_fits_def rounded_size_def demo_rs_def proc0_def proc_blocks_def)
  show "distinct (map (id \<circ> fst) demo_classes)" by (simp add: demo_classes_def)
  fix j k assume jk: "j < length demo_classes" "k < j"
  let ?B = "map (class_blocks demo_rs 3) demo_classes"
  have j: "j \<in> {1, 2, 3, 4}" and k: "k \<in> {0, 1, 2, 3}" using jk by (auto simp: demo_classes_def)
  have "set (?B ! j) \<inter> set (?B ! k) = {}"
    unfolding demo_class_blocks using j k jk(2) by (elim insertE; simp)
  then show "set (class_blocks demo_rs 3 (demo_classes ! j)) \<inter> set (class_blocks demo_rs 3 (demo_classes ! k)) = {}"
    using jk by simp
qed

theorem class_index_best_fit_witness:
  "class_index 100 = 3 \<and> (100 :: u64) \<le> SIZE_CLASSES ! 3 \<and> SIZE_CLASSES ! 2 < 100"
proof -
  have "class_index 100 = 3" by (simp add: class_index_value)
  with class_index_best_fit [of 100 demo_cfg \<open>\<lparr>pools = []\<rparr>\<close> 0 proc0 0] show ?thesis by (simp add: NUM_CLASSES_def)
qed

theorem ms_constructor_witness:
  "(\<exists>r s'. MultiSizeAllocator_new (\<lambda>_. True) demo_rs (\<lambda>_. 0) id 3 16 proc0 = Some (r, s') \<and> r \<noteq> Inl Bad_alloc)
   \<and> (\<exists>s'. MultiSizeAllocator_new (\<lambda>i. i \<noteq> 3) demo_rs (\<lambda>_. 0) id 3 16 proc0 = Some (Inl Bad_alloc, s')
        \<and> dom (live s') = demo_rs ` {..<3})"
proof -
  have b: "2 * unat (16 :: u64) < 2 ^ 64" and l: "dom (live proc0) = {}" by (simp_all add: proc0_def)
  have "(5 :: nat) \<le> NUM_CLASSES" "(3 :: nat) \<le> NUM_CLASSES" by (simp_all add: NUM_CLASSES_def)
  note k = ms_constructor [OF this(1) env_ok_take [OF demo_env_ok] proc0_ok b, of "\<lambda>_. True" "\<lambda>_. 0"]
    ms_constructor [OF this(2) env_ok_take [OF demo_env_ok] proc0_ok b, of "\<lambda>i. i \<noteq> 3" "\<lambda>_. 0"]
  have "\<exists>r s'. MultiSizeAllocator_new (\<lambda>_. True) demo_rs (\<lambda>_. 0) id 3 16 proc0 = Some (r, s') \<and> r \<noteq> Inl Bad_alloc"
    using k(1) by (auto simp: NUM_CLASSES_def)
  moreover have "\<exists>s'. MultiSizeAllocator_new (\<lambda>i. i \<noteq> 3) demo_rs (\<lambda>_. 0) id 3 16 proc0 = Some (Inl Bad_alloc, s')
        \<and> dom (live s') = demo_rs ` {..<3}"
  proof -
    from k(2) obtain r s' where "MultiSizeAllocator_new (\<lambda>i. i \<noteq> 3) demo_rs (\<lambda>_. 0) id 3 16 proc0 = Some (r, s')"
      "dom (live s') = dom (live proc0) \<union> demo_rs ` {..<3}"
      "case r of Inl e \<Rightarrow> e = Bad_alloc \<and> 3 < NUM_CLASSES | Inr m \<Rightarrow> 3 = NUM_CLASSES" by (auto split: sum.splits)
    then show ?thesis using l by (cases r) (simp_all add: NUM_CLASSES_def)
  qed
  ultimately show ?thesis ..
qed

theorem ms_first_alloc_right_class_witness:
  "\<exists>m s p s'. ms_alloc demo_cfg m 0 100 s = Some (p, s') \<and> p \<in> {16640, 16512, 16384}"
proof -
  have "2 * unat (16 :: u64) < 2 ^ 64" by simp
  from ms_built [OF demo_env_ok proc0_ok this, of "\<lambda>_. True" "\<lambda>_. 0"] obtain m s' G' where
    m: "ms_ok demo_rs 3 m s' G' (\<lambda>_. [])" "tls_cache s' = tls_cache proc0"
    "\<forall>i < NUM_CLASSES. G' (tl_global (pools m ! i)) = class_blocks demo_rs 3 (i, SIZE_CLASSES ! i)" by metis
  have c: "class_index 100 = 3" "class_blocks demo_rs 3 (3, SIZE_CLASSES ! 3) = [16640, 16512, 16384]"
    using demo_class_blocks by (simp_all add: class_index_value demo_classes_def SIZE_CLASSES_def)
  have "tls_cache s' 0 = None" "(100 :: u64) \<le> 256" using m(2) by (simp_all add: proc0_def)
  from ms_first_alloc_right_class [OF m(1) this, of demo_cfg] m(3) c show ?thesis
    by (auto simp: NUM_CLASSES_def)
qed

theorem ms_overlapping_blocks_witness:
  "\<exists>m s0 x s1 y s2. MultiSizeAllocator_new (\<lambda>_. True) demo_rs (\<lambda>_. 0) id 3 16 proc0 = Some (Inr m, s0)
     \<and> ms_alloc demo_cfg m 0 16 s0 = Some (x, s1) \<and> ms_alloc demo_cfg m 0 256 s1 = Some (y, s2) \<and> unat x < unat y + 256"
proof -
  have "2 * unat (16 :: u64) < 2 ^ 64" "live proc0 (demo_rs 0) = None" "tls_cache proc0 0 = None" "2 \<le> unat (3 :: u64)"
    "unat (3 :: u64) \<le> unat (16 :: u64)" by (simp_all add: proc0_def)
  from ms_overlapping_blocks [OF demo_env_ok proc0_ok this, of "\<lambda>_. True" "\<lambda>_. 0" demo_cfg] show ?thesis by fastforce
qed

end
