(* ===== verification/Numa.thy ===== *)
theory Numa
  imports TL_Freelist
begin

text \<open>
  \<^verbatim>\<open>NumaAllocator\<close> (include/numa\_allocator.hpp, src/numa\_allocator.cpp) and the helpers of
  \<^verbatim>\<open>namespace numa\<close> (src/numa\_utils.cpp, all three platform branches): one pool of blocks per NUMA node, one
  thread cache per thread and node, allocation from the local node first, deallocation into the pool whose
  region contains the block. What the operating system answers (existing nodes, the current CPU, the
  topology files, the results of the memory calls) is a parameter.
\<close>

section \<open>namespace numa\<close>

text \<open>The platform the code is compiled for and the answers of its system calls.\<close>

datatype platform = Win32 | Linux | Other

record os_env =
  os :: platform
  highest_node :: "32 word option"
  node_dir :: "nat \<Rightarrow> bool"
  win_node :: "16 word option"
  sched_cpu :: int
  package_id :: "int \<Rightarrow> u64 option option"
  virtual_free :: "addr \<Rightarrow> bool"

text \<open>
  The loop of \<^verbatim>\<open>node_count\<close> on Linux; \<open>exists_node n\<close> is \<^verbatim>\<open>access(".../node<n>", F_OK) == 0\<close>.
  \<open>highest_node\<close> is \<open>None\<close> when \<^verbatim>\<open>GetNumaHighestNodeNumber\<close> fails.
\<close>

function count_loop :: "(nat \<Rightarrow> bool) \<Rightarrow> nat \<Rightarrow> nat \<Rightarrow> nat" where
  "count_loop exists_node n count =
     (if n < 256 then if exists_node n then count_loop exists_node (n + 1) (count + 1) else count else count)"
  by pat_completeness auto
termination by (relation "measure (\<lambda>(e, n, count). 256 - n)") auto

declare count_loop.simps [simp del]

definition node_count :: "os_env \<Rightarrow> nat" where
  "node_count e =
     (case os e of
        Win32 \<Rightarrow> (case highest_node e of Some h \<Rightarrow> unat h + 1 | None \<Rightarrow> 1)
      | Linux \<Rightarrow> let count = count_loop (node_dir e) 0 0 in if count > 0 then count else 1
      | Other \<Rightarrow> 1)"

text \<open>
  \<^verbatim>\<open>current_node\<close>: \<open>sched_cpu\<close> is the result of \<^verbatim>\<open>sched_getcpu\<close>; \<open>package_id cpu\<close> is \<open>None\<close> when the topology
  file cannot be opened, \<open>Some None\<close> when no number can be read from it.
\<close>

definition current_node :: "os_env \<Rightarrow> u64" where
  "current_node e =
     (case os e of
        Win32 \<Rightarrow> (case win_node e of Some n \<Rightarrow> ucast n | None \<Rightarrow> 0)
      | Linux \<Rightarrow>
          (if sched_cpu e < 0 then 0
           else case package_id e (sched_cpu e) of None \<Rightarrow> 0 | Some None \<Rightarrow> 0 | Some (Some node) \<Rightarrow> node)
      | Other \<Rightarrow> 0)"

text \<open>
  The calls to the operating system and the run-time that acquire and release memory, with their arguments and
  answers: \<^verbatim>\<open>mmap\<close> (\<open>None\<close> for \<^verbatim>\<open>MAP_FAILED\<close>), \<^verbatim>\<open>mbind\<close> (address, size, node mask), \<^verbatim>\<open>munmap\<close>,
  \<^verbatim>\<open>VirtualAllocExNuma\<close> (\<open>None\<close> for null), \<^verbatim>\<open>VirtualFree\<close> with \<^verbatim>\<open>MEM_RELEASE\<close>, \<^verbatim>\<open>_aligned_malloc\<close>,
  \<^verbatim>\<open>_aligned_free\<close>, \<^verbatim>\<open>std::aligned_alloc\<close> and \<^verbatim>\<open>std::free\<close>. The model records the calls a process
  makes; what they do inside the system is not modelled.
\<close>

datatype sys_call =
    Mmap u64 "addr option"
  | Mbind addr u64 u64
  | Munmap addr u64
  | Virtual_alloc u64 nat "addr option"
  | Virtual_free addr bool
  | Aligned_malloc u64 u64 addr
  | Aligned_free addr
  | Std_aligned_alloc u64 u64 addr
  | Std_free addr

text \<open>
  \<open>mm\<close> is the answer of \<^verbatim>\<open>mmap\<close> or \<^verbatim>\<open>VirtualAllocExNuma\<close>, \<open>fb\<close> the answer of \<^verbatim>\<open>_aligned_malloc\<close> or
  \<^verbatim>\<open>std::aligned_alloc\<close>; the answer of \<^verbatim>\<open>mbind\<close> is ignored by the code. \<open>v\<close> are the calls made so far.
\<close>

definition alloc_on_node :: "os_env \<Rightarrow> addr option \<Rightarrow> addr \<Rightarrow> u64 \<Rightarrow> u64 \<Rightarrow> nat \<Rightarrow> sys_call list \<Rightarrow> addr \<times> sys_call list" where
  "alloc_on_node e mm fb bytes alignment node v =
     (case os e of
        Win32 \<Rightarrow>
          (case mm of
             Some p \<Rightarrow> (p, v @ [Virtual_alloc bytes node mm])
           | None \<Rightarrow> (fb, v @ [Virtual_alloc bytes node mm, Aligned_malloc bytes alignment fb]))
      | Linux \<Rightarrow>
          (case mm of
             None \<Rightarrow> (nullptr, v @ [Mmap bytes mm])
           | Some p \<Rightarrow> (p, v @ [Mmap bytes mm, Mbind p bytes (push_bit node 1)]))
      | Other \<Rightarrow> (fb, v @ [Std_aligned_alloc alignment bytes fb]))"

text \<open>\<open>virtual_free e p\<close> is the answer of \<^verbatim>\<open>VirtualFree(p, 0, MEM_RELEASE)\<close>.\<close>

definition free_on_node :: "os_env \<Rightarrow> addr \<Rightarrow> u64 \<Rightarrow> sys_call list \<Rightarrow> sys_call list" where
  "free_on_node e p bytes v =
     (if p = nullptr then v
      else case os e of
        Win32 \<Rightarrow> (if \<not> virtual_free e p then v @ [Virtual_free p False, Aligned_free p]
                  else v @ [Virtual_free p True])
      | Linux \<Rightarrow> v @ [Munmap p bytes]
      | Other \<Rightarrow> v @ [Std_free p])"

text \<open>The address \<^verbatim>\<open>alloc_on_node\<close> returns.\<close>

definition node_memory :: "os_env \<Rightarrow> addr option \<Rightarrow> addr \<Rightarrow> addr" where
  "node_memory e mm fb =
     (case os e of
        Win32 \<Rightarrow> (case mm of Some p \<Rightarrow> p | None \<Rightarrow> fb)
      | Linux \<Rightarrow> (case mm of Some p \<Rightarrow> p | None \<Rightarrow> nullptr)
      | Other \<Rightarrow> fb)"

lemma alloc_on_node_fst: "fst (alloc_on_node e mm fb bytes al node v) = node_memory e mm fb"
  by (simp add: alloc_on_node_def node_memory_def split: platform.splits option.splits)

section \<open>Data and operations of the allocator\<close>

record NumaPool =
  np_global :: nat
  np_region :: addr
  np_region_size :: u64
  np_block_size :: u64
  np_block_count :: u64
  np_batch_size :: u64

record NumaAllocator =
  np_pools :: "NumaPool list"
  num_nodes :: nat
  na_block_size :: u64

definition MAX_NODES :: nat where
  "MAX_NODES = 16"

text \<open>
  The state of the process: \<open>caches (t, n)\<close> is \<^verbatim>\<open>pt.caches[n]\<close> of the \<^verbatim>\<open>thread_local PerThread pt\<close> of
  thread \<open>t\<close>.
\<close>

record nproc =
  nmem :: store
  caches :: "tid \<times> nat \<rightharpoonup> ThreadCache"
  nenvs :: "tid \<Rightarrow> thread_env"
  nvm :: "sys_call list"

definition numa_align_up :: "u64 \<Rightarrow> u64 \<Rightarrow> u64" where
  "numa_align_up val alignment = (val + alignment - 1) AND NOT (alignment - 1)"

text \<open>
  The body of the constructor's loop for node \<open>n\<close>: \<open>mm\<close> are the answers of the memory calls, \<open>obj\<close> the
  pool's (empty) freelist. A node without memory keeps a null region and an empty freelist.
\<close>

definition pool_init ::
  "os_env \<Rightarrow> addr option \<times> addr \<Rightarrow> (addr \<Rightarrow> addr) \<Rightarrow> nat \<Rightarrow> u64 \<Rightarrow> u64 \<Rightarrow> u64 \<Rightarrow> nat \<Rightarrow> nproc \<Rightarrow> (NumaPool \<times> nproc) option" where
  "pool_init e mm junk obj bsize blocks_per_node batch n s =
     (let bytes = bsize * blocks_per_node;
          (r, v) = alloc_on_node e (fst mm) (snd mm) bytes CACHE_LINE n (nvm s);
          pool = \<lparr>np_global = obj, np_region = r, np_region_size = bytes, np_block_size = bsize,
                  np_block_count = blocks_per_node, np_batch_size = batch\<rparr>;
          st = nmem s
      in if r = nullptr
         then Some (pool, s\<lparr>nmem := st\<lparr>lists := (lists st)(obj \<mapsto> FreelistAllocator_new)\<rparr>, nvm := v\<rparr>)
         else do { (g, h) \<leftarrow> init_loop FreelistAllocator_new (fresh_cells r bytes bsize junk (blk st)) r bsize 0 blocks_per_node;
                   Some (pool, s\<lparr>nmem := st\<lparr>blk := h, lists := (lists st)(obj \<mapsto> g)\<rparr>, nvm := v\<rparr>) })"

fun pools_init ::
  "os_env \<Rightarrow> (nat \<Rightarrow> addr option \<times> addr) \<Rightarrow> (addr \<Rightarrow> addr) \<Rightarrow> (nat \<Rightarrow> nat) \<Rightarrow> u64 \<Rightarrow> u64 \<Rightarrow> u64 \<Rightarrow> nat list \<Rightarrow> nproc
     \<Rightarrow> (NumaPool list \<times> nproc) option" where
  "pools_init e mm junk objs bsize n batch [] s = Some ([], s)"
| "pools_init e mm junk objs bsize n batch (i # is) s =
     do { (p, s1) \<leftarrow> pool_init e (mm i) junk (objs i) bsize n batch i s;
          (ps, s2) \<leftarrow> pools_init e mm junk objs bsize n batch is s1;
          Some (p # ps, s2) }"

definition NumaAllocator_new ::
  "os_env \<Rightarrow> (nat \<Rightarrow> addr option \<times> addr) \<Rightarrow> (addr \<Rightarrow> addr) \<Rightarrow> (nat \<Rightarrow> nat) \<Rightarrow> u64 \<Rightarrow> u64 \<Rightarrow> u64 \<Rightarrow> nproc
     \<Rightarrow> (NumaAllocator \<times> nproc) option" where
  "NumaAllocator_new e mm junk objs block_sz blocks_per_node batch s =
     (let bsize = numa_align_up (if block_sz < sizeof_FreeBlock then sizeof_FreeBlock else block_sz) CACHE_LINE;
          nodes = (if node_count e > MAX_NODES then MAX_NODES else node_count e)
      in do { (ps, s') \<leftarrow> pools_init e mm junk objs bsize blocks_per_node batch [0..<nodes] s;
              Some (\<lparr>np_pools = ps, num_nodes = nodes, na_block_size = bsize\<rparr>, s') })"

definition NumaAllocator_delete :: "os_env \<Rightarrow> NumaAllocator \<Rightarrow> nproc \<Rightarrow> nproc" where
  "NumaAllocator_delete e a s =
     foldl (\<lambda>s p. let st = nmem s in
              s\<lparr>nmem := st\<lparr>blk := (if np_region p \<noteq> nullptr then drop_cells (np_region p) (np_region_size p) (blk st) else blk st),
                           lists := (lists st)(np_global p := None)\<rparr>,
                nvm := (if np_region p \<noteq> nullptr then free_on_node e (np_region p) (np_region_size p) (nvm s) else nvm s)\<rparr>)
       s (np_pools a)"

text \<open>The search of \<^verbatim>\<open>owner_node\<close> from node \<open>n\<close> on.\<close>

fun owner_loop :: "addr \<Rightarrow> nat \<Rightarrow> NumaPool list \<Rightarrow> nat" where
  "owner_loop ad n [] = 0"
| "owner_loop ad n (p # ps) =
     (if np_region p \<le> ad \<and> ad < np_region p + np_region_size p then n else owner_loop ad (n + 1) ps)"

definition owner_node :: "NumaAllocator \<Rightarrow> addr \<Rightarrow> nat" where
  "owner_node a p = owner_loop p 0 (np_pools a)"

definition numa_get_cache :: "NumaAllocator \<Rightarrow> tid \<Rightarrow> nat \<Rightarrow> nproc \<Rightarrow> ThreadCache \<times> nproc" where
  "numa_get_cache a t node s =
     (case caches s (t, node) of
        Some c \<Rightarrow> (c, s)
      | None \<Rightarrow> let c = ThreadCache_new (np_global (np_pools a ! node)) (np_batch_size (np_pools a ! node))
                in (c, s\<lparr>caches := (caches s)((t, node) \<mapsto> c)\<rparr>))"

text \<open>\<^verbatim>\<open>get_cache(node).alloc()\<close> and \<^verbatim>\<open>get_cache(node).dealloc(ptr)\<close>.\<close>

definition node_alloc :: "build \<Rightarrow> NumaAllocator \<Rightarrow> tid \<Rightarrow> nat \<Rightarrow> nproc \<Rightarrow> (addr \<times> nproc) option" where
  "node_alloc cfg a t node s =
     (let (c, s1) = numa_get_cache a t node s
      in do { (p, st, c', env) \<leftarrow> tc_alloc cfg (nmem s1, c, nenvs s1 t);
              Some (p, s1\<lparr>nmem := st, caches := (caches s1)((t, node) \<mapsto> c'), nenvs := (nenvs s1)(t := env)\<rparr>) })"

definition node_dealloc :: "build \<Rightarrow> NumaAllocator \<Rightarrow> tid \<Rightarrow> nat \<Rightarrow> nproc \<Rightarrow> addr \<Rightarrow> nproc option" where
  "node_dealloc cfg a t node s p =
     (let (c, s1) = numa_get_cache a t node s
      in do { (st, c', env) \<leftarrow> tc_dealloc cfg (nmem s1, c, nenvs s1 t) p;
              Some (s1\<lparr>nmem := st, caches := (caches s1)((t, node) \<mapsto> c'), nenvs := (nenvs s1)(t := env)\<rparr>) })"

text \<open>The loop over the other nodes in \<^verbatim>\<open>alloc\<close>.\<close>

fun fallback :: "build \<Rightarrow> NumaAllocator \<Rightarrow> tid \<Rightarrow> nat \<Rightarrow> nat list \<Rightarrow> nproc \<Rightarrow> (addr \<times> nproc) option" where
  "fallback cfg a t node [] s = Some (nullptr, s)"
| "fallback cfg a t node (n # ns) s =
     (if n = node then fallback cfg a t node ns s
      else do { (p, s') \<leftarrow> node_alloc cfg a t n s;
                if p \<noteq> nullptr then Some (p, s') else fallback cfg a t node ns s' })"

definition numa_alloc :: "build \<Rightarrow> NumaAllocator \<Rightarrow> os_env \<Rightarrow> tid \<Rightarrow> nproc \<Rightarrow> (addr \<times> nproc) option" where
  "numa_alloc cfg a e t s =
     (let node = (if unat (current_node e) \<ge> num_nodes a then 0 else unat (current_node e))
      in do { (p, s1) \<leftarrow> node_alloc cfg a t node s;
              if p \<noteq> nullptr then Some (p, s1)
              else fallback cfg a t node [0..<num_nodes a] s1 })"

definition numa_dealloc :: "build \<Rightarrow> NumaAllocator \<Rightarrow> tid \<Rightarrow> nproc \<Rightarrow> addr \<Rightarrow> nproc option" where
  "numa_dealloc cfg a t s p = node_dealloc cfg a t (owner_node a p) s p"

text \<open>The end of a thread: \<^verbatim>\<open>~PerThread\<close> deletes its caches, with the blocks they hold.\<close>

definition PerThread_delete :: "tid \<Rightarrow> nproc \<Rightarrow> nproc" where
  "PerThread_delete t s = s\<lparr>caches := (\<lambda>(u, n). if u = t then None else caches s (u, n)), nenvs := (nenvs s)(t := thread_env_new)\<rparr>"

section \<open>The node helpers\<close>

lemma count_loop_prefix:
  assumes "n + k \<le> 256" "\<forall>i < k. exists_node (n + i)" "n + k = 256 \<or> \<not> exists_node (n + k)"
  shows "count_loop exists_node n count = count + k"
  using assms
proof (induction k arbitrary: n count)
  case 0
  then show ?case by (subst count_loop.simps) auto
next
  case (Suc k)
  have "exists_node n" using Suc.prems(2) by (metis add.right_neutral zero_less_Suc)
  moreover have "count_loop exists_node (n + 1) (count + 1) = count + 1 + k"
    using Suc.prems by (intro Suc.IH) (auto simp: add.assoc)
  ultimately show ?case using Suc.prems(1) by (subst count_loop.simps) simp
qed

lemma node_count_pos: "0 < node_count e"
  by (simp add: node_count_def Let_def split: platform.splits option.splits)

text \<open>\<^verbatim>\<open>node_count\<close> on Linux counts the node directories up to the first gap: with directories 0 to
  \<open>k - 1\<close> present and directory \<open>k\<close> absent it returns \<open>k\<close> (at least 1, at most 256), whatever
  nodes with higher numbers exist.\<close>

theorem numa_node_count_first_gap:
  assumes "os e = Linux" "k \<le> 256" "\<forall>i < k. node_dir e i" "k = 256 \<or> \<not> node_dir e k"
  shows "node_count e = max 1 k"
  using count_loop_prefix [of 0 k "node_dir e" 0] assms by (simp add: node_count_def Let_def)

definition demo_os :: os_env where
  "demo_os = \<lparr>os = Linux, highest_node = None, node_dir = (\<lambda>n. n \<in> {0, 1, 3}), win_node = None,
     sched_cpu = 5, package_id = (\<lambda>cpu. Some (Some (if cpu < 4 then 0 else 1))), virtual_free = (\<lambda>_. False)\<rparr>"

theorem numa_node_count_first_gap_witness: "node_count demo_os = 2"
  using numa_node_count_first_gap [of demo_os 2] by (auto simp: demo_os_def less_Suc_eq numeral_2_eq_2)

section \<open>The allocator invariant\<close>

definition node_blocks :: "NumaPool \<Rightarrow> addr set" where
  "node_blocks p = (if np_region p = nullptr then {} else block_at (np_region p) (np_block_size p) ` {..<unat (np_block_count p)})"

definition pool_end :: "NumaPool \<Rightarrow> nat" where
  "pool_end p = unat (np_region p) + unat (np_region_size p)"

text \<open>
  Ranges that \<^verbatim>\<open>owner_node\<close> tells apart. A pool without memory still claims the addresses below its size,
  so the regions of the other pools must lie above it.
\<close>

definition pools_apart :: "NumaPool \<Rightarrow> NumaPool \<Rightarrow> bool" where
  "pools_apart p q = (np_region p = nullptr \<and> np_region q = nullptr
     \<or> pool_end p \<le> unat (np_region q) \<or> pool_end q \<le> unat (np_region p))"

definition pool_fits :: "NumaPool \<Rightarrow> bool" where
  "pool_fits p = (2 * unat (np_batch_size p) < 2 ^ 64 \<and> pool_end p < 2 ^ 64 \<and> 0 < unat (np_block_size p)
     \<and> unat (np_region_size p) = unat (np_block_count p) * unat (np_block_size p))"

definition numa_layout :: "NumaAllocator \<Rightarrow> bool" where
  "numa_layout a = (0 < num_nodes a \<and> length (np_pools a) = num_nodes a \<and> (\<forall>p \<in> set (np_pools a). pool_fits p)
     \<and> sorted_wrt pools_apart (np_pools a) \<and> distinct (map np_global (np_pools a)))"

text \<open>\<open>numa_ok a s G L\<close>: the lists of node \<open>n\<close> hold blocks of node \<open>n\<close> only, in every thread.\<close>

definition numa_ok :: "NumaAllocator \<Rightarrow> nproc \<Rightarrow> (nat \<Rightarrow> addr list) \<Rightarrow> (tid \<times> nat \<Rightarrow> addr list) \<Rightarrow> bool" where
  "numa_ok a s G L = (numa_layout a \<and> sys_ok (nmem s) (caches s) G L
     \<and> (\<forall>p \<in> set (np_pools a). np_global p \<in> dom (lists (nmem s)))
     \<and> (\<forall>t n c. caches s (t, n) = Some c \<longrightarrow> n < num_nodes a \<and> global c = np_global (np_pools a ! n))
     \<and> (\<forall>n < num_nodes a. set (G (np_global (np_pools a ! n))) \<subseteq> node_blocks (np_pools a ! n)
           \<and> (\<forall>t. set (L (t, n)) \<subseteq> node_blocks (np_pools a ! n)))
     \<and> (\<forall>i. i \<notin> np_global ` set (np_pools a) \<longrightarrow> G i = [])
     \<and> dom (blk (nmem s)) = (\<Union>p \<in> set (np_pools a). node_blocks p))"

lemma numa_okD:
  assumes "numa_ok a s G L"
  shows "sys_ok (nmem s) (caches s) G L" "0 < num_nodes a" "length (np_pools a) = num_nodes a"
    "n < num_nodes a \<Longrightarrow> pool_fits (np_pools a ! n)" "n < num_nodes a \<Longrightarrow> np_global (np_pools a ! n) \<in> dom (lists (nmem s))"
    "caches s (t, n) = Some c \<Longrightarrow> n < num_nodes a \<and> global c = np_global (np_pools a ! n)"
    "n < num_nodes a \<Longrightarrow> set (G (np_global (np_pools a ! n))) \<subseteq> node_blocks (np_pools a ! n)"
    "n < num_nodes a \<Longrightarrow> set (L (t, n)) \<subseteq> node_blocks (np_pools a ! n)"
  using assms unfolding numa_ok_def numa_layout_def by auto

lemma pool_range:
  assumes "pool_fits p" "x \<in> node_blocks p"
  shows "unat (np_region p) \<le> unat x" "unat x < pool_end p" "np_region p \<noteq> nullptr"
proof -
  obtain i where i: "i < unat (np_block_count p)" "x = block_at (np_region p) (np_block_size p) i" and nn: "np_region p \<noteq> nullptr"
    using assms(2) by (auto simp: node_blocks_def split: if_splits)
  have fits: "array_fits (np_region p) (np_block_size p) (unat (np_block_count p))"
    using assms(1) nn by (simp add: pool_fits_def array_fits_def pool_end_def unat_gt_0)
  then have sz: "0 < unat (np_block_size p)" by (simp add: array_fits_def)
  show "unat (np_region p) \<le> unat x" "unat x < pool_end p"
    using unat_block_at [OF fits i(1)] i sz assms(1) by (simp_all add: pool_fits_def pool_end_def)
  show "np_region p \<noteq> nullptr" by (rule nn)
qed

lemma pool_check:
  assumes "pool_fits p"
  shows "np_region p \<le> x \<and> x < np_region p + np_region_size p \<longleftrightarrow> unat (np_region p) \<le> unat x \<and> unat x < pool_end p"
  using assms unat_plus_64 [of "np_region p" "np_region_size p"]
  by (simp add: pool_fits_def pool_end_def word_le_nat_alt word_less_nat_alt)

lemma owner_loop_at:
  assumes "sorted_wrt pools_apart ps" "\<forall>p \<in> set ps. pool_fits p" "i < length ps" "x \<in> node_blocks (ps ! i)"
  shows "owner_loop x n ps = n + i"
  using assms
proof (induction ps arbitrary: i n)
  case (Cons p ps)
  have p: "pool_fits p" using Cons.prems(2) by simp
  show ?case
  proof (cases i)
    case 0
    then have "x \<in> node_blocks p" using Cons.prems(4) by simp
    then show ?thesis using pool_range(1,2) [OF p] pool_check [OF p, of x] 0 by simp
  next
    case (Suc j)
    then have j: "j < length ps" "x \<in> node_blocks (ps ! j)" "pool_fits (ps ! j)" "pools_apart p (ps ! j)" using Cons.prems by auto
    note q = pool_range [OF j(3,2)]
    have "\<not> (unat (np_region p) \<le> unat x \<and> unat x < pool_end p)"
      using q j(4) unfolding pools_apart_def by auto
    then show ?thesis using pool_check [OF p, of x] Cons.IH [OF _ _ j(1,2), of "n + 1"] Cons.prems(1,2) Suc by auto
  qed
qed simp

lemma owner_node_block:
  assumes "numa_ok a s G L" "n < num_nodes a" "x \<in> node_blocks (np_pools a ! n)"
  shows "owner_node a x = n"
  using owner_loop_at [of "np_pools a" n x 0] assms by (simp add: owner_node_def numa_ok_def numa_layout_def)

lemma node_block_exists:
  assumes "numa_ok a s G L" "x \<in> dom (blk (nmem s))"
  obtains n where "n < num_nodes a" "x \<in> node_blocks (np_pools a ! n)"
proof -
  from assms obtain p where "p \<in> set (np_pools a)" "x \<in> node_blocks p" by (auto simp: numa_ok_def)
  with that numa_okD(3) [OF assms(1)] show thesis by (metis in_set_conv_nth)
qed

lemma numa_get_cache_ok:
  assumes ok: "numa_ok a s G L" and n: "n < num_nodes a"
  obtains c s1 where "numa_get_cache a t n s = (c, s1)" "nmem s1 = nmem s" "nenvs s1 = nenvs s"
    "caches s1 (t, n) = Some c" "numa_ok a s1 G L" "global c = np_global (np_pools a ! n)"
proof (cases "caches s (t, n)")
  case None
  let ?p = "np_pools a ! n"
  let ?c = "ThreadCache_new (np_global ?p) (np_batch_size ?p)"
  have "sys_ok (nmem s) ((caches s)((t, n) \<mapsto> ?c)) G L"
    by (rule sys_new_cache [OF numa_okD(1) [OF ok] None numa_okD(5) [OF ok n]])
      (use numa_okD(4) [OF ok n] in \<open>simp add: pool_fits_def\<close>)
  then have "numa_ok a (s\<lparr>caches := (caches s)((t, n) \<mapsto> ?c)\<rparr>) G L"
    using ok n by (auto simp: numa_ok_def ThreadCache_new_def)
  then show thesis
    using that [of ?c "s\<lparr>caches := (caches s)((t, n) \<mapsto> ?c)\<rparr>"] None by (simp add: numa_get_cache_def Let_def ThreadCache_new_def)
next
  case (Some c)
  then show thesis using that [of c s] ok numa_okD(6) [OF ok Some] by (simp add: numa_get_cache_def)
qed

text \<open>The invariant after an operation of one cache, which changes the lists of its own node only.\<close>

lemma numa_ok_update:
  assumes ok: "numa_ok a s G L" and n: "n < num_nodes a" and i: "i = np_global (np_pools a ! n)"
    and sys: "sys_ok st' ((caches s)((t, n) \<mapsto> c')) G' L'" and c': "global c' = i"
    and dom: "dom (blk st') = dom (blk (nmem s))" "dom (lists st') = dom (lists (nmem s))"
    and same: "\<forall>j. j \<noteq> i \<longrightarrow> G' j = G j" "\<forall>l. l \<noteq> (t, n) \<longrightarrow> L' l = L l"
    and new: "set (G' i) \<union> set (L' (t, n)) \<subseteq> node_blocks (np_pools a ! n)"
  shows "numa_ok a (s\<lparr>nmem := st', caches := (caches s)((t, n) \<mapsto> c'), nenvs := e\<rparr>) G' L'"
proof -
  have inj: "np_global (np_pools a ! m) = i \<longleftrightarrow> m = n" if "m < num_nodes a" for m
    using ok that n i nth_eq_iff_index_eq [of "map np_global (np_pools a)" m n] by (auto simp: numa_ok_def numa_layout_def)
  have "set (G' (np_global (np_pools a ! m))) \<subseteq> node_blocks (np_pools a ! m)" if "m < num_nodes a" for m
    using numa_okD(7) [OF ok that] new same(1) inj [OF that] by (cases "m = n") auto
  moreover have "set (L' (u, m)) \<subseteq> node_blocks (np_pools a ! m)" if "m < num_nodes a" for m u
    using numa_okD(8) [OF ok that] new same(2) by (cases "(u, m) = (t, n)") auto
  moreover have "G' j = []" if "j \<notin> np_global ` set (np_pools a)" for j
  proof -
    have "i \<in> np_global ` set (np_pools a)" using i n numa_okD(3) [OF ok] by auto
    then show ?thesis using that same(1) ok by (auto simp: numa_ok_def)
  qed
  ultimately show ?thesis
    using ok sys c' dom same n i unfolding numa_ok_def by (auto split: if_splits)
qed


lemma node_alloc_ok:
  assumes ok: "numa_ok a s G L" and n: "n < num_nodes a"
  shows "\<exists>p s' G' L'. node_alloc cfg a t n s = Some (p, s') \<and> numa_ok a s' G' L' \<and> sys_free G' L' = sys_free G L - {p}
    \<and> (p = nullptr \<longleftrightarrow> G (np_global (np_pools a ! n)) = [] \<and> L (t, n) = [])
    \<and> (p \<noteq> nullptr \<longrightarrow> p \<in> node_blocks (np_pools a ! n) \<and> p \<in> sys_free G L) \<and> (p = nullptr \<longrightarrow> G' = G \<and> L' = L)"
proof -
  obtain c s1 where c: "numa_get_cache a t n s = (c, s1)" "nmem s1 = nmem s" "nenvs s1 = nenvs s"
    "caches s1 (t, n) = Some c" "numa_ok a s1 G L" "global c = np_global (np_pools a ! n)" by (rule numa_get_cache_ok [OF ok n])
  obtain p st' c' env' G' L' where p: "tc_alloc cfg (nmem s1, c, nenvs s1 t) = Some (p, st', c', env')"
    "sys_ok st' ((caches s1)((t, n) \<mapsto> c')) G' L'" "sys_free G' L' = sys_free G L - {p}"
    "p = nullptr \<longleftrightarrow> G (global c) = [] \<and> L (t, n) = []" "p \<noteq> nullptr \<longrightarrow> p \<in> set (G (global c)) \<union> set (L (t, n))"
    "same_limits c c'" "dom (blk st') = dom (blk (nmem s1))" "dom (lists st') = dom (lists (nmem s1))"
    "\<forall>i. i \<noteq> global c \<longrightarrow> G' i = G i" "\<forall>l. l \<noteq> (t, n) \<longrightarrow> L' l = L l"
    "set (G' (global c)) \<union> set (L' (t, n)) = set (G (global c)) \<union> set (L (t, n)) - {p}"
    by (rule sys_alloc [OF numa_okD(1) [OF c(5)] c(4), of cfg "nenvs s1 t"])
  let ?s = "s1\<lparr>nmem := st', caches := (caches s1)((t, n) \<mapsto> c'), nenvs := (nenvs s1)(t := env')\<rparr>"
  have own: "set (G (global c)) \<union> set (L (t, n)) \<subseteq> node_blocks (np_pools a ! n)"
    using numa_okD(7,8) [OF c(5) n] c(6) by simp
  have "numa_ok a ?s G' L'"
    by (rule numa_ok_update [OF c(5) n c(6) p(2) _ p(7,8,9,10)]) (use p(6,11) own in \<open>auto simp: same_limits_def\<close>)
  moreover have "node_alloc cfg a t n s = Some (p, ?s)" using c(1) p(1) by (simp add: node_alloc_def)
  moreover have "G' = G \<and> L' = L" if "p = nullptr"
  proof -
    have e: "G (global c) = []" "L (t, n) = []" "G' (global c) = []" "L' (t, n) = []" using that p(4,11) by auto
    have "G' i = G i" for i using p(9) e by (cases "i = global c") auto
    moreover have "L' l = L l" for l using p(10) e(2,4) by metis
    ultimately show ?thesis by auto
  qed
  moreover have "p \<noteq> nullptr \<longrightarrow> p \<in> sys_free G L" using p(5) unfolding sys_free_def by blast
  ultimately show ?thesis using p(3-5) own c(6)
    by (intro exI [of _ ?s] exI [of _ p] exI [of _ G'] exI [of _ L']) auto
qed

lemma node_dealloc_ok:
  assumes ok: "numa_ok a s G L" and n: "n < num_nodes a" and x: "x \<in> node_blocks (np_pools a ! n)" "x \<notin> sys_free G L"
  shows "\<exists>s' G' L'. node_dealloc cfg a t n s x = Some s' \<and> numa_ok a s' G' L' \<and> sys_free G' L' = insert x (sys_free G L)
    \<and> x \<in> set (G' (np_global (np_pools a ! n))) \<union> set (L' (t, n))"
proof -
  obtain c s1 where c: "numa_get_cache a t n s = (c, s1)" "nmem s1 = nmem s" "nenvs s1 = nenvs s"
    "caches s1 (t, n) = Some c" "numa_ok a s1 G L" "global c = np_global (np_pools a ! n)" by (rule numa_get_cache_ok [OF ok n])
  have xd: "x \<in> dom (blk (nmem s1))" using x(1) n ok c(2) numa_okD(3) [OF ok] by (auto simp: numa_ok_def)
  obtain st' c' env' G' L' where p: "tc_dealloc cfg (nmem s1, c, nenvs s1 t) x = Some (st', c', env')"
    "sys_ok st' ((caches s1)((t, n) \<mapsto> c')) G' L'" "sys_free G' L' = insert x (sys_free G L)"
    "same_limits c c'" "dom (blk st') = dom (blk (nmem s1))" "dom (lists st') = dom (lists (nmem s1))"
    "\<forall>i. i \<noteq> global c \<longrightarrow> G' i = G i" "\<forall>l. l \<noteq> (t, n) \<longrightarrow> L' l = L l"
    "set (G' (global c)) \<union> set (L' (t, n)) = insert x (set (G (global c)) \<union> set (L (t, n)))"
    by (rule sys_dealloc [OF numa_okD(1) [OF c(5)] c(4) xd x(2), of cfg "nenvs s1 t"])
  let ?s = "s1\<lparr>nmem := st', caches := (caches s1)((t, n) \<mapsto> c'), nenvs := (nenvs s1)(t := env')\<rparr>"
  have "numa_ok a ?s G' L'"
    by (rule numa_ok_update [OF c(5) n c(6) p(2) _ p(5-8)])
      (use p(4,9) x(1) numa_okD(7,8) [OF c(5) n] c(6) in \<open>auto simp: same_limits_def\<close>)
  moreover have "node_dealloc cfg a t n s x = Some ?s" using c(1) p(1) by (simp add: node_dealloc_def)
  ultimately show ?thesis using p(3,9) c(6) by (intro exI [of _ ?s] exI [of _ G'] exI [of _ L']) auto
qed

text \<open>Which nodes a thread sees as exhausted: shared list and own cache empty.\<close>

definition node_empty :: "NumaAllocator \<Rightarrow> (nat \<Rightarrow> addr list) \<Rightarrow> (tid \<times> nat \<Rightarrow> addr list) \<Rightarrow> tid \<Rightarrow> nat \<Rightarrow> bool" where
  "node_empty a G L t n = (G (np_global (np_pools a ! n)) = [] \<and> L (t, n) = [])"

lemma fallback_ok:
  assumes "numa_ok a s G L" "\<forall>n \<in> set ns. n < num_nodes a"
  shows "\<exists>p s' G' L'. fallback cfg a t node ns s = Some (p, s') \<and> numa_ok a s' G' L' \<and> sys_free G' L' = sys_free G L - {p}
    \<and> (p \<noteq> nullptr \<longrightarrow> p \<in> sys_free G L) \<and> (p = nullptr \<longleftrightarrow> (\<forall>n \<in> set ns. n \<noteq> node \<longrightarrow> node_empty a G L t n))
    \<and> (p = nullptr \<longrightarrow> G' = G \<and> L' = L)"
  using assms
proof (induction ns arbitrary: s)
  case Nil
  then show ?case using sys_free_dom(2) [OF numa_okD(1) [OF Nil.prems(1)]]
    by (intro exI [of _ nullptr] exI [of _ s] exI [of _ G] exI [of _ L]) simp
next
  case (Cons n ns)
  show ?case
  proof (cases "n = node")
    case True
    then show ?thesis using Cons.IH [OF Cons.prems(1)] Cons.prems(2) by simp
  next
    case False
    have n: "n < num_nodes a" using Cons.prems(2) by simp
    obtain p s1 G1 L1 where a: "node_alloc cfg a t n s = Some (p, s1)" "numa_ok a s1 G1 L1" "sys_free G1 L1 = sys_free G L - {p}"
      "p = nullptr \<longleftrightarrow> node_empty a G L t n" "p \<noteq> nullptr \<longrightarrow> p \<in> sys_free G L" "p = nullptr \<longrightarrow> G1 = G \<and> L1 = L"
      using node_alloc_ok [OF Cons.prems(1) n, of cfg t] unfolding node_empty_def by blast
    show ?thesis
    proof (cases "p = nullptr")
      case True
      then have "numa_ok a s1 G L" using a(2,6) by simp
      from Cons.IH [OF this] Cons.prems(2) True a(1,4) False show ?thesis by simp
    next
      case nn: False
      then show ?thesis using a False by (intro exI [of _ p] exI [of _ s1] exI [of _ G1] exI [of _ L1]) auto
    qed
  qed
qed

definition local_node :: "NumaAllocator \<Rightarrow> os_env \<Rightarrow> nat" where
  "local_node a e = (if unat (current_node e) \<ge> num_nodes a then 0 else unat (current_node e))"

lemma numa_alloc_ok:
  assumes ok: "numa_ok a s G L"
  shows "\<exists>p s' G' L'. numa_alloc cfg a e t s = Some (p, s') \<and> numa_ok a s' G' L' \<and> sys_free G' L' = sys_free G L - {p}
    \<and> (p \<noteq> nullptr \<longrightarrow> p \<in> sys_free G L) \<and> (p = nullptr \<longleftrightarrow> (\<forall>n < num_nodes a. node_empty a G L t n))
    \<and> (\<not> node_empty a G L t (local_node a e) \<longrightarrow> p \<in> node_blocks (np_pools a ! local_node a e))"
proof -
  let ?n = "local_node a e"
  have n: "?n < num_nodes a" using numa_okD(2) [OF ok] by (simp add: local_node_def)
  obtain p s1 G1 L1 where a: "node_alloc cfg a t ?n s = Some (p, s1)" "numa_ok a s1 G1 L1" "sys_free G1 L1 = sys_free G L - {p}"
    "p = nullptr \<longleftrightarrow> node_empty a G L t ?n" "p \<noteq> nullptr \<longrightarrow> p \<in> node_blocks (np_pools a ! ?n) \<and> p \<in> sys_free G L"
    "p = nullptr \<longrightarrow> G1 = G \<and> L1 = L" using node_alloc_ok [OF ok n, of cfg t] unfolding node_empty_def by blast
  have un: "numa_alloc cfg a e t s = (if p \<noteq> nullptr then Some (p, s1) else fallback cfg a t ?n [0..<num_nodes a] s1)"
    using a(1) by (simp add: numa_alloc_def local_node_def)
  show ?thesis
  proof (cases "p = nullptr")
    case True
    then have "numa_ok a s1 G L" using a(2,6) by simp
    moreover have "\<forall>n \<in> set [0..<num_nodes a]. n < num_nodes a" by simp
    ultimately obtain q s2 G2 L2 where
      q: "fallback cfg a t ?n [0..<num_nodes a] s1 = Some (q, s2)" "numa_ok a s2 G2 L2" "sys_free G2 L2 = sys_free G L - {q}"
      "q \<noteq> nullptr \<longrightarrow> q \<in> sys_free G L" "q = nullptr \<longleftrightarrow> (\<forall>n \<in> set [0..<num_nodes a]. n \<noteq> ?n \<longrightarrow> node_empty a G L t n)"
      using fallback_ok [of a s1 G L "[0..<num_nodes a]" cfg t ?n] by blast
    have "q = nullptr \<longleftrightarrow> (\<forall>n < num_nodes a. node_empty a G L t n)" using q(5) True a(4) by (metis atLeast0LessThan lessThan_iff set_upt)
    then show ?thesis using un q(1-4) True a(4) by (intro exI [of _ q] exI [of _ s2] exI [of _ G2] exI [of _ L2]) simp
  next
    case False
    then show ?thesis using un a n by (intro exI [of _ p] exI [of _ s1] exI [of _ G1] exI [of _ L1]) auto
  qed
qed


section \<open>A NUMA allocator is a block pool\<close>

definition numa_invar :: "NumaAllocator \<Rightarrow> nproc \<Rightarrow> bool" where
  "numa_invar a s = (\<exists>G L. numa_ok a s G L)"

definition numa_blocks :: "nproc \<Rightarrow> addr set" where
  "numa_blocks s = dom (blk (nmem s))"

definition numa_free :: "nproc \<Rightarrow> addr set" where
  "numa_free s = {x. \<exists>G L. sys_ok (nmem s) (caches s) G L \<and> x \<in> sys_free G L}"

lemma numa_free_eq: "numa_ok a s G L \<Longrightarrow> numa_free s = sys_free G L"
  unfolding numa_free_def using numa_okD(1) sys_ok_unique by blast

lemma numa_blocks_eq: "numa_ok a s G L \<Longrightarrow> numa_blocks s = (\<Union>p \<in> set (np_pools a). node_blocks p)"
  by (simp add: numa_ok_def numa_blocks_def)

lemma numa_dealloc_ok:
  assumes ok: "numa_ok a s G L" and x: "x \<in> numa_blocks s - numa_free s"
  shows "\<exists>n s' G' L'. n < num_nodes a \<and> x \<in> node_blocks (np_pools a ! n) \<and> owner_node a x = n
    \<and> numa_dealloc cfg a t s x = Some s' \<and> numa_ok a s' G' L' \<and> sys_free G' L' = insert x (sys_free G L)
    \<and> x \<in> set (G' (np_global (np_pools a ! n))) \<union> set (L' (t, n))"
proof -
  obtain n where n: "n < num_nodes a" "x \<in> node_blocks (np_pools a ! n)"
    using node_block_exists [OF ok] x unfolding numa_blocks_def by blast
  have "x \<notin> sys_free G L" using x numa_free_eq [OF ok] by simp
  from node_dealloc_ok [OF ok n this, of cfg t] owner_node_block [OF ok n] n show ?thesis
    unfolding numa_dealloc_def by auto
qed

interpretation na: block_pool "numa_alloc cfg a e t" "numa_dealloc cfg a t" "numa_invar a" numa_blocks numa_free for cfg a e t
proof
  fix s assume "numa_invar a s"
  then obtain G L where ok: "numa_ok a s G L" by (auto simp: numa_invar_def)
  note free = numa_free_eq [OF ok] and dom = sys_free_dom [OF numa_okD(1) [OF ok]]
  from numa_alloc_ok [OF ok, of cfg e t] obtain p s' G' L' where al: "numa_alloc cfg a e t s = Some (p, s')"
    "numa_ok a s' G' L'" "sys_free G' L' = sys_free G L - {p}" "p \<noteq> nullptr \<longrightarrow> p \<in> sys_free G L" by blast
  show "numa_free s \<subseteq> numa_blocks s" using dom(1) free by (simp add: numa_blocks_def)
  show "nullptr \<notin> numa_blocks s" using sys_disjoint(4) [OF numa_okD(1) [OF ok]] by (simp add: numa_blocks_def)
  show "\<exists>p s'. numa_alloc cfg a e t s = Some (p, s')" using al(1) by blast
  show "\<exists>s'. numa_dealloc cfg a t s x = Some s' \<and> numa_invar a s' \<and> numa_blocks s' = numa_blocks s \<and> numa_free s' = insert x (numa_free s)"
    if "x \<in> numa_blocks s - numa_free s" for x
    using numa_dealloc_ok [OF ok that, of cfg t] free numa_free_eq numa_blocks_eq [OF ok] numa_blocks_eq unfolding numa_invar_def by metis
  show "numa_free s'' = numa_free s" if "numa_alloc cfg a e t s = Some (nullptr, s'')" for s''
    using that al dom(2) free numa_free_eq [OF al(2)] by auto
  fix q s'' assume "numa_alloc cfg a e t s = Some (q, s'')"
  then have eq: "q = p" "s'' = s'" using al(1) by auto
  show "numa_invar a s''" using al(2) eq by (auto simp: numa_invar_def)
  show "numa_blocks s'' = numa_blocks s" using numa_blocks_eq [OF ok] numa_blocks_eq [OF al(2)] eq by simp
  show "q \<in> numa_free s \<and> numa_free s'' = numa_free s - {q}" if "q \<noteq> nullptr"
    using al(3,4) that eq free numa_free_eq [OF al(2)] by simp
qed

section \<open>Construction\<close>

definition node_pool :: "os_env \<Rightarrow> (nat \<Rightarrow> addr option \<times> addr) \<Rightarrow> (nat \<Rightarrow> nat) \<Rightarrow> u64 \<Rightarrow> u64 \<Rightarrow> u64 \<Rightarrow> nat \<Rightarrow> NumaPool" where
  "node_pool e mm objs bsize n batch i =
     \<lparr>np_global = objs i, np_region = node_memory e (fst (mm i)) (snd (mm i)), np_region_size = bsize * n,
      np_block_size = bsize, np_block_count = n, np_batch_size = batch\<rparr>"

lemma pool_init_ok:
  assumes ok: "sys_ok (nmem s) (caches s) G L" and fits: "pool_fits (node_pool e mm objs bsize n batch i)"
    and fresh: "lists (nmem s) (objs i) = None" "numa_blocks s \<inter> node_blocks (node_pool e mm objs bsize n batch i) = {}"
  shows "\<exists>s' xs. pool_init e (mm i) junk (objs i) bsize n batch i s = Some (node_pool e mm objs bsize n batch i, s')
    \<and> sys_ok (nmem s') (caches s') (G(objs i := xs)) L \<and> set xs = node_blocks (node_pool e mm objs bsize n batch i)
    \<and> numa_blocks s' = numa_blocks s \<union> set xs \<and> dom (lists (nmem s')) = insert (objs i) (dom (lists (nmem s)))
    \<and> caches s' = caches s"
proof -
  define r where "r = node_memory e (fst (mm i)) (snd (mm i))"
  define v where "v = snd (alloc_on_node e (fst (mm i)) (snd (mm i)) (bsize * n) CACHE_LINE i (nvm s))"
  have al: "alloc_on_node e (fst (mm i)) (snd (mm i)) (bsize * n) CACHE_LINE i (nvm s) = (r, v)"
    unfolding r_def v_def by (metis alloc_on_node_fst prod.collapse)
  have np: "node_pool e mm objs bsize n batch i = \<lparr>np_global = objs i, np_region = r, np_region_size = bsize * n,
      np_block_size = bsize, np_block_count = n, np_batch_size = batch\<rparr>" by (simp add: node_pool_def r_def)
  show ?thesis
  proof (cases "r = nullptr")
    case True
    let ?st = "(nmem s)\<lparr>lists := (lists (nmem s))(objs i \<mapsto> FreelistAllocator_new)\<rparr>"
    have "sys_ok ((nmem s)\<lparr>blk := blk (nmem s), lists := (lists (nmem s))(objs i \<mapsto> FreelistAllocator_new)\<rparr>) (caches s) (G(objs i := [])) L"
      by (rule sys_new_list [OF ok fresh(1)]) (use sys_disjoint(4) [OF ok] fl_new_holds in \<open>auto simp: FreelistAllocator_new_def\<close>)
    then have "sys_ok ?st (caches s) (G(objs i := [])) L" by simp
    moreover have "pool_init e (mm i) junk (objs i) bsize n batch i s = Some (node_pool e mm objs bsize n batch i, s\<lparr>nmem := ?st, nvm := v\<rparr>)"
      using True al np by (simp add: pool_init_def Let_def)
    moreover have "node_blocks (node_pool e mm objs bsize n batch i) = {}" using True np by (simp add: node_blocks_def)
    ultimately show ?thesis by (intro exI [of _ "s\<lparr>nmem := ?st, nvm := v\<rparr>"] exI [of _ "[]"]) (simp add: numa_blocks_def)
  next
    case False
    have sizes: "array_fits r bsize (unat n)" "unat (bsize * n) = unat n * unat bsize"
      using fits False np by (simp_all add: pool_fits_def array_fits_def pool_end_def unat_gt_0)
    define xs where "xs = map (block_at r bsize) (rev [0..<unat n])"
    have xs: "set xs = node_blocks (node_pool e mm objs bsize n batch i)"
      using False np by (auto simp: xs_def node_blocks_def)
    have "dom (blk (nmem s)) \<inter> block_at r bsize ` {..<unat n} = {}"
      using fresh(2) False np by (simp add: numa_blocks_def node_blocks_def)
    from init_list_ok [OF sizes ok fresh(1) this, of junk] obtain g h where
      gh: "init_loop FreelistAllocator_new (fresh_cells r (bsize * n) bsize junk (blk (nmem s))) r bsize 0 n = Some (g, h)"
      "sys_ok ((nmem s)\<lparr>blk := h, lists := (lists (nmem s))(objs i \<mapsto> g)\<rparr>) (caches s) (G(objs i := xs)) L" "dom h = dom (blk (nmem s)) \<union> set xs"
      unfolding xs_def by blast
    let ?s = "s\<lparr>nmem := (nmem s)\<lparr>blk := h, lists := (lists (nmem s))(objs i \<mapsto> g)\<rparr>, nvm := v\<rparr>"
    have "pool_init e (mm i) junk (objs i) bsize n batch i s = Some (node_pool e mm objs bsize n batch i, ?s)"
      using False gh(1) al np by (simp add: pool_init_def Let_def)
    then show ?thesis using gh(2,3) xs by (intro exI [of _ ?s] exI [of _ xs]) (simp add: numa_blocks_def)
  qed
qed

text \<open>What the environment provides for the nodes \<open>is\<close>: sizes that do not wrap around, new freelists and unused, disjoint memory.\<close>

definition nodes_env_ok :: "(nat \<Rightarrow> NumaPool) \<Rightarrow> (nat \<Rightarrow> nat) \<Rightarrow> nat list \<Rightarrow> nproc \<Rightarrow> bool" where
  "nodes_env_ok np objs is s =
     ((\<forall>i \<in> set is. pool_fits (np i) \<and> lists (nmem s) (objs i) = None \<and> numa_blocks s \<inter> node_blocks (np i) = {})
      \<and> distinct (map objs is) \<and> sorted_wrt pools_apart (map np is))"

lemma pools_apart_blocks:
  assumes "pools_apart p q" "pool_fits p" "pool_fits q"
  shows "node_blocks p \<inter> node_blocks q = {}"
proof -
  have "x \<notin> node_blocks q" if "x \<in> node_blocks p" for x
    using pool_range [OF assms(2) that] pool_range [OF assms(3), of x] assms(1) unfolding pools_apart_def by linarith
  then show ?thesis by blast
qed

lemma pools_init_ok:
  assumes "nodes_env_ok (node_pool e mm objs bsize n batch) objs is s" "sys_ok (nmem s) (caches s) G L"
  shows "\<exists>s' G'. pools_init e mm junk objs bsize n batch is s = Some (map (node_pool e mm objs bsize n batch) is, s')
    \<and> sys_ok (nmem s') (caches s') G' L \<and> caches s' = caches s
    \<and> dom (lists (nmem s')) = objs ` set is \<union> dom (lists (nmem s))
    \<and> numa_blocks s' = numa_blocks s \<union> (\<Union>i \<in> set is. node_blocks (node_pool e mm objs bsize n batch i))
    \<and> (\<forall>i \<in> set is. set (G' (objs i)) = node_blocks (node_pool e mm objs bsize n batch i))
    \<and> (\<forall>j. j \<notin> objs ` set is \<longrightarrow> G' j = G j)"
  using assms
proof (induction "is" arbitrary: s G)
  case (Cons i "is")
  let ?np = "node_pool e mm objs bsize n batch"
  have e: "pool_fits (?np i)" "lists (nmem s) (objs i) = None" "numa_blocks s \<inter> node_blocks (?np i) = {}" "objs i \<notin> objs ` set is"
    using Cons.prems(1) by (auto simp: nodes_env_ok_def)
  from pool_init_ok [OF Cons.prems(2) e(1-3), of junk] obtain s1 xs where
    s1: "pool_init e (mm i) junk (objs i) bsize n batch i s = Some (?np i, s1)" "sys_ok (nmem s1) (caches s1) (G(objs i := xs)) L"
    "set xs = node_blocks (?np i)" "numa_blocks s1 = numa_blocks s \<union> set xs"
    "dom (lists (nmem s1)) = insert (objs i) (dom (lists (nmem s)))" "caches s1 = caches s" by blast
  have "nodes_env_ok ?np objs is s1"
  proof -
    have "node_blocks (?np i) \<inter> node_blocks (?np j) = {}" if "j \<in> set is" for j
      using that Cons.prems(1) by (intro pools_apart_blocks) (auto simp: nodes_env_ok_def)
    moreover have "lists (nmem s1) (objs j) = None" if "j \<in> set is" for j
    proof -
      have "objs j \<notin> dom (lists (nmem s))" "objs j \<noteq> objs i"
        using that Cons.prems(1) e(4) by (auto simp: nodes_env_ok_def image_iff)
      then have "objs j \<notin> dom (lists (nmem s1))" using s1(5) by simp
      then show ?thesis by blast
    qed
    ultimately show ?thesis using Cons.prems(1) s1(3,4) by (simp add: nodes_env_ok_def Int_Un_distrib2)
  qed
  from Cons.IH [OF this s1(2)] obtain s2 G2 where
    s2: "pools_init e mm junk objs bsize n batch is s1 = Some (map ?np is, s2)" "sys_ok (nmem s2) (caches s2) G2 L" "caches s2 = caches s1"
    "dom (lists (nmem s2)) = objs ` set is \<union> dom (lists (nmem s1))"
    "numa_blocks s2 = numa_blocks s1 \<union> (\<Union>i \<in> set is. node_blocks (?np i))"
    "\<forall>i \<in> set is. set (G2 (objs i)) = node_blocks (?np i)" "\<forall>j. j \<notin> objs ` set is \<longrightarrow> G2 j = (G(objs i := xs)) j"
    by (elim exE conjE) (rule that)
  have "\<forall>j \<in> set (i # is). set (G2 (objs j)) = node_blocks (?np j)" using s2(6,7) e(4) s1(3) by simp
  moreover have "\<forall>j. j \<notin> objs ` set (i # is) \<longrightarrow> G2 j = G j" using s2(7) by simp
  moreover have "pools_init e mm junk objs bsize n batch (i # is) s = Some (map ?np (i # is), s2)" using s1(1) s2(1) by simp
  moreover have "dom (lists (nmem s2)) = objs ` set (i # is) \<union> dom (lists (nmem s))" using s1(5) s2(4) by simp
  moreover have "numa_blocks s2 = numa_blocks s \<union> (\<Union>j \<in> set (i # is). node_blocks (?np j))"
    unfolding s2(5) s1(4,3) by (simp add: Un_assoc)
  moreover have "caches s2 = caches s" using s1(6) s2(3) by simp
  ultimately show ?case using s2(2) by (intro exI [of _ s2] exI [of _ G2] conjI)
qed auto

lemma numa_new_ok:
  assumes nodes: "nodes = (if node_count e > MAX_NODES then MAX_NODES else node_count e)"
    and bsize: "bsize = numa_align_up (if block_sz < sizeof_FreeBlock then sizeof_FreeBlock else block_sz) CACHE_LINE"
    and env: "nodes_env_ok (node_pool e mm objs bsize n batch) objs [0..<nodes] s"
    and s: "sys_ok (nmem s) (caches s) (\<lambda>_. []) (\<lambda>_. [])" "caches s = Map.empty" "numa_blocks s = {}"
  shows "\<exists>s' G. NumaAllocator_new e mm junk objs block_sz n batch s
       = Some (\<lparr>np_pools = map (node_pool e mm objs bsize n batch) [0..<nodes], num_nodes = nodes, na_block_size = bsize\<rparr>, s')
     \<and> numa_ok \<lparr>np_pools = map (node_pool e mm objs bsize n batch) [0..<nodes], num_nodes = nodes, na_block_size = bsize\<rparr> s' G (\<lambda>_. [])
     \<and> (\<forall>i < nodes. set (G (objs i)) = node_blocks (node_pool e mm objs bsize n batch i)) \<and> caches s' = Map.empty"
proof -
  let ?np = "node_pool e mm objs bsize n batch"
  let ?a = "\<lparr>np_pools = map ?np [0..<nodes], num_nodes = nodes, na_block_size = bsize\<rparr>"
  from pools_init_ok [OF env s(1), of junk] obtain s' G where
    g: "pools_init e mm junk objs bsize n batch [0..<nodes] s = Some (map ?np [0..<nodes], s')"
    "sys_ok (nmem s') (caches s') G (\<lambda>_. [])" "caches s' = caches s" "dom (lists (nmem s')) = objs ` set [0..<nodes] \<union> dom (lists (nmem s))"
    "numa_blocks s' = numa_blocks s \<union> (\<Union>i \<in> set [0..<nodes]. node_blocks (?np i))"
    "\<forall>i \<in> set [0..<nodes]. set (G (objs i)) = node_blocks (?np i)" "\<forall>j. j \<notin> objs ` set [0..<nodes] \<longrightarrow> G j = []"
    by (elim exE conjE) (rule that)
  have gl: "np_global (?np i) = objs i" for i by (simp add: node_pool_def)
  have "0 < nodes" using nodes node_count_pos [of e] by (simp add: MAX_NODES_def)
  moreover have "np_global \<circ> ?np = objs" using gl by (simp add: fun_eq_iff)
  ultimately have "numa_layout ?a"
    using env by (simp add: numa_layout_def nodes_env_ok_def)
  moreover have im: "np_global ` set (np_pools ?a) = objs ` set [0..<nodes]" using gl by (simp add: image_image)
  moreover have "\<forall>p \<in> set (np_pools ?a). np_global p \<in> dom (lists (nmem s'))" using im g(4) by blast
  moreover have "\<forall>i < nodes. set (G (np_global (np_pools ?a ! i))) \<subseteq> node_blocks (np_pools ?a ! i)" using g(6) gl by simp
  moreover have "dom (blk (nmem s')) = (\<Union>p \<in> set (np_pools ?a). node_blocks p)" using g(5) s(3) by (simp add: numa_blocks_def)
  ultimately have "numa_ok ?a s' G (\<lambda>_. [])"
    using g(2,3,7) s(2) unfolding numa_ok_def by simp
  moreover have "NumaAllocator_new e mm junk objs block_sz n batch s = Some (?a, s')"
    unfolding NumaAllocator_new_def Let_def nodes [symmetric] bsize [symmetric] using g(1) by simp
  ultimately show ?thesis using g(3,6) s(2) by (intro exI [of _ s'] exI [of _ G]) auto
qed


section \<open>Destruction\<close>

text \<open>What a call acquires or releases. A mapping is released with its size, everything else by its address.\<close>

datatype resource = Mapping addr u64 | Reservation addr | Crt_block addr | Std_block addr

fun acquires :: "sys_call \<Rightarrow> resource list" where
  "acquires (Mmap n (Some p)) = [Mapping p n]"
| "acquires (Virtual_alloc n node (Some p)) = [Reservation p]"
| "acquires (Aligned_malloc n al p) = (if p = nullptr then [] else [Crt_block p])"
| "acquires (Std_aligned_alloc al n p) = (if p = nullptr then [] else [Std_block p])"
| "acquires _ = []"

fun releases :: "sys_call \<Rightarrow> resource list" where
  "releases (Munmap p n) = [Mapping p n]"
| "releases (Virtual_free p True) = [Reservation p]"
| "releases (Aligned_free p) = [Crt_block p]"
| "releases (Std_free p) = [Std_block p]"
| "releases _ = []"

definition all_acquired :: "sys_call list \<Rightarrow> resource list" where
  "all_acquired cs = concat (map acquires cs)"

definition all_released :: "sys_call list \<Rightarrow> resource list" where
  "all_released cs = concat (map releases cs)"

lemma all_append [simp]:
  "all_acquired (cs @ ds) = all_acquired cs @ all_acquired ds" "all_acquired [] = []"
  "all_released (cs @ ds) = all_released cs @ all_released ds" "all_released [] = []"
  by (simp_all add: all_acquired_def all_released_def)

text \<open>\<^verbatim>\<open>mmap\<close> and \<^verbatim>\<open>VirtualAllocExNuma\<close> do not succeed with the null pointer; \<^verbatim>\<open>VirtualFree\<close> succeeds on
  what \<^verbatim>\<open>VirtualAllocExNuma\<close> returned and fails on other addresses.\<close>

definition os_answers_ok :: "os_env \<Rightarrow> (nat \<Rightarrow> addr option \<times> addr) \<Rightarrow> bool" where
  "os_answers_ok e mm = (\<forall>i < MAX_NODES. fst (mm i) \<noteq> Some nullptr
     \<and> (os e = Win32 \<longrightarrow> virtual_free e (node_memory e (fst (mm i)) (snd (mm i))) = (fst (mm i) \<noteq> None)))"

definition node_calls :: "os_env \<Rightarrow> (nat \<Rightarrow> addr option \<times> addr) \<Rightarrow> u64 \<Rightarrow> nat \<Rightarrow> sys_call list" where
  "node_calls e mm bytes i = snd (alloc_on_node e (fst (mm i)) (snd (mm i)) bytes CACHE_LINE i [])"

definition pool_calls :: "os_env \<Rightarrow> NumaPool \<Rightarrow> sys_call list" where
  "pool_calls e p = free_on_node e (np_region p) (np_region_size p) []"

lemma alloc_on_node_calls:
  "alloc_on_node e mm fb bytes al node v = (node_memory e mm fb, v @ snd (alloc_on_node e mm fb bytes al node []))"
  by (simp add: alloc_on_node_def node_memory_def split: platform.splits option.splits)

lemma node_balance:
  assumes "os_answers_ok e mm" "i < MAX_NODES" "np_region p = node_memory e (fst (mm i)) (snd (mm i))" "np_region_size p = bytes"
  shows "all_acquired (node_calls e mm bytes i) = all_released (pool_calls e p)"
    "all_released (node_calls e mm bytes i) = []" "all_acquired (pool_calls e p) = []"
  using assms unfolding node_calls_def pool_calls_def os_answers_ok_def
  by (auto simp: alloc_on_node_def free_on_node_def node_memory_def all_acquired_def all_released_def
      split: platform.splits option.splits)

lemma pools_init_calls:
  assumes "pools_init e mm junk objs bsize n batch is s = Some (ps, s')"
  shows "nvm s' = nvm s @ concat (map (node_calls e mm (bsize * n)) is)"
    "map (\<lambda>p. (np_region p, np_region_size p)) ps = map (\<lambda>i. (node_memory e (fst (mm i)) (snd (mm i)), bsize * n)) is"
  using assms
proof (induction "is" arbitrary: s ps s')
  case (Cons i "is")
  {
    case 1
    then obtain p s1 ps' where s1: "pool_init e (mm i) junk (objs i) bsize n batch i s = Some (p, s1)"
      "pools_init e mm junk objs bsize n batch is s1 = Some (ps', s')" by (auto simp: Option.bind_eq_Some_conv)
    then have "nvm s1 = nvm s @ node_calls e mm (bsize * n) i"
      by (auto simp: pool_init_def Let_def alloc_on_node_calls [of _ _ _ _ _ _ "nvm s"] node_calls_def Option.bind_eq_Some_conv split: if_splits)
    with Cons.IH(1) [OF s1(2)] show ?case by simp
  next
    case 2
    then obtain p s1 ps' where s1: "pool_init e (mm i) junk (objs i) bsize n batch i s = Some (p, s1)"
      "pools_init e mm junk objs bsize n batch is s1 = Some (ps', s')" "ps = p # ps'" by (auto simp: Option.bind_eq_Some_conv)
    then have "np_region p = node_memory e (fst (mm i)) (snd (mm i))" "np_region_size p = bsize * n"
      by (auto simp: pool_init_def Let_def alloc_on_node_calls [of _ _ _ _ _ _ "nvm s"] Option.bind_eq_Some_conv split: if_splits)
    with Cons.IH(2) [OF s1(2)] s1(3) show ?case by simp
  }
qed simp_all

definition drop_pool :: "os_env \<Rightarrow> nproc \<Rightarrow> NumaPool \<Rightarrow> nproc" where
  "drop_pool e s p = (let st = nmem s in
     s\<lparr>nmem := st\<lparr>blk := (if np_region p \<noteq> nullptr then drop_cells (np_region p) (np_region_size p) (blk st) else blk st),
                  lists := (lists st)(np_global p := None)\<rparr>,
       nvm := (if np_region p \<noteq> nullptr then free_on_node e (np_region p) (np_region_size p) (nvm s) else nvm s)\<rparr>)"

lemma delete_fold: "NumaAllocator_delete e a s = foldl (drop_pool e) s (np_pools a)"
proof -
  have "drop_pool e = (\<lambda>s p. drop_pool e s p)" by simp
  then show ?thesis unfolding NumaAllocator_delete_def drop_pool_def by simp
qed

lemma drop_pools:
  "nvm (foldl (drop_pool e) s ps) = nvm s @ concat (map (pool_calls e) ps)"
  "x \<in> dom (blk (nmem (foldl (drop_pool e) s ps))) \<longleftrightarrow>
     x \<in> dom (blk (nmem s)) \<and> (\<forall>p \<in> set ps. np_region p \<noteq> nullptr \<longrightarrow> \<not> x - np_region p < np_region_size p)"
  "i \<in> dom (lists (nmem (foldl (drop_pool e) s ps))) \<longleftrightarrow> i \<in> dom (lists (nmem s)) \<and> i \<notin> np_global ` set ps"
proof (induction ps arbitrary: s)
  case (Cons p ps)
  have *: "nvm (drop_pool e s p) = nvm s @ pool_calls e p" for s
    by (simp add: drop_pool_def pool_calls_def free_on_node_def Let_def split: platform.splits)
  {
    case 1
    show ?case using Cons.IH(1) [of "drop_pool e s p"] * by simp
  next
    case 2
    show ?case using Cons.IH(2) [of "drop_pool e s p"] by (auto simp: drop_pool_def drop_cells_def Let_def split: if_splits)
  next
    case 3
    show ?case using Cons.IH(3) [of "drop_pool e s p"] by (auto simp: drop_pool_def Let_def split: if_splits)
  }
qed simp_all

lemma balance_list:
  assumes "\<forall>i \<in> set is. i < MAX_NODES" "os_answers_ok e mm"
    and "map (\<lambda>p. (np_region p, np_region_size p)) ps = map (\<lambda>i. (node_memory e (fst (mm i)) (snd (mm i)), bytes)) is"
  shows "all_acquired (concat (map (node_calls e mm bytes) is)) = all_released (concat (map (pool_calls e) ps))
    \<and> all_released (concat (map (node_calls e mm bytes) is)) = [] \<and> all_acquired (concat (map (pool_calls e) ps)) = []"
  using assms(1,3)
proof (induction "is" arbitrary: ps)
  case (Cons i "is")
  then obtain p ps' where ps: "ps = p # ps'" by (cases ps) auto
  then have "np_region p = node_memory e (fst (mm i)) (snd (mm i))" "np_region_size p = bytes" "i < MAX_NODES"
    using Cons.prems by auto
  then show ?case using node_balance [OF assms(2), of i p bytes] Cons.IH [of ps'] Cons.prems ps by simp
qed simp

section \<open>Properties\<close>

text \<open>C30. \<^verbatim>\<open>NumaAllocator::alloc\<close>: it always returns. As long as the local node's shared list or the
  thread's cache for that node has a block, the result is a block of the local node's region; otherwise
  the other nodes are tried, and null is returned exactly when for every node the shared list and
  the thread's cache are empty. The result was free before and is in use afterwards, and nothing else changes hands.\<close>

theorem numa_alloc_local_first:
  assumes "numa_ok a s G L"
  shows "\<exists>p s'. numa_alloc cfg a e t s = Some (p, s') \<and> numa_invar a s' \<and> numa_free s' = numa_free s - {p}
    \<and> (p = nullptr \<longleftrightarrow> (\<forall>n < num_nodes a. G (np_global (np_pools a ! n)) = [] \<and> L (t, n) = []))
    \<and> (p \<noteq> nullptr \<longrightarrow> p \<in> numa_free s)
    \<and> (G (np_global (np_pools a ! local_node a e)) \<noteq> [] \<or> L (t, local_node a e) \<noteq> []
         \<longrightarrow> p \<in> node_blocks (np_pools a ! local_node a e))"
proof -
  obtain p s' G' L' where p: "numa_alloc cfg a e t s = Some (p, s')" "numa_ok a s' G' L'" "sys_free G' L' = sys_free G L - {p}"
    "p \<noteq> nullptr \<longrightarrow> p \<in> sys_free G L" "p = nullptr \<longleftrightarrow> (\<forall>n < num_nodes a. node_empty a G L t n)"
    "\<not> node_empty a G L t (local_node a e) \<longrightarrow> p \<in> node_blocks (np_pools a ! local_node a e)"
    using numa_alloc_ok [OF assms, of cfg e t] by blast
  have "numa_invar a s'" using p(2) by (auto simp: numa_invar_def)
  then show ?thesis
    using p numa_free_eq [OF assms] numa_free_eq [OF p(2)]
    by (intro exI [of _ p] exI [of _ s']) (simp add: node_empty_def)
qed

text \<open>C31. \<^verbatim>\<open>NumaAllocator::dealloc\<close> of a block in use: \<^verbatim>\<open>owner_node\<close> finds the node whose region the block
  belongs to, and the block goes to that node's lists (the thread's cache for the node or the node's
  shared list). It becomes free, nothing else changes hands, and every list still holds blocks of its own node only.\<close>

theorem numa_dealloc_to_owner:
  assumes "numa_ok a s G L" "x \<in> numa_blocks s - numa_free s"
  shows "\<exists>n s' G' L'. n < num_nodes a \<and> x \<in> node_blocks (np_pools a ! n) \<and> owner_node a x = n
    \<and> numa_dealloc cfg a t s x = Some s' \<and> numa_ok a s' G' L' \<and> numa_free s' = insert x (numa_free s)
    \<and> x \<in> set (G' (np_global (np_pools a ! n))) \<union> set (L' (t, n))"
proof -
  obtain n s' G' L' where d: "n < num_nodes a" "x \<in> node_blocks (np_pools a ! n)" "owner_node a x = n"
    "numa_dealloc cfg a t s x = Some s'" "numa_ok a s' G' L'" "sys_free G' L' = insert x (sys_free G L)"
    "x \<in> set (G' (np_global (np_pools a ! n))) \<union> set (L' (t, n))"
    using numa_dealloc_ok [OF assms, of cfg t] by blast
  then show ?thesis
    using numa_free_eq [OF assms(1)] numa_free_eq [OF d(5)]
    by (intro exI [of _ n] exI [of _ s'] exI [of _ G'] exI [of _ L']) simp
qed

text \<open>C37. The constructor: in a process without other blocks, with sizes that do not wrap around and
  disjoint memory for the nodes that got any, it builds one pool per node (at most 16), with the rounded block
  size, the block count, the batch size and the freelist of that node and, as its region, the memory that
  \<^verbatim>\<open>alloc_on_node\<close> got for it. The node's shared list then holds exactly the \<open>n\<close> blocks of that region (none when there was
  no memory), no thread has a cache, and the free blocks are the blocks of all regions.\<close>

theorem numa_constructor:
  assumes "nodes = (if node_count e > MAX_NODES then MAX_NODES else node_count e)"
    and "bsize = numa_align_up (if block_sz < sizeof_FreeBlock then sizeof_FreeBlock else block_sz) CACHE_LINE"
    and "nodes_env_ok (node_pool e mm objs bsize n batch) objs [0..<nodes] s"
    and "sys_ok (nmem s) (caches s) (\<lambda>_. []) (\<lambda>_. [])" "caches s = Map.empty" "numa_blocks s = {}"
  defines "mem_of i \<equiv> node_memory e (fst (mm i)) (snd (mm i))"
  defines "blocks_of i \<equiv> (if mem_of i = nullptr then {} else block_at (mem_of i) bsize ` {..<unat n})"
  shows "\<exists>a s' G. NumaAllocator_new e mm junk objs block_sz n batch s = Some (a, s') \<and> numa_ok a s' G (\<lambda>_. [])
     \<and> num_nodes a = nodes \<and> 0 < nodes \<and> nodes \<le> 16 \<and> na_block_size a = bsize \<and> length (np_pools a) = nodes
     \<and> (\<forall>i < nodes. np_pools a ! i = \<lparr>np_global = objs i, np_region = mem_of i, np_region_size = bsize * n,
            np_block_size = bsize, np_block_count = n, np_batch_size = batch\<rparr> \<and> set (G (objs i)) = blocks_of i)
     \<and> caches s' = Map.empty \<and> numa_free s' = (\<Union>i < nodes. blocks_of i) \<and> numa_blocks s' = (\<Union>i < nodes. blocks_of i)"
proof -
  let ?np = "node_pool e mm objs bsize n batch"
  let ?a = "\<lparr>np_pools = map ?np [0..<nodes], num_nodes = nodes, na_block_size = bsize\<rparr>"
  obtain s' G where g: "NumaAllocator_new e mm junk objs block_sz n batch s = Some (?a, s')" "numa_ok ?a s' G (\<lambda>_. [])"
    "\<forall>i < nodes. set (G (objs i)) = node_blocks (?np i)" "caches s' = Map.empty"
    using numa_new_ok [OF assms(1-6), of junk] by blast
  have nb: "node_blocks (?np i) = blocks_of i" for i by (simp add: node_blocks_def node_pool_def blocks_of_def mem_of_def)
  have bl: "numa_blocks s' = (\<Union>i < nodes. blocks_of i)"
    unfolding numa_blocks_eq [OF g(2)] using nb by (simp add: atLeast0LessThan)
  have "x \<in> numa_free s'" if x: "x \<in> numa_blocks s'" for x
  proof -
    obtain i where "i < nodes" "x \<in> set (G (objs i))" using x g(3) nb unfolding bl by auto
    then show ?thesis unfolding numa_free_eq [OF g(2)] sys_free_def by blast
  qed
  moreover have "numa_free s' \<subseteq> numa_blocks s'" by (rule na.free_blocks) (use g(2) in \<open>auto simp: numa_invar_def\<close>)
  ultimately have fr: "numa_free s' = (\<Union>i < nodes. blocks_of i)" using bl by blast
  have n16: "0 < nodes" "nodes \<le> 16" using assms(1) node_count_pos [of e] by (simp_all add: MAX_NODES_def)
  have "\<forall>i < nodes. np_pools ?a ! i = \<lparr>np_global = objs i, np_region = mem_of i, np_region_size = bsize * n,
            np_block_size = bsize, np_block_count = n, np_batch_size = batch\<rparr> \<and> set (G (objs i)) = blocks_of i"
    using g(3) nb by (simp add: node_pool_def mem_of_def)
  then show ?thesis
    using g(1,2,4) fr bl n16 by (intro exI [of _ ?a] exI [of _ s'] exI [of _ G] conjI) simp_all
qed

text \<open>C40. No memory is leaked: the destructor releases exactly what the constructor acquired, on every platform and
  whichever nodes got memory: the calls of the destructor release, in order and once each, the mappings (with the size they
  were mapped with), reservations and run-time blocks the calls of the constructor acquired; the constructor releases
  nothing and the destructor acquires nothing. Afterwards no cell of a region is left and the pools' freelists are gone.
  (The system's answers are assumed as documented: \<^verbatim>\<open>VirtualFree\<close> succeeds exactly on what \<^verbatim>\<open>VirtualAllocExNuma\<close> gave.)\<close>

theorem numa_no_leak:
  assumes "NumaAllocator_new e mm junk objs block_sz n batch s = Some (a, s')" "os_answers_ok e mm"
  defines "s'' \<equiv> NumaAllocator_delete e a s'"
  shows "\<exists>cs ds. nvm s' = nvm s @ cs \<and> nvm s'' = nvm s' @ ds \<and> all_released ds = all_acquired cs
     \<and> all_released cs = [] \<and> all_acquired ds = []
     \<and> (\<forall>p \<in> set (np_pools a). lists (nmem s'') (np_global p) = None
          \<and> (np_region p \<noteq> nullptr \<longrightarrow> (\<forall>x. x - np_region p < np_region_size p \<longrightarrow> blk (nmem s'') x = None)))"
proof -
  define nodes where "nodes = (if node_count e > MAX_NODES then MAX_NODES else node_count e)"
  define bsize where "bsize = numa_align_up (if block_sz < sizeof_FreeBlock then sizeof_FreeBlock else block_sz) CACHE_LINE"
  have "pools_init e mm junk objs bsize n batch [0..<nodes] s = Some (np_pools a, s')"
    using assms(1) unfolding NumaAllocator_new_def nodes_def bsize_def by (auto simp: Let_def Option.bind_eq_Some_conv)
  note calls = pools_init_calls [OF this]
  have "\<forall>i \<in> set [0..<nodes]. i < MAX_NODES" by (simp add: nodes_def)
  note bal = balance_list [OF this assms(2) calls(2)]
  have d: "s'' = foldl (drop_pool e) s' (np_pools a)" by (simp add: s''_def delete_fold)
  have "lists (nmem s'') (np_global p) = None" if "p \<in> set (np_pools a)" for p
    using that drop_pools(3) [of "np_global p" e s' "np_pools a"] unfolding d by blast
  moreover have "blk (nmem s'') x = None" if "p \<in> set (np_pools a)" "np_region p \<noteq> nullptr" "x - np_region p < np_region_size p" for p x
    using that drop_pools(2) [of x e s' "np_pools a"] unfolding d by blast
  ultimately show ?thesis
    using calls(1) drop_pools(1) [of e s' "np_pools a"] bal unfolding d
    by (intro exI [of _ "concat (map (node_calls e mm (bsize * n)) [0..<nodes])"] exI [of _ "concat (map (pool_calls e) (np_pools a))"]) auto
qed

section \<open>A concrete machine\<close>

text \<open>Two nodes, three blocks of 64 bytes each; node directory 2 is missing.\<close>

definition nproc0 :: nproc where
  "nproc0 = \<lparr>nmem = \<lparr>blk = Map.empty, lists = Map.empty\<rparr>, caches = Map.empty, nenvs = (\<lambda>_. thread_env_new),
     nvm = []\<rparr>"

definition demo_mm :: "nat \<Rightarrow> addr option \<times> addr" where
  "demo_mm i = (if i = 0 then Some 4096 else Some 8192, nullptr)"

lemma nproc0_ok: "sys_ok (nmem nproc0) (caches nproc0) (\<lambda>_. []) (\<lambda>_. [])" "caches nproc0 = Map.empty" "numa_blocks nproc0 = {}"
  by (rule sys_okI) (simp_all add: nproc0_def numa_blocks_def)

lemma demo_nodes:
  "2 = (if node_count demo_os > MAX_NODES then MAX_NODES else node_count demo_os)"
  "64 = numa_align_up (if 48 < sizeof_FreeBlock then sizeof_FreeBlock else 48) CACHE_LINE"
proof -
  have "count_loop (node_dir demo_os) 0 0 = 0 + 2"
    by (rule count_loop_prefix) (auto simp: demo_os_def less_Suc_eq numeral_2_eq_2)
  then show "2 = (if node_count demo_os > MAX_NODES then MAX_NODES else node_count demo_os)"
    by (simp add: node_count_def MAX_NODES_def demo_os_def)
  show "64 = numa_align_up (if 48 < sizeof_FreeBlock then sizeof_FreeBlock else 48) CACHE_LINE"
    by (simp add: numa_align_up_def sizeof_FreeBlock_def CACHE_LINE_def)
qed

lemma demo_env: "nodes_env_ok (node_pool demo_os demo_mm id 64 3 16) id [0..<2] nproc0"
proof -
  have "[0..<2 :: nat] = [0, 1]" by (simp add: upt_rec)
  then show ?thesis
    by (simp add: nodes_env_ok_def nproc0_def numa_blocks_def node_pool_def demo_mm_def demo_os_def node_memory_def pool_fits_def pools_apart_def pool_end_def)
qed

lemma demo_numa:
  obtains a s G where "NumaAllocator_new demo_os demo_mm (\<lambda>_. 0) id 48 3 16 nproc0 = Some (a, s)" "numa_ok a s G (\<lambda>_. [])"
    "num_nodes a = 2" "np_pools a = [node_pool demo_os demo_mm id 64 3 16 0, node_pool demo_os demo_mm id 64 3 16 1]"
    "set (G 1) = {8192, 8256, 8320}"
proof -
  have u: "[0..<2 :: nat] = [0, 1]" "{..<3 :: nat} = {0, 1, 2}" by (auto simp: upt_rec)
  from numa_new_ok [OF demo_nodes demo_env nproc0_ok, of "\<lambda>_. 0"] obtain s G where
    "NumaAllocator_new demo_os demo_mm (\<lambda>_. 0) id 48 3 16 nproc0 =
       Some (\<lparr>np_pools = map (node_pool demo_os demo_mm id 64 3 16) [0..<2], num_nodes = 2, na_block_size = 64\<rparr>, s)"
    "numa_ok \<lparr>np_pools = map (node_pool demo_os demo_mm id 64 3 16) [0..<2], num_nodes = 2, na_block_size = 64\<rparr> s G (\<lambda>_. [])"
    "\<forall>i < 2. set (G (id i)) = node_blocks (node_pool demo_os demo_mm id 64 3 16 i)" by blast
  moreover from this(3) have "set (G 1) = node_blocks (node_pool demo_os demo_mm id 64 3 16 1)" by simp
  then have "set (G 1) = {8192, 8256, 8320}" by (simp add: node_blocks_def node_pool_def demo_mm_def demo_os_def node_memory_def u block_at_def)
  ultimately show thesis using that unfolding u by (simp add: list.map)
qed

theorem numa_alloc_local_first_witness:
  "\<exists>a s p s'. numa_alloc demo_cfg a demo_os 7 s = Some (p, s') \<and> p \<in> {8192, 8256, 8320}"
proof (rule demo_numa)
  fix a s G assume a: "numa_ok a s G (\<lambda>_. [])" "num_nodes a = 2" "np_pools a = [node_pool demo_os demo_mm id 64 3 16 0, node_pool demo_os demo_mm id 64 3 16 1]"
    "set (G 1) = {8192, 8256, 8320}"
  have l: "local_node a demo_os = 1" "np_global (np_pools a ! 1) = 1" using a(2,3) by (simp_all add: local_node_def node_pool_def current_node_def demo_os_def)
  have "node_blocks (np_pools a ! 1) = {8192, 8256, 8320}"
    using a(3) by (auto simp: node_blocks_def node_pool_def demo_mm_def demo_os_def node_memory_def block_at_def lessThan_nat_numeral lessThan_Suc)
  moreover have "G 1 \<noteq> []" using a(4) by auto
  moreover obtain p s' where "numa_alloc demo_cfg a demo_os 7 s = Some (p, s')" "G 1 \<noteq> [] \<longrightarrow> p \<in> node_blocks (np_pools a ! 1)"
    using numa_alloc_local_first [OF a(1), of demo_cfg demo_os 7] unfolding l by blast
  ultimately show ?thesis by blast
qed

theorem numa_dealloc_to_owner_witness:
  "\<exists>a s x s'. owner_node a x = 1 \<and> numa_dealloc demo_cfg a 3 s x = Some s' \<and> x \<in> numa_free s'"
proof (rule demo_numa)
  fix a s G assume a: "numa_ok a s G (\<lambda>_. [])" "num_nodes a = 2" "np_pools a = [node_pool demo_os demo_mm id 64 3 16 0, node_pool demo_os demo_mm id 64 3 16 1]"
    "set (G 1) = {8192, 8256, 8320}"
  have l: "local_node a demo_os = 1" "np_global (np_pools a ! 1) = 1" using a(2,3) by (simp_all add: local_node_def node_pool_def current_node_def demo_os_def)
  have "\<not> node_empty a G (\<lambda>_. []) 7 1" using a(4) l by (auto simp: node_empty_def)
  then obtain p s' G' L' where p: "numa_ok a s' G' L'" "sys_free G' L' = sys_free G (\<lambda>_ :: tid \<times> nat. []) - {p}" "p \<in> node_blocks (np_pools a ! 1)"
    using numa_alloc_ok [OF a(1), of demo_cfg demo_os 7] unfolding l(1) by blast
  have "p \<in> numa_blocks s' - numa_free s'"
    using p numa_blocks_eq [OF p(1)] numa_free_eq [OF p(1)] a(3) by auto
  from numa_dealloc_to_owner [OF p(1) this, of demo_cfg 3] obtain s'' where "numa_dealloc demo_cfg a 3 s' p = Some s''"
    "numa_free s'' = insert p (numa_free s')" by blast
  moreover have "owner_node a p = 1" using owner_node_block [OF p(1) _ p(3)] a(2) by simp
  ultimately show ?thesis by (intro exI [of _ a] exI [of _ s'] exI [of _ p] exI [of _ s'']) simp
qed

theorem numa_constructor_witness:
  "\<exists>a s' G. NumaAllocator_new demo_os demo_mm (\<lambda>_. 0) id 48 3 16 nproc0 = Some (a, s') \<and> numa_ok a s' G (\<lambda>_. []) \<and> num_nodes a = 2"
  using numa_constructor [OF demo_nodes demo_env nproc0_ok, of "\<lambda>_. 0"] by (elim exE conjE) (intro exI conjI)

theorem numa_no_leak_witness:
  "\<exists>a s'. NumaAllocator_new demo_os demo_mm (\<lambda>_. 0) id 48 3 16 nproc0 = Some (a, s')
     \<and> (\<exists>cs ds. nvm s' = nvm nproc0 @ cs \<and> nvm (NumaAllocator_delete demo_os a s') = nvm s' @ ds \<and> all_released ds = all_acquired cs)"
proof (rule demo_numa)
  fix a s assume a: "NumaAllocator_new demo_os demo_mm (\<lambda>_. 0) id 48 3 16 nproc0 = Some (a, s)"
  have "os_answers_ok demo_os demo_mm" by (simp add: os_answers_ok_def demo_os_def demo_mm_def)
  from numa_no_leak [OF a this] a show ?thesis by blast
qed

end
