(* ===== verification/Spec2Isabelle.thy ===== *)
theory Spec2Isabelle
  imports Freelist_Bytes Freelist_Conc Bulk_Conc TL_Bitmap_Conc Multi_Size Numa
begin

text \<open>
  \<^bold>\<open>Verification of the pool-memalloc allocators.\<close>

  The program (src/include, src/src) is a C++ library of fixed-size block allocators:

  \<^item> \<^verbatim>\<open>FreelistAllocator\<close> (freelist\_allocator): a lock-free stack of free blocks linked through
    their first word, with a tagged head pointer, and two bulk operations under a mutex.
  \<^item> \<^verbatim>\<open>BitmapAllocator\<close> (bitmap\_allocator): a region of blocks and one bit per block.
  \<^item> \<^verbatim>\<open>ThreadCache\<close> and \<^verbatim>\<open>ThreadLocalFreelistAllocator\<close> (tl\_freelist\_allocator): a private list per thread in
    front of a shared freelist, refilled and flushed in batches, with the counters and checks of alloc\_stats.hpp.
  \<^item> \<^verbatim>\<open>MultiSizeAllocator\<close> (multi\_size\_allocator): five thread-local freelist allocators, one per size class.
  \<^item> \<^verbatim>\<open>ThreadLocalBitmapAllocator\<close> (tl\_bitmap\_allocator): one bitmap region per thread slot.
  \<^item> \<^verbatim>\<open>NumaAllocator\<close> and \<^verbatim>\<open>namespace numa\<close> (numa\_allocator, numa\_utils): one pool per NUMA node, one thread cache
    per thread and node.

  \<^bold>\<open>Theories.\<close>

  \<^item> \<open>Pool_Prelude\<close>: 64-bit words, the memory of \<^verbatim>\<open>FreeBlock\<close> cells (\<open>heap\<close>: address to \<^verbatim>\<open>next\<close>), linked segments
    (\<open>seg\<close>, \<open>chain\<close>), the weak compare-exchange, the C library heap, arrays of equal blocks.
  \<^item> \<open>Pool_Interface\<close>: the contracts, as locales. \<open>block_pool\<close> (an allocation takes a free block or returns null,
    a deallocation makes a used block free), \<open>complete_pool\<close> (null only when nothing is free) and
    \<open>interleaving\<close> (an invariant of every reachable state of a transition system). Every allocator
    interprets the pool contract it satisfies: \<open>fl\<close>, \<open>bm\<close>, \<open>bm64\<close>, \<open>tc\<close>, \<open>tlf\<close>, \<open>tb\<close>, \<open>na\<close>; the
    transition systems interpret \<open>interleaving\<close>: \<open>fc\<close>, \<open>bk\<close>, \<open>bc\<close>, \<open>tbc\<close>, \<open>tbl\<close>.
  \<^item> \<open>Freelist\<close>: \<^verbatim>\<open>push\<close>, \<^verbatim>\<open>pop\<close>, \<^verbatim>\<open>push_bulk\<close>, \<^verbatim>\<open>pop_bulk\<close> of one thread; a freelist \<open>fl_holds\<close> a list of blocks, and
    each operation is shown to be the list operation it means, with nothing else written.
  \<^item> \<open>Freelist_Bytes\<close>: the same operations over a memory of bytes, where a link takes the first eight bytes of a block.
    For blocks of at least eight bytes they simulate the cells, so the bulk transfers do what they mean; with blocks of four bytes
    they corrupt the list (README, Notes). The allocators below round every block up to 64 bytes.
  \<^item> \<open>Freelist_Conc\<close>: any number of threads in \<^verbatim>\<open>push\<close> and \<^verbatim>\<open>pop\<close>, one atomic access per step. Every reachable
    state keeps each block with one owner, every step is a step of an abstract stack (no ABA as long as
    the 64-bit tag has not wrapped around), no thread faults, and the system is
    lock-free: a bound on the number of steps between two returns, by a rank of the threads' control points.
  \<^item> \<open>Bulk_Conc\<close>: any number of threads in \<^verbatim>\<open>push_bulk\<close> and \<^verbatim>\<open>pop_bulk\<close> under the mutex, one \<^verbatim>\<open>push\<close>, \<^verbatim>\<open>pop\<close> or link
    access per step. The mutex excludes, nobody deadlocks, a batch belongs to its thread, and without direct \<^verbatim>\<open>push\<close>
    and \<^verbatim>\<open>pop\<close> calls a whole bulk call is the sequential function applied at the acquisition. The thread caches use only
    the bulk operations, so this is why the theories below may let their calls interleave as whole operations.
  \<^item> \<open>Bitmap_Core\<close>, \<open>Bitmap\<close>: the two search loops (\<open>claim_loop\<close>, \<open>probe_loop\<close>) against the specification
    \<open>scan\<close>; construction, destruction, \<^verbatim>\<open>alloc\<close>, \<^verbatim>\<open>dealloc\<close>, the layout of blocks, and the cases in which the code
    returns null although a block is free.
  \<^item> \<open>Bitmap_Conc\<close>: any number of threads in \<^verbatim>\<open>alloc\<close> and \<^verbatim>\<open>dealloc\<close> of a bitmap allocator, one atomic access per
    step. No block has two owners, every step is a step of an abstract set of free blocks, no thread faults, and
    a thread that is left alone returns within a bounded number of steps, with the result of the sequential function and no other.
  \<^item> \<open>Alloc_Stats\<close>: alloc\_stats.hpp with both compile-time switches.
  \<^item> \<open>Thread_Cache\<close>: \<^verbatim>\<open>refill\<close>, \<^verbatim>\<open>flush\<close>, \<^verbatim>\<open>alloc\<close>, \<^verbatim>\<open>dealloc\<close> of one cache, as a refinement of a pair of lists
    (\<open>cache_alloc\<close>, \<open>cache_dealloc\<close>), with bounds, amortisation and accounting.
  \<^item> \<open>Cache_System\<close>: any number of caches over any number of freelists (\<open>sys_ok\<close>): no block is on two lists, and
    an operation of one cache leaves all others alone.
  \<^item> \<open>TL_Freelist\<close>, \<open>Multi_Size\<close>, \<open>Numa\<close>: the allocators built on caches. The thread-local variables are part of a
    process state (\<open>proc\<close>, \<open>nproc\<close>), so that sharing a cache between allocator objects, the end of a thread and
    the destruction of an allocator can be expressed. The memory calls of \<^verbatim>\<open>namespace numa\<close> are recorded as a trace
    (\<open>sys_call\<close>), against which constructor and destructor are balanced.
  \<^item> \<open>TL_Bitmap\<close>: a region with the block size is a bitmap allocator (\<open>as_bitmap\<close>), and the operations refine those of \<open>Bitmap\<close>.
  \<^item> \<open>TL_Bitmap_Conc\<close>: any number of threads in \<^verbatim>\<open>alloc\<close> and \<^verbatim>\<open>dealloc\<close> of that allocator. Every region
    simulates a shared bitmap allocator of \<open>Bitmap_Conc\<close>, so ownership stays exclusive; the plain field \<^verbatim>\<open>Region::hint\<close> is
    raced when blocks are freed by other threads, and is not when every thread keeps to its own region.

  \<^bold>\<open>Reading the models.\<close> \<^verbatim>\<open>size_t\<close>, \<^verbatim>\<open>uint64_t\<close> and pointers are 64-bit words that wrap around like the code's. An
  operation returns \<open>Some\<close> for a normal return and \<open>None\<close> when the code dereferences an address that holds no
  object, divides by zero or never returns; the theorems prove that the result is \<open>Some\<close>. A constructor that
  throws returns \<open>Inl Bad_alloc\<close>. The loops around \<^verbatim>\<open>compare_exchange_weak\<close> take the list of attempts that fail
  spuriously; theorems hold for every number of them. The results of \<^verbatim>\<open>operator new\<close>, \<^verbatim>\<open>aligned_alloc\<close>, \<^verbatim>\<open>mmap\<close> and the other system
  calls are arguments. A block has one cell for its link (\<open>heap\<close>), without width; \<open>Freelist_Bytes\<close> says for which block sizes this is
  what the bytes do. All other loops terminate by a measure, so no fuel is used.

  \<^bold>\<open>What is not modelled.\<close> Weak memory: steps are sequentially consistent, and the plain field \<^verbatim>\<open>Region::hint\<close> is read and
  written in single steps (\<open>TL_Bitmap_Conc\<close> shows where two of them race, which is undefined in C++). What the operating system does inside a call. Calls of the thread caches by different
  threads interleave as whole operations (see \<open>Bulk_Conc\<close>); \<^verbatim>\<open>push\<close>, \<^verbatim>\<open>pop\<close> and the bulk operations of the
  shared freelist and \<^verbatim>\<open>alloc\<close> and \<^verbatim>\<open>dealloc\<close> of the two bitmap allocators interleave step by step. \<^verbatim>\<open>PREFETCH\<close> and alignment attributes have no
  effect on results. The benchmark programs and the build files.
\<close>

end
